(* ===== verification/Qmux_Prelude.thy ===== *)
theory Qmux_Prelude
  imports Main "HOL-Library.Word" "HOL-Library.Monad_Syntax"
begin

text \<open>
  The prelude of the development: the machine types of the Go code, the two formatting verbs
  of \<open>fmt.Sprintf\<close> the code uses (decimal and hexadecimal), and the generic lemmas on lists and on
  64-bit words that the component theories share.

  Go's \<open>uint64\<close> is \<open>64 word\<close>, so \<open>+\<close> and \<open>-\<close> wrap as in Go; a \<open>byte\<close> is
  \<open>8 word\<close>; a byte slice is a list of bytes (nil and empty slices are the same value); a Go
  string is an Isabelle \<open>string\<close>, since both are sequences of 8-bit characters. A
  \<open>time.Duration\<close> or a point in time is an \<open>int\<close>, in nanoseconds.
\<close>

type_synonym byte = "8 word"
type_synonym bytes = "byte list"
type_synonym u64 = "64 word"

named_theorems word_nat \<open>orders and sums of 64-bit words, moved to the natural numbers\<close>

section \<open>Definitions\<close>

text \<open>\<open>uint64(len(x))\<close>.\<close>

definition u64_len :: "'a list \<Rightarrow> u64" where
  "u64_len xs = of_nat (length xs)"

text \<open>A Go string as the bytes it consists of, and back (\<open>append(b, s...)\<close>, \<open>string(p)\<close>).\<close>

definition bytes_of_string :: "string \<Rightarrow> bytes" where
  "bytes_of_string s = map (\<lambda>c. of_nat (of_char c)) s"

definition string_of_bytes :: "bytes \<Rightarrow> string" where
  "string_of_bytes b = map (\<lambda>x. char_of (unat x)) b"

text \<open>The verbs \<open>%d\<close> and \<open>%x\<close> of \<open>fmt.Sprintf\<close> on an unsigned integer.\<close>

definition digit :: "nat \<Rightarrow> char" where
  "digit d = (if d < 10 then char_of (48 + d) else char_of (87 + d))"

fun show_base :: "nat \<Rightarrow> nat \<Rightarrow> string" where
  "show_base b n = (if b \<le> 1 \<or> n < b then [digit n] else show_base b (n div b) @ [digit (n mod b)])"

declare show_base.simps [simp del]

definition show_dec :: "u64 \<Rightarrow> string" where
  "show_dec w = show_base 10 (unat w)"

definition show_hex :: "u64 \<Rightarrow> string" where
  "show_hex w = show_base 16 (unat w)"

section \<open>Words\<close>

lemmas [word_nat] = word_less_nat_alt word_le_nat_alt

lemma unat_lt_u64: "unat (a :: u64) < 2 ^ 64"
  using unsigned_less [of a] by simp

lemma unat_add_u64 [word_nat]:
  "unat (a :: u64) + unat b < 2 ^ 64 \<Longrightarrow> unat (a + b) = unat a + unat b"
  by (simp add: unat_word_ariths)

lemma unat_sub_u64 [word_nat]: "b \<le> a \<Longrightarrow> unat (a - b) = unat (a :: u64) - unat b"
  by (simp add: unat_sub)

lemma unat_of_nat_u64 [word_nat]: "n < 2 ^ 64 \<Longrightarrow> unat (of_nat n :: u64) = n"
  by (simp add: unat_of_nat)

lemma unat_u64_len [word_nat]: "length xs < 2 ^ 64 \<Longrightarrow> unat (u64_len xs) = length xs"
  by (simp add: u64_len_def unat_of_nat_u64)

lemma unat_lt_byte: "unat (x :: byte) < 256"
  by (rule unsigned_less [THEN order_less_le_trans]) simp

lemma unat_ucast_byte [simp]: "unat (ucast (x :: byte) :: u64) = unat x"
proof -
  have "unat x < 2 ^ 64" using unat_lt_byte [of x] by simp
  then show ?thesis by (simp add: unsigned_ucast_eq take_bit_nat_eq_self)
qed

lemma ucast_u64_byte [simp]: "ucast (ucast (x :: byte) :: u64) = x"
  by (rule bit_word_eqI) (simp add: bit_simps)

lemma sint_small: "unat (w :: u64) < 2 ^ 63 \<Longrightarrow> sint w = int (unat w)"
proof -
  assume "unat w < 2 ^ 63"
  then have "int (unat w) < int (2 ^ 63)" by (simp only: of_nat_less_iff)
  then have "uint w < 2 ^ 63" by simp
  moreover have "- (2 ^ 63) \<le> uint w" using uint_ge_0 [of w] by (rule order_trans [rotated]) simp
  ultimately have "signed_take_bit 63 (uint w) = uint w" by (intro signed_take_bit_int_eq_self)
  then show ?thesis by (simp add: sint_uint)
qed

lemma u64_len_Nil [simp]: "u64_len [] = 0"
  by (simp add: u64_len_def)

section \<open>Strings\<close>

lemma length_bytes_of_string [simp]: "length (bytes_of_string s) = length s"
  by (simp add: bytes_of_string_def)

lemma char_of_byte [simp]: "char_of (unat (of_nat (of_char c) :: byte)) = c"
  using nat_of_char_less_256 [of c] by (simp add: unat_of_nat)

lemma string_of_bytes_of_string [simp]: "string_of_bytes (bytes_of_string s) = s"
  by (simp add: string_of_bytes_def bytes_of_string_def comp_def)

section \<open>Options\<close>

lemma bind_SomeI: "x = Some a \<Longrightarrow> f a = r \<Longrightarrow> Option.bind x f = r"
  by simp

lemma bind_SomeE:
  assumes "Option.bind x f = Some r"
  obtains a where "x = Some a" "f a = Some r"
  using assms by (cases x) auto

end
