(* ===== verification/Go_Heap.thy ===== *)
theory Go_Heap
  imports Main "HOL-Library.Multiset"
begin

text \<open>The package \<open>container/heap\<close> of Go's standard library, as far as \<open>write_lock.go\<close> uses it:
  \<open>up\<close>, \<open>down\<close>, \<open>Push\<close> and \<open>Pop\<close> over a slice, with the method \<open>Less\<close> of \<open>heap.Interface\<close> as a
  parameter. The locale \<open>heap_order\<close> holds what \<open>heap.Interface\<close> asks of \<open>Less\<close>, a strict weak order,
  and the lemmas a client needs: both operations keep the heap and its elements, and \<open>Pop\<close> returns
  an element that no other one precedes.\<close>

section \<open>Operations\<close>

definition heap_swap :: "'a list \<Rightarrow> nat \<Rightarrow> nat \<Rightarrow> 'a list" where
  "heap_swap h i j = h[i := h ! j, j := h ! i]"

text \<open>\<open>up\<close>: Go computes the parent as \<open>(j - 1) / 2\<close>, which is 0 for \<open>j = 0\<close>, and stops there since
  \<open>i == j\<close>; division of naturals gives the same.\<close>

fun heap_up :: "('a \<Rightarrow> 'a \<Rightarrow> bool) \<Rightarrow> 'a list \<Rightarrow> nat \<Rightarrow> 'a list" where
  "heap_up lt h j =
     (let i = (j - 1) div 2
      in if i = j \<or> \<not> lt (h ! j) (h ! i) then h else heap_up lt (heap_swap h i j) i)"

declare heap_up.simps [simp del]

text \<open>The child that \<open>down\<close> compares with its parent: the second one where it exists and is less.\<close>

definition heap_child :: "('a \<Rightarrow> 'a \<Rightarrow> bool) \<Rightarrow> 'a list \<Rightarrow> nat \<Rightarrow> nat \<Rightarrow> nat" where
  "heap_child lt h i n =
     (let j1 = 2 * i + 1; j2 = j1 + 1 in if j2 < n \<and> lt (h ! j2) (h ! j1) then j2 else j1)"

function heap_down :: "('a \<Rightarrow> 'a \<Rightarrow> bool) \<Rightarrow> 'a list \<Rightarrow> nat \<Rightarrow> nat \<Rightarrow> 'a list" where
  "heap_down lt h i n =
     (if 2 * i + 1 \<ge> n then h
      else let j = heap_child lt h i n
           in if \<not> lt (h ! j) (h ! i) then h else heap_down lt (heap_swap h i j) j n)"
  by pat_completeness auto
termination
  by (relation "measure (\<lambda>(lt, h, i, n). n - i)") (auto simp: heap_child_def Let_def)

declare heap_down.simps [simp del]

definition heap_Push :: "('a \<Rightarrow> 'a \<Rightarrow> bool) \<Rightarrow> 'a list \<Rightarrow> 'a \<Rightarrow> 'a list" where
  "heap_Push lt h x = heap_up lt (h @ [x]) (length (h @ [x]) - 1)"

text \<open>\<open>Pop\<close> on an empty heap panics in \<open>Swap(0, -1)\<close>.\<close>

definition heap_Pop :: "('a \<Rightarrow> 'a \<Rightarrow> bool) \<Rightarrow> 'a list \<Rightarrow> ('a \<times> 'a list) option" where
  "heap_Pop lt h =
     (if h = [] then None
      else let n = length h - 1; h = heap_down lt (heap_swap h 0 n) 0 n
           in Some (last h, butlast h))"

section \<open>Elements\<close>

lemma heap_swap_length [simp]: "length (heap_swap h i j) = length h"
  by (simp add: heap_swap_def)

lemma heap_swap_mset: "i < length h \<Longrightarrow> j < length h \<Longrightarrow> mset (heap_swap h i j) = mset h"
  by (simp add: heap_swap_def mset_swap)

lemma heap_swap_nth:
  "i < length h \<Longrightarrow> j < length h \<Longrightarrow> k < length h \<Longrightarrow>
   heap_swap h i j ! k = (if k = i then h ! j else if k = j then h ! i else h ! k)"
  by (auto simp: heap_swap_def nth_list_update)

lemma heap_up_mset: "j < length h \<Longrightarrow> mset (heap_up lt h j) = mset h"
proof (induction lt h j rule: heap_up.induct)
  case (1 lt h j)
  then show ?case
    by (subst heap_up.simps) (simp add: Let_def heap_swap_mset)
qed

lemma heap_child_bounds:
  "2 * i + 1 < n \<Longrightarrow> i < heap_child lt h i n \<and> heap_child lt h i n < n \<and>
   (heap_child lt h i n - 1) div 2 = i"
  by (auto simp: heap_child_def Let_def)

lemma heap_down_keeps:
  "n \<le> length h \<Longrightarrow> mset (heap_down lt h i n) = mset h \<and>
     (\<forall>k. n \<le> k \<longrightarrow> k < length h \<longrightarrow> heap_down lt h i n ! k = h ! k)"
proof (induction lt h i n rule: heap_down.induct)
  case (1 lt h i n)
  show ?case
  proof (cases "2 * i + 1 < n \<and> lt (h ! heap_child lt h i n) (h ! i)")
    case True
    let ?j = "heap_child lt h i n"
    have j: "i < ?j" "?j < n" using True heap_child_bounds by blast+
    have "heap_down lt h i n = heap_down lt (heap_swap h i ?j) ?j n"
      using True by (subst heap_down.simps) (simp add: Let_def)
    with 1 True j show ?thesis by (auto simp: heap_swap_mset heap_swap_nth)
  next
    case False
    then have "heap_down lt h i n = h" by (subst heap_down.simps) (auto simp: Let_def)
    then show ?thesis by simp
  qed
qed

lemma heap_down_length: "n \<le> length h \<Longrightarrow> length (heap_down lt h i n) = length h"
  using heap_down_keeps [of n h lt i] by (metis size_mset)

lemma heap_Push_mset: "mset (heap_Push lt h x) = add_mset x (mset h)"
  by (simp add: heap_Push_def heap_up_mset)

lemma heap_Pop_Some:
  assumes "h \<noteq> []"
  obtains h' where "heap_Pop lt h = Some (h ! 0, h')" "mset h = add_mset (h ! 0) (mset h')"
    "h' = butlast (heap_down lt (heap_swap h 0 (length h - 1)) 0 (length h - 1))"
proof -
  let ?n = "length h - 1" and ?d = "heap_down lt (heap_swap h 0 (length h - 1)) 0 (length h - 1)"
  have n: "?n < length h" using assms by (simp add: length_greater_0_conv)
  have len: "length ?d = length h" by (simp add: heap_down_length)
  then have ne: "?d \<noteq> []" using assms by auto
  have "?d ! ?n = h ! 0"
    using heap_down_keeps [of ?n "heap_swap h 0 ?n" lt 0] n assms by (auto simp: heap_swap_nth)
  then have last: "last ?d = h ! 0" using len ne by (simp add: last_conv_nth)
  have "mset ?d = mset h"
    using heap_down_keeps [of ?n "heap_swap h 0 ?n" lt 0] n heap_swap_mset [of 0 h ?n] assms by simp
  moreover have "mset ?d = add_mset (last ?d) (mset (butlast ?d))"
    using ne by (metis append_butlast_last_id mset.simps(2) mset_append union_mset_add_mset_right
        add_mset_add_single mset.simps(1))
  ultimately show ?thesis using that assms last by (simp add: heap_Pop_def Let_def)
qed

section \<open>Order\<close>

text \<open>The heap property of the first \<open>n\<close> elements.\<close>

definition is_heap :: "('a \<Rightarrow> 'a \<Rightarrow> bool) \<Rightarrow> 'a list \<Rightarrow> nat \<Rightarrow> bool" where
  "is_heap lt h n \<longleftrightarrow> (\<forall>k < n. 0 < k \<longrightarrow> \<not> lt (h ! k) (h ! ((k - 1) div 2)))"

lemma is_heap_Nil [simp]: "is_heap lt h 0"
  by (simp add: is_heap_def)

locale heap_order =
  fixes lt :: "'a \<Rightarrow> 'a \<Rightarrow> bool"
  assumes less_asym: "lt a b \<Longrightarrow> \<not> lt b a"
    and not_less_trans: "\<not> lt a b \<Longrightarrow> \<not> lt b c \<Longrightarrow> \<not> lt a c"
begin

text \<open>The loop invariant of \<open>up\<close>: only \<open>j\<close> may precede its parent, and its children do not precede
  its parent.\<close>

definition up_inv :: "'a list \<Rightarrow> nat \<Rightarrow> bool" where
  "up_inv h j \<longleftrightarrow>
     (\<forall>k < length h. 0 < k \<longrightarrow> k \<noteq> j \<longrightarrow> \<not> lt (h ! k) (h ! ((k - 1) div 2))) \<and>
     (\<forall>k < length h. 0 < k \<longrightarrow> (k - 1) div 2 = j \<longrightarrow> 0 < j \<longrightarrow> \<not> lt (h ! k) (h ! ((j - 1) div 2)))"

lemma up_inv_swap:
  assumes inv: "up_inv h j" and j: "0 < j" "j < length h" and l: "lt (h ! j) (h ! ((j - 1) div 2))"
  shows "up_inv (heap_swap h ((j - 1) div 2) j) ((j - 1) div 2)"
proof -
  let ?i = "(j - 1) div 2" and ?h = "heap_swap h ((j - 1) div 2) j"
  have i: "?i < j" using j by linarith
  then have il: "?i < length h" using j by simp
  have nth: "\<And>k. k < length h \<Longrightarrow> ?h ! k = (if k = ?i then h ! j else if k = j then h ! ?i else h ! k)"
    using heap_swap_nth [OF il j(2)] by blast
  have le: "\<not> lt (h ! ?i) (h ! j)" using l less_asym by blast
  have ok: "\<And>k. k < length h \<Longrightarrow> 0 < k \<Longrightarrow> k \<noteq> j \<Longrightarrow> \<not> lt (h ! k) (h ! ((k - 1) div 2))"
    and kids: "\<And>k. k < length h \<Longrightarrow> 0 < k \<Longrightarrow> (k - 1) div 2 = j \<Longrightarrow> \<not> lt (h ! k) (h ! ?i)"
    using inv j by (auto simp: up_inv_def)
  show ?thesis unfolding up_inv_def
  proof (intro conjI allI impI)
    fix k assume k: "k < length ?h" "0 < k" "k \<noteq> ?i"
    let ?p = "(k - 1) div 2"
    have kl: "k < length h" and pk: "?p < k" "?p < length h" using k by auto
    consider "k = j" | "k \<noteq> j" "?p = j" | "k \<noteq> j" "?p = ?i" | "k \<noteq> j" "?p \<noteq> j" "?p \<noteq> ?i" by blast
    then show "\<not> lt (?h ! k) (?h ! ?p)"
    proof cases
      case 1
      then show ?thesis using nth kl pk le i by simp
    next
      case 2
      then show ?thesis using nth kl pk kids [OF kl k(2)] k i by simp
    next
      case 3
      then have "\<not> lt (h ! k) (h ! ?i)" using ok [OF kl k(2)] by simp
      then have "\<not> lt (h ! k) (h ! j)" using le not_less_trans by blast
      then show ?thesis using 3 nth kl pk k by simp
    next
      case 4
      then show ?thesis using nth kl pk ok [OF kl k(2)] k by simp
    qed
  next
    fix k assume k: "k < length ?h" "0 < k" "(k - 1) div 2 = ?i" "0 < ?i"
    then have kl: "k < length h" by simp
    have pp: "\<not> lt (h ! ?i) (h ! ((?i - 1) div 2))" using ok [OF il k(4)] i by simp
    have ppne: "(?i - 1) div 2 \<noteq> ?i" "(?i - 1) div 2 \<noteq> j" "(?i - 1) div 2 < length h" using k(4) i il by linarith+
    have "k \<noteq> ?i" using k(2,3) by linarith
    show "\<not> lt (?h ! k) (?h ! ((?i - 1) div 2))"
    proof (cases "k = j")
      case True
      then show ?thesis using nth kl ppne pp i by simp
    next
      case False
      then have "\<not> lt (h ! k) (h ! ?i)" using ok [OF kl k(2)] k(3) by simp
      then have "\<not> lt (h ! k) (h ! ((?i - 1) div 2))" using pp by (rule not_less_trans)
      then show ?thesis using False \<open>k \<noteq> ?i\<close> nth kl ppne by simp
    qed
  qed
qed

lemma heap_up_is_heap:
  "up_inv h j \<Longrightarrow> j < length h \<Longrightarrow> is_heap lt (heap_up lt h j) (length h)"
proof (induction j arbitrary: h rule: less_induct)
  case (less j)
  let ?i = "(j - 1) div 2"
  show ?case
  proof (cases "?i = j \<or> \<not> lt (h ! j) (h ! ?i)")
    case True
    then have "heap_up lt h j = h" by (subst heap_up.simps) (simp add: Let_def)
    moreover have "?i = j \<Longrightarrow> j = 0" by linarith
    ultimately show ?thesis using True less.prems by (auto simp: up_inv_def is_heap_def)
  next
    case False
    then have "j \<noteq> 0" by auto
    then have "0 < j" "?i < j" by simp_all
    then show ?thesis
      using False less.IH [of ?i "heap_swap h ?i j"] up_inv_swap [OF less.prems(1)] less.prems(2)
      by (subst heap_up.simps) (simp add: Let_def)
  qed
qed

lemma heap_Push_is_heap:
  assumes "is_heap lt h (length h)"
  shows "is_heap lt (heap_Push lt h x) (length (heap_Push lt h x))"
proof -
  have "up_inv (h @ [x]) (length h)"
    unfolding up_inv_def
  proof (intro conjI allI impI)
    fix k assume "k < length (h @ [x])" "0 < k" "k \<noteq> length h"
    then have "k < length h" "0 < k" "(k - 1) div 2 < length h" by auto
    then show "\<not> lt ((h @ [x]) ! k) ((h @ [x]) ! ((k - 1) div 2))"
      using assms by (simp add: nth_append is_heap_def)
  next
    fix k assume "k < length (h @ [x])" "0 < k" "(k - 1) div 2 = length h"
    then have False by auto
    then show "\<not> lt ((h @ [x]) ! k) ((h @ [x]) ! ((length h - 1) div 2))" ..
  qed
  then have "is_heap lt (heap_Push lt h x) (length (h @ [x]))"
    using heap_up_is_heap [of "h @ [x]" "length h"] by (simp add: heap_Push_def)
  then show ?thesis using heap_Push_mset [of lt h x] by (metis size_add_mset size_mset length_append_singleton)
qed

text \<open>The loop invariant of \<open>down\<close>: only the children of \<open>i\<close> may precede their parent, and they do
  not precede the parent of \<open>i\<close>.\<close>

definition down_inv :: "'a list \<Rightarrow> nat \<Rightarrow> nat \<Rightarrow> bool" where
  "down_inv h i n \<longleftrightarrow>
     (\<forall>k < n. 0 < k \<longrightarrow> (k - 1) div 2 \<noteq> i \<longrightarrow> \<not> lt (h ! k) (h ! ((k - 1) div 2))) \<and>
     (\<forall>k < n. 0 < k \<longrightarrow> (k - 1) div 2 = i \<longrightarrow> 0 < i \<longrightarrow> \<not> lt (h ! k) (h ! ((i - 1) div 2)))"

lemma heap_child_least:
  assumes "k < n" "0 < k" "(k - 1) div 2 = i"
  shows "\<not> lt (h ! k) (h ! heap_child lt h i n)"
proof -
  have "k = 2 * i + 1 \<or> k = 2 * i + 2" using assms by linarith
  moreover have irr: "\<not> lt x x" for x using less_asym by blast
  ultimately show ?thesis
    using assms less_asym [of "h ! (2 * i + 2)" "h ! (2 * i + 1)"]
    by (elim disjE) (simp_all add: heap_child_def Let_def)
qed

lemma down_inv_swap:
  assumes inv: "down_inv h i n" and n: "2 * i + 1 < n" "n \<le> length h"
    and l: "lt (h ! heap_child lt h i n) (h ! i)"
  shows "down_inv (heap_swap h i (heap_child lt h i n)) (heap_child lt h i n) n"
proof -
  let ?j = "heap_child lt h i n" and ?h = "heap_swap h i (heap_child lt h i n)"
  have j: "i < ?j" "?j < n" "(?j - 1) div 2 = i" using heap_child_bounds [OF n(1)] by blast+
  have nth: "\<And>k. k < n \<Longrightarrow> ?h ! k = (if k = i then h ! ?j else if k = ?j then h ! i else h ! k)"
    using heap_swap_nth [of i h ?j] n j by simp
  have ok: "\<And>k. k < n \<Longrightarrow> 0 < k \<Longrightarrow> (k - 1) div 2 \<noteq> i \<Longrightarrow> \<not> lt (h ! k) (h ! ((k - 1) div 2))"
    and kids: "\<And>k. k < n \<Longrightarrow> 0 < k \<Longrightarrow> (k - 1) div 2 = i \<Longrightarrow> 0 < i \<Longrightarrow> \<not> lt (h ! k) (h ! ((i - 1) div 2))"
    using inv by (auto simp: down_inv_def)
  have le: "\<not> lt (h ! i) (h ! ?j)" using l less_asym by blast
  show ?thesis unfolding down_inv_def
  proof (intro conjI allI impI)
    fix k assume k: "k < n" "0 < k" "(k - 1) div 2 \<noteq> ?j"
    let ?p = "(k - 1) div 2"
    have p: "?p < k" "?p < n" using k by linarith+
    consider "k = i" | "k = ?j" | "k \<noteq> i" "k \<noteq> ?j" "?p = i" | "k \<noteq> i" "k \<noteq> ?j" "?p \<noteq> i" by blast
    then show "\<not> lt (?h ! k) (?h ! ?p)"
    proof cases
      case 1
      then show ?thesis using nth k p kids [of ?j] j by (simp add: less_imp_neq)
    next
      case 2
      then show ?thesis using nth k p j less_asym [OF l] by simp
    next
      case 3
      then show ?thesis using nth k p heap_child_least [OF k(1,2) 3(3), of h] by simp
    next
      case 4
      then show ?thesis using nth k p ok [OF k(1,2)] by simp
    qed
  next
    fix k assume k: "k < n" "0 < k" "(k - 1) div 2 = ?j" "0 < ?j"
    then have "k \<noteq> i" "k \<noteq> ?j" using j by linarith+
    moreover have "\<not> lt (h ! k) (h ! ?j)" using ok [OF k(1,2)] k(3) j by simp
    ultimately show "\<not> lt (?h ! k) (?h ! ((?j - 1) div 2))"
      using nth k(1) j by simp
  qed
qed

lemma heap_down_is_heap:
  "down_inv h i n \<Longrightarrow> n \<le> length h \<Longrightarrow> is_heap lt (heap_down lt h i n) n"
proof (induction "n - i" arbitrary: h i rule: less_induct)
  case less
  let ?j = "heap_child lt h i n"
  show ?case
  proof (cases "2 * i + 1 < n \<and> lt (h ! ?j) (h ! i)")
    case True
    then have "i < ?j" "?j < n" using heap_child_bounds by blast+
    then have "is_heap lt (heap_down lt (heap_swap h i ?j) ?j n) n"
      using less True down_inv_swap by simp
    then show ?thesis using True by (subst heap_down.simps) (simp add: Let_def)
  next
    case False
    then have eq: "heap_down lt h i n = h" by (subst heap_down.simps) (auto simp: Let_def)
    have "\<not> lt (h ! k) (h ! i)" if k: "k < n" "0 < k" "(k - 1) div 2 = i" for k
    proof -
      have "2 * i + 1 < n" using k by linarith
      then show ?thesis using False heap_child_least [OF k] not_less_trans by blast
    qed
    then show ?thesis using less.prems eq by (auto simp: is_heap_def down_inv_def)
  qed
qed

lemma is_heap_root:
  assumes "is_heap lt h n" "k < n"
  shows "\<not> lt (h ! k) (h ! 0)"
  using assms(2)
proof (induction k rule: less_induct)
  case (less k)
  show ?case
  proof (cases "k = 0")
    case True
    then show ?thesis using less_asym by blast
  next
    case False
    then have "(k - 1) div 2 < k" "\<not> lt (h ! k) (h ! ((k - 1) div 2))"
      using assms(1) less.prems by (auto simp: is_heap_def)
    moreover have "\<not> lt (h ! ((k - 1) div 2)) (h ! 0)"
      using less.IH [of "(k - 1) div 2"] less.prems calculation(1) by simp
    ultimately show ?thesis using not_less_trans by blast
  qed
qed

text \<open>The contract of \<open>Pop\<close>: the heap and its other elements stay, and the element returned is one
  that none of the others precedes.\<close>

lemma heap_Pop_spec:
  assumes "is_heap lt h (length h)" "h \<noteq> []"
  obtains x h' where "heap_Pop lt h = Some (x, h')" "mset h = add_mset x (mset h')"
    "is_heap lt h' (length h')" "\<And>y. y \<in> set h' \<Longrightarrow> \<not> lt y x"
proof -
  let ?n = "length h - 1" and ?s = "heap_swap h 0 (length h - 1)"
  obtain h' where h': "heap_Pop lt h = Some (h ! 0, h')" "mset h = add_mset (h ! 0) (mset h')"
    "h' = butlast (heap_down lt ?s 0 ?n)"
    using heap_Pop_Some [OF assms(2), of lt] by blast
  have n: "?n < length h" using assms(2) by (simp add: length_greater_0_conv)
  have "down_inv ?s 0 ?n"
    unfolding down_inv_def
  proof (intro conjI allI impI)
    fix k assume k: "k < ?n" "0 < k" "(k - 1) div 2 \<noteq> 0"
    then have "?s ! k = h ! k" "?s ! ((k - 1) div 2) = h ! ((k - 1) div 2)"
      using n assms(2) by (simp_all add: heap_swap_nth)
    then show "\<not> lt (?s ! k) (?s ! ((k - 1) div 2))" using assms(1) k n by (simp add: is_heap_def)
  qed simp
  then have "is_heap lt (heap_down lt ?s 0 ?n) ?n" by (rule heap_down_is_heap) simp
  then have "is_heap lt h' (length h')"
    by (auto simp: h'(3) is_heap_def heap_down_length nth_butlast)
  moreover have "\<not> lt y (h ! 0)" if "y \<in> set h'" for y
  proof -
    have "y \<in> set h" using that h'(2) by (metis insert_iff set_mset_add_mset_insert set_mset_mset)
    then show ?thesis using is_heap_root [OF assms(1)] by (metis in_set_conv_nth)
  qed
  ultimately show ?thesis using that h' by blast
qed

end

end
