(* ===== verification/Write_Lock.thy ===== *)
theory Write_Lock
  imports Qmux_Prelude Go_Heap
begin

text \<open>The priority mutex of \<open>write_lock.go\<close>, which serializes records on the transport: its
  waiters, a heap in the order of \<open>Less\<close>, the operations \<open>acquire\<close> and \<open>Unlock\<close>, and the step relation
  of any number of goroutines that call \<open>LockPriority\<close> and \<open>Unlock\<close>. A channel is named by a number
  that is fresh when it is made; a call to \<open>LockPriority\<close> that waits is named by its channel.\<close>

section \<open>State and operations\<close>

type_synonym StreamID = u64

definition urgencyControl :: int where
  "urgencyControl = -1"

definition defaultUrgency :: int where
  "defaultUrgency = 3"

definition maxUrgency :: int where
  "maxUrgency = 7"

record priority =
  urgency :: int
  incremental :: bool
  streamID :: StreamID

record lockWaiter =
  w_priority :: priority
  order :: u64
  ready :: nat

record writeLock =
  held :: bool
  arrivals :: u64
  waiters :: "lockWaiter list"

definition new_writeLock :: writeLock where
  "new_writeLock = \<lparr>held = False, arrivals = 0, waiters = []\<rparr>"

definition waiter_Less :: "lockWaiter \<Rightarrow> lockWaiter \<Rightarrow> bool" where
  "waiter_Less a b =
     (if urgency (w_priority a) \<noteq> urgency (w_priority b)
      then urgency (w_priority a) < urgency (w_priority b)
      else if incremental (w_priority a) \<noteq> incremental (w_priority b)
      then \<not> incremental (w_priority a)
      else order a < order b)"

text \<open>\<open>acquire\<close> returns nil (\<open>None\<close>) where the lock was free, and the channel of the new waiter
  otherwise. \<open>ch\<close> is the channel that \<open>make\<close> returns.\<close>

definition acquire :: "nat \<Rightarrow> priority \<Rightarrow> writeLock \<Rightarrow> nat option \<times> writeLock" where
  "acquire ch p l =
     (if \<not> held l then (None, l\<lparr>held := True\<rparr>)
      else let w = \<lparr>w_priority = p, order = streamID p, ready = ch\<rparr>;
               (w, l) = (if incremental p
                         then let l = l\<lparr>arrivals := arrivals l + 1\<rparr> in (w\<lparr>order := arrivals l\<rparr>, l)
                         else (w, l))
           in (Some (ready w), l\<lparr>waiters := heap_Push waiter_Less (waiters l) w\<rparr>))"

definition control_priority :: priority where
  "control_priority = \<lparr>urgency = urgencyControl, incremental = True, streamID = 0\<rparr>"

text \<open>\<open>Unlock\<close> returns the channel it closes, if any.\<close>

definition Unlock :: "writeLock \<Rightarrow> nat option \<times> writeLock" where
  "Unlock l =
     (case heap_Pop waiter_Less (waiters l) of
        None \<Rightarrow> (None, l\<lparr>held := False\<rparr>)
      | Some (w, h) \<Rightarrow> (Some (ready w), l\<lparr>waiters := h\<rparr>))"

text \<open>Goroutines at the lock. \<open>inside\<close> holds the calls to \<open>LockPriority\<close> that have returned and whose
  \<open>Unlock\<close> is yet to come, \<open>blocked\<close> the calls that receive from their channel, \<open>closed\<close> the channels
  that have been closed.\<close>

record lock_system =
  lk :: writeLock
  inside :: "nat set"
  blocked :: "nat set"
  closed :: "nat set"
  fresh :: nat

definition lock_init :: lock_system where
  "lock_init = \<lparr>lk = new_writeLock, inside = {}, blocked = {}, closed = {}, fresh = 0\<rparr>"

inductive lock_step :: "lock_system \<Rightarrow> lock_system \<Rightarrow> bool" where
  take_free: "acquire (fresh s) p (lk s) = (None, l) \<Longrightarrow>
    lock_step s (s\<lparr>lk := l, inside := insert (fresh s) (inside s), fresh := Suc (fresh s)\<rparr>)"
| take_wait: "acquire (fresh s) p (lk s) = (Some ch, l) \<Longrightarrow>
    lock_step s (s\<lparr>lk := l, blocked := insert ch (blocked s), fresh := Suc (fresh s)\<rparr>)"
| wake: "t \<in> blocked s \<Longrightarrow> t \<in> closed s \<Longrightarrow>
    lock_step s (s\<lparr>blocked := blocked s - {t}, inside := insert t (inside s)\<rparr>)"
| unlock: "t \<in> inside s \<Longrightarrow> Unlock (lk s) = (c, l) \<Longrightarrow>
    lock_step s (s\<lparr>lk := l, inside := inside s - {t}, closed := closed s \<union> set_option c\<rparr>)"

inductive lock_reachable :: "lock_system \<Rightarrow> bool" where
  lock_start: "lock_reachable lock_init"
| lock_next: "lock_reachable s \<Longrightarrow> lock_step s s' \<Longrightarrow> lock_reachable s'"

section \<open>The order of the waiters\<close>

lemma waiter_Less_asym: "waiter_Less a b \<Longrightarrow> \<not> waiter_Less b a"
  by (auto simp: waiter_Less_def split: if_splits)

lemma waiter_Less_trans: "\<not> waiter_Less a b \<Longrightarrow> \<not> waiter_Less b c \<Longrightarrow> \<not> waiter_Less a c"
  by (auto simp: waiter_Less_def split: if_splits)

interpretation wh: heap_order waiter_Less
  by unfold_locales (fact waiter_Less_asym, fact waiter_Less_trans)

lemma acquire_free: "\<not> held l \<Longrightarrow> acquire ch p l = (None, l\<lparr>held := True\<rparr>)"
  by (simp add: acquire_def)

text \<open>The waiter that \<open>acquire\<close> queues, and the lock behind it.\<close>

definition new_waiter :: "nat \<Rightarrow> priority \<Rightarrow> writeLock \<Rightarrow> lockWaiter" where
  "new_waiter ch p l =
     \<lparr>w_priority = p, order = (if incremental p then arrivals l + 1 else streamID p), ready = ch\<rparr>"

lemma acquire_held:
  "held l \<Longrightarrow> acquire ch p l = (Some ch, l
     \<lparr>arrivals := arrivals l + (if incremental p then 1 else 0),
      waiters := heap_Push waiter_Less (waiters l) (new_waiter ch p l)\<rparr>)"
  by (simp add: acquire_def new_waiter_def Let_def)

lemma Unlock_empty: "waiters l = [] \<Longrightarrow> Unlock l = (None, l\<lparr>held := False\<rparr>)"
  by (simp add: Unlock_def heap_Pop_def)

lemma Unlock_waiter:
  assumes "is_heap waiter_Less (waiters l) (length (waiters l))" "waiters l \<noteq> []"
  obtains w l' where "Unlock l = (Some (ready w), l')" "held l' = held l" "arrivals l' = arrivals l"
    "mset (waiters l) = add_mset w (mset (waiters l'))"
    "is_heap waiter_Less (waiters l') (length (waiters l'))"
    "\<And>v. v \<in> set (waiters l') \<Longrightarrow> \<not> waiter_Less v w"
proof -
  obtain w h where "heap_Pop waiter_Less (waiters l) = Some (w, h)"
    "mset (waiters l) = add_mset w (mset h)" "is_heap waiter_Less h (length h)"
    "\<And>y. y \<in> set h \<Longrightarrow> \<not> waiter_Less y w"
    using wh.heap_Pop_spec [OF assms] by blast
  then show ?thesis using that by (simp add: Unlock_def)
qed

section \<open>Invariant\<close>

text \<open>The order of arrival: while the counter \<open>arrivals\<close> has not wrapped, an incremental waiter whose
  channel was made first has the smaller \<open>order\<close>.\<close>

definition arrival_order :: "nat \<Rightarrow> u64 \<Rightarrow> lockWaiter set \<Rightarrow> bool" where
  "arrival_order n a W \<longleftrightarrow>
     unat a \<le> n \<and> (\<forall>w \<in> W. incremental (w_priority w) \<longrightarrow> order w \<le> a) \<and>
     (\<forall>v \<in> W. \<forall>w \<in> W. incremental (w_priority v) \<longrightarrow> incremental (w_priority w) \<longrightarrow>
        ready v < ready w \<longrightarrow> order v < order w)"

text \<open>The lock's own invariant: a heap, empty while the lock is free, with a channel per waiter.\<close>

definition lock_ok :: "nat \<Rightarrow> writeLock \<Rightarrow> bool" where
  "lock_ok n l \<longleftrightarrow>
     is_heap waiter_Less (waiters l) (length (waiters l)) \<and>
     (\<not> held l \<longrightarrow> waiters l = []) \<and>
     distinct (map ready (waiters l)) \<and> (\<forall>w \<in> set (waiters l). ready w < n) \<and>
     (\<forall>w \<in> set (waiters l). \<not> incremental (w_priority w) \<longrightarrow> order w = streamID (w_priority w)) \<and>
     (n < 2 ^ 64 \<longrightarrow> arrival_order n (arrivals l) (set (waiters l)))"

definition lock_inv :: "lock_system \<Rightarrow> bool" where
  "lock_inv s \<longleftrightarrow>
     lock_ok (fresh s) (lk s) \<and>
     blocked s - closed s = ready ` set (waiters (lk s)) \<and>
     (if held (lk s)
      then \<exists>t. inside s \<union> (blocked s \<inter> closed s) = {t} \<and> inside s \<inter> (blocked s \<inter> closed s) = {}
      else inside s \<union> (blocked s \<inter> closed s) = {}) \<and>
     (\<forall>t \<in> inside s \<union> blocked s \<union> closed s. t < fresh s)"

lemma waiters_mset_set: "mset xs = add_mset x (mset ys) \<Longrightarrow> set xs = insert x (set ys)"
  by (metis set_mset_add_mset_insert set_mset_mset)

lemma waiters_mset_distinct:
  "mset xs = add_mset x (mset ys) \<Longrightarrow> distinct (map f xs) \<longleftrightarrow> f x \<notin> f ` set ys \<and> distinct (map f ys)"
proof -
  assume "mset xs = add_mset x (mset ys)"
  then have "mset (map f xs) = mset (map f (x # ys))" by simp
  then have "distinct (map f xs) = distinct (map f (x # ys))" by (rule mset_eq_imp_distinct_iff)
  then show ?thesis by simp
qed

lemma arrival_order_subset: "arrival_order n a W \<Longrightarrow> V \<subseteq> W \<Longrightarrow> arrival_order n a V"
  unfolding arrival_order_def by blast

lemma lock_ok_free: "lock_ok n l \<Longrightarrow> \<not> held l \<Longrightarrow> lock_ok (Suc n) (l\<lparr>held := b\<rparr>)"
  by (auto simp: lock_ok_def arrival_order_def)

text \<open>A new waiter arrives last.\<close>

lemma arrival_order_new:
  assumes "arrival_order n (arrivals l) W" "\<forall>w \<in> W. ready w < n" "Suc n < 2 ^ 64"
  shows "arrival_order (Suc n) (arrivals l + (if incremental p then 1 else 0)) (insert (new_waiter n p l) W)"
proof (cases "incremental p")
  case True
  have "unat (arrivals l) \<le> n" using assms(1) by (simp add: arrival_order_def)
  then have a: "unat (arrivals l + 1) = Suc (unat (arrivals l))" using assms(3) by (simp add: unat_add_u64)
  then have lt: "\<And>x. x \<le> arrivals l \<Longrightarrow> x < arrivals l + 1 \<and> x \<le> arrivals l + 1"
    by (simp add: word_less_nat_alt word_le_nat_alt)
  have nw: "order (new_waiter n p l) = arrivals l + 1" "ready (new_waiter n p l) = n"
    using True by (simp_all add: new_waiter_def)
  show ?thesis unfolding arrival_order_def
  proof (intro conjI ballI impI)
    show "unat (arrivals l + (if incremental p then 1 else 0)) \<le> Suc n"
      using True a \<open>unat (arrivals l) \<le> n\<close> by simp
  next
    fix w assume "w \<in> insert (new_waiter n p l) W" "incremental (w_priority w)"
    then show "order w \<le> arrivals l + (if incremental p then 1 else 0)"
      using assms(1) nw lt True by (auto simp: arrival_order_def)
  next
    fix v w assume "v \<in> insert (new_waiter n p l) W" "w \<in> insert (new_waiter n p l) W"
      "incremental (w_priority v)" "incremental (w_priority w)" "ready v < ready w"
    then show "order v < order w"
      using assms(1,2) nw lt by (auto simp: arrival_order_def)
  qed
next
  case False
  then show ?thesis using assms by (auto simp: arrival_order_def new_waiter_def)
qed

lemma lock_ok_acquire:
  assumes "lock_ok n l" "held l" "acquire n p l = (c, l')"
  shows "lock_ok (Suc n) l' \<and> c = Some n \<and> held l' \<and>
    set (waiters l') = insert (new_waiter n p l) (set (waiters l))"
proof -
  have l': "c = Some n" "held l'" "arrivals l' = arrivals l + (if incremental p then 1 else 0)"
    "waiters l' = heap_Push waiter_Less (waiters l) (new_waiter n p l)"
    using assms(2,3) by (auto simp: acquire_held [OF assms(2)])
  have m: "mset (waiters l') = add_mset (new_waiter n p l) (mset (waiters l))"
    by (simp add: l'(4) heap_Push_mset)
  note s = waiters_mset_set [OF m] and d = waiters_mset_distinct [OF m, of ready]
  have r: "ready (new_waiter n p l) = n" by (simp add: new_waiter_def)
  have "is_heap waiter_Less (waiters l') (length (waiters l'))"
    unfolding l'(4) using assms(1) by (intro wh.heap_Push_is_heap) (simp add: lock_ok_def)
  moreover have "distinct (map ready (waiters l')) \<and> (\<forall>w \<in> set (waiters l'). ready w < Suc n)"
    using assms(1) s d r by (auto simp: lock_ok_def)
  moreover have "\<forall>w \<in> set (waiters l'). \<not> incremental (w_priority w) \<longrightarrow> order w = streamID (w_priority w)"
    using assms(1) s by (auto simp: lock_ok_def new_waiter_def)
  moreover have "arrival_order (Suc n) (arrivals l') (set (waiters l'))" if "Suc n < 2 ^ 64"
    unfolding s l'(3) using that assms(1) by (intro arrival_order_new) (auto simp: lock_ok_def)
  ultimately show ?thesis using l'(1,2) s unfolding lock_ok_def by blast
qed

lemma lock_ok_Unlock:
  assumes "lock_ok n l" "waiters l \<noteq> []"
  obtains w l' where "Unlock l = (Some (ready w), l')" "held l' = held l" "lock_ok n l'"
    "set (waiters l) = insert w (set (waiters l'))" "ready w \<notin> ready ` set (waiters l')"
    "\<And>v. v \<in> set (waiters l') \<Longrightarrow> \<not> waiter_Less v w"
proof -
  have h: "is_heap waiter_Less (waiters l) (length (waiters l))" and hd: "held l"
    using assms by (auto simp: lock_ok_def)
  obtain w l' where w: "Unlock l = (Some (ready w), l')" "held l' = held l" "arrivals l' = arrivals l"
    "mset (waiters l) = add_mset w (mset (waiters l'))"
    "is_heap waiter_Less (waiters l') (length (waiters l'))"
    "\<And>v. v \<in> set (waiters l') \<Longrightarrow> \<not> waiter_Less v w"
    using Unlock_waiter [OF h assms(2)] by blast
  have s: "set (waiters l) = insert w (set (waiters l'))" using w(4) by (rule waiters_mset_set)
  have d: "ready w \<notin> ready ` set (waiters l')" "distinct (map ready (waiters l'))"
    using waiters_mset_distinct [OF w(4), of ready] assms(1) by (auto simp: lock_ok_def)
  have "lock_ok n l'"
    using assms(1) w(2,3,5) s d(2) hd arrival_order_subset [of n "arrivals l" "set (waiters l)" "set (waiters l')"]
    by (auto simp: lock_ok_def)
  then show ?thesis using that w s d by blast
qed

lemma lock_inv_inside:
  assumes "lock_inv s" "t \<in> inside s"
  shows "held (lk s)" "inside s = {t}" "blocked s \<inter> closed s = {}"
proof -
  show hd: "held (lk s)" using assms by (auto simp: lock_inv_def split: if_splits)
  obtain u where u: "inside s \<union> (blocked s \<inter> closed s) = {u}" "inside s \<inter> (blocked s \<inter> closed s) = {}"
    using assms(1) hd by (auto simp: lock_inv_def)
  then have "t = u" using assms(2) by auto
  then show "inside s = {t}" "blocked s \<inter> closed s = {}" using u assms(2) by auto
qed

lemma lock_inv_step:
  assumes "lock_inv s" "lock_step s s'"
  shows "lock_inv s'"
  using assms(2)
proof cases
  case (take_free p l)
  then have nh: "\<not> held (lk s)" by (auto simp: acquire_held)
  then have "l = lk s\<lparr>held := True\<rparr>" using take_free(2) by (simp add: acquire_free)
  then show ?thesis
    using take_free(1) assms(1) nh lock_ok_free [of "fresh s" "lk s" True]
    by (auto simp: lock_inv_def less_Suc_eq)
next
  case (take_wait p ch l)
  have hd: "held (lk s)" using take_wait(2) by (auto simp: acquire_def split: if_splits)
  have ok: "lock_ok (Suc (fresh s)) l" "ch = fresh s" "held l"
    "set (waiters l) = insert (new_waiter (fresh s) p (lk s)) (set (waiters (lk s)))"
    using lock_ok_acquire [OF _ hd take_wait(2)] assms(1) by (auto simp: lock_inv_def)
  have nc: "fresh s \<notin> closed s" "fresh s \<notin> blocked s" using assms(1) by (auto simp: lock_inv_def)
  then have "insert ch (blocked s) \<inter> closed s = blocked s \<inter> closed s"
    "insert ch (blocked s) - closed s = insert ch (blocked s - closed s)"
    using ok(2) by auto
  then show ?thesis
    using take_wait(1) assms(1) hd ok
    by (auto simp: lock_inv_def new_waiter_def less_Suc_eq)
next
  case (wake t)
  have hd: "held (lk s)" using assms(1) wake by (auto simp: lock_inv_def split: if_splits)
  have "blocked s - {t} - closed s = blocked s - closed s" using wake by auto
  moreover obtain u where u: "inside s \<union> (blocked s \<inter> closed s) = {u}" "inside s \<inter> (blocked s \<inter> closed s) = {}"
    using assms(1) hd by (auto simp: lock_inv_def)
  have t: "t \<in> blocked s \<inter> closed s" using wake by simp
  then have "t = u" using u(1) by auto
  then have "(blocked s - {t}) \<inter> closed s = {}" "inside s = {}" using u t by auto
  ultimately show ?thesis using assms(1) wake hd by (auto simp: lock_inv_def)
next
  case (unlock t c l)
  note i = lock_inv_inside [OF assms(1) unlock(2)]
  show ?thesis
  proof (cases "waiters (lk s) = []")
    case True
    then have "c = None" "l = lk s\<lparr>held := False\<rparr>" using unlock Unlock_empty by auto
    then show ?thesis using unlock(1) assms(1) i True by (auto simp: lock_inv_def lock_ok_def)
  next
    case False
    obtain w l' where w: "Unlock (lk s) = (Some (ready w), l')" "held l' = held (lk s)" "lock_ok (fresh s) l'"
      "set (waiters (lk s)) = insert w (set (waiters l'))" "ready w \<notin> ready ` set (waiters l')"
      using lock_ok_Unlock [OF _ False, of "fresh s"] assms(1) unfolding lock_inv_def by metis
    have b: "blocked s - closed s = insert (ready w) (ready ` set (waiters l'))"
      using assms(1) w(4) by (simp add: lock_inv_def)
    have wb: "ready w \<in> blocked s" using b by blast
    have "blocked s - insert (ready w) (closed s) = (blocked s - closed s) - {ready w}" by blast
    also have "\<dots> = ready ` set (waiters l')" using w(5) by (simp add: b)
    finally have "blocked s - insert (ready w) (closed s) = ready ` set (waiters l')" .
    moreover have "blocked s \<inter> insert (ready w) (closed s) = {ready w}" using i(3) wb by blast
    moreover have "ready w < fresh s" using assms(1) wb by (simp add: lock_inv_def)
    moreover have "c = Some (ready w)" "l = l'" using unlock(3) w(1) by simp_all
    ultimately show ?thesis
      unfolding lock_inv_def using unlock(1) w(2,3) assms(1) i by (simp add: lock_inv_def)
  qed
qed

lemma lock_reachable_inv: "lock_reachable s \<Longrightarrow> lock_inv s"
proof (induction rule: lock_reachable.induct)
  case lock_start
  show ?case by (simp add: lock_inv_def lock_init_def new_writeLock_def lock_ok_def arrival_order_def)
next
  case (lock_next s s')
  then show ?case using lock_inv_step by blast
qed


section \<open>Properties\<close>

text \<open>A concrete run for the witnesses: a control writer holds the lock, a stream of urgency 5 and
  then a stream of urgency 3 wait.\<close>

definition stream_priority :: "int \<Rightarrow> StreamID \<Rightarrow> priority" where
  "stream_priority u i = \<lparr>urgency = u, incremental = True, streamID = i\<rparr>"

definition lock_example :: lock_system where
  "lock_example =
     \<lparr>lk = snd (acquire 2 (stream_priority 3 8) (snd (acquire 1 (stream_priority 5 4)
             (snd (acquire 0 control_priority new_writeLock))))),
      inside = {0}, blocked = {2, 1}, closed = {}, fresh = 3\<rparr>"

lemma lock_example_reachable: "lock_reachable lock_example"
proof -
  define l1 where "l1 = snd (acquire 0 control_priority new_writeLock)"
  define l2 where "l2 = snd (acquire 1 (stream_priority 5 4) l1)"
  define l3 where "l3 = snd (acquire 2 (stream_priority 3 8) l2)"
  have l1: "acquire 0 control_priority new_writeLock = (None, l1)" "held l1"
    by (simp_all add: l1_def acquire_free new_writeLock_def)
  have l2: "acquire 1 (stream_priority 5 4) l1 = (Some 1, l2)" "held l2"
    using l1(2) by (simp_all add: l2_def acquire_held)
  have l3: "acquire 2 (stream_priority 3 8) l2 = (Some 2, l3)"
    using l2(2) by (simp add: l3_def acquire_held)
  have ex: "lock_example = \<lparr>lk = l3, inside = {0}, blocked = {2, 1}, closed = {}, fresh = 3\<rparr>"
    by (simp only: lock_example_def l1_def l2_def l3_def)
  have "lock_step lock_init \<lparr>lk = l1, inside = {0}, blocked = {}, closed = {}, fresh = 1\<rparr>"
    using take_free [of lock_init control_priority l1] l1(1) by (simp add: lock_init_def)
  moreover have "lock_step \<lparr>lk = l1, inside = {0}, blocked = {}, closed = {}, fresh = 1\<rparr>
      \<lparr>lk = l2, inside = {0}, blocked = {1}, closed = {}, fresh = 2\<rparr>"
    using take_wait [of "\<lparr>lk = l1, inside = {0}, blocked = {}, closed = {}, fresh = 1\<rparr>"
        "stream_priority 5 4" 1 l2] l2(1) by (simp add: numeral_2_eq_2)
  moreover have "lock_step \<lparr>lk = l2, inside = {0}, blocked = {1}, closed = {}, fresh = 2\<rparr> lock_example"
    using take_wait [of "\<lparr>lk = l2, inside = {0}, blocked = {1}, closed = {}, fresh = 2\<rparr>"
        "stream_priority 3 8" 2 l3] l3 by (simp add: ex)
  ultimately show ?thesis using lock_reachable.intros by meson
qed

text \<open>C7. Mutual exclusion of the write lock, and no lost hand-over: at most one call to \<open>LockPriority\<close>
  has returned without its \<open>Unlock\<close>, and whenever a call waits while no call is inside, the channel of
  some waiting call has been closed, so that it can go on.\<close>

theorem lock_mutual_exclusion:
  assumes "lock_reachable s"
  shows "(\<forall>t u. t \<in> inside s \<longrightarrow> u \<in> inside s \<longrightarrow> t = u) \<and>
    (blocked s \<noteq> {} \<longrightarrow> inside s = {} \<longrightarrow> (\<exists>t. t \<in> blocked s \<and> t \<in> closed s))"
proof (intro conjI impI)
  have inv: "lock_inv s" using assms by (rule lock_reachable_inv)
  then show "\<forall>t u. t \<in> inside s \<longrightarrow> u \<in> inside s \<longrightarrow> t = u"
    using lock_inv_inside(2) by fastforce
  assume b: "blocked s \<noteq> {}" "inside s = {}"
  show "\<exists>t. t \<in> blocked s \<and> t \<in> closed s"
  proof (cases "held (lk s)")
    case True
    then show ?thesis using inv b by (auto simp: lock_inv_def)
  next
    case False
    then have "blocked s - closed s = {}" using inv by (simp add: lock_inv_def lock_ok_def)
    then show ?thesis using b by blast
  qed
qed

theorem lock_mutual_exclusion_witness:
  "lock_reachable lock_example \<and> 0 \<in> inside lock_example \<and> 1 \<notin> inside lock_example \<and>
   2 \<notin> inside lock_example \<and> blocked lock_example = {2, 1}"
proof -
  have "0 \<in> inside lock_example" by (simp add: lock_example_def)
  moreover have "1 \<notin> inside lock_example" "2 \<notin> inside lock_example"
    using lock_mutual_exclusion [OF lock_example_reachable] calculation by (metis one_neq_zero, metis zero_neq_numeral)
  ultimately show ?thesis using lock_example_reachable by (simp add: lock_example_def)
qed

text \<open>C8. \<open>Unlock\<close> serves the waiters in the order of RFC 9218. It hands the lock to a waiter of the
  least urgency value; among those, writers that are not incremental go first, in the order of their
  stream ID, and incremental ones take turns in the order in which they called \<open>LockPriority\<close> (as long
  as fewer than \<open>2 ^ 64\<close> calls were made).\<close>

theorem Unlock_serves_first:
  assumes "lock_reachable s" "fresh s < 2 ^ 64" "waiters (lk s) \<noteq> []"
  shows "\<exists>w l. Unlock (lk s) = (Some (ready w), l) \<and> w \<in> set (waiters (lk s)) \<and>
    (\<forall>v \<in> set (waiters (lk s)). v \<noteq> w \<longrightarrow>
       urgency (w_priority w) < urgency (w_priority v) \<or>
       urgency (w_priority w) = urgency (w_priority v) \<and>
       (if incremental (w_priority w) then incremental (w_priority v) \<and> ready w < ready v
        else incremental (w_priority v) \<or> streamID (w_priority w) \<le> streamID (w_priority v)))"
proof -
  have ok: "lock_ok (fresh s) (lk s)" using lock_reachable_inv [OF assms(1)] by (simp add: lock_inv_def)
  obtain w l' where w: "Unlock (lk s) = (Some (ready w), l')"
    "set (waiters (lk s)) = insert w (set (waiters l'))" "ready w \<notin> ready ` set (waiters l')"
    "\<And>v. v \<in> set (waiters l') \<Longrightarrow> \<not> waiter_Less v w"
    using lock_ok_Unlock [OF ok assms(3)] by metis
  have "urgency (w_priority w) < urgency (w_priority v) \<or>
       urgency (w_priority w) = urgency (w_priority v) \<and>
       (if incremental (w_priority w) then incremental (w_priority v) \<and> ready w < ready v
        else incremental (w_priority v) \<or> streamID (w_priority w) \<le> streamID (w_priority v))"
    if v: "v \<in> set (waiters (lk s))" "v \<noteq> w" for v
  proof -
    have le: "\<not> waiter_Less v w" and ne: "ready v \<noteq> ready w" using w(2-4) v by (auto simp: image_iff)
    have arr: "incremental (w_priority v) \<Longrightarrow> incremental (w_priority w) \<Longrightarrow> ready v < ready w \<Longrightarrow> order v < order w"
      using ok assms(2) v(1) w(2) unfolding lock_ok_def arrival_order_def by blast
    have sid: "\<not> incremental (w_priority v) \<Longrightarrow> order v = streamID (w_priority v)"
      "\<not> incremental (w_priority w) \<Longrightarrow> order w = streamID (w_priority w)"
      using ok v(1) w(2) by (auto simp: lock_ok_def)
    show ?thesis
      using le ne arr sid by (cases "ready v < ready w") (auto simp: waiter_Less_def not_less split: if_splits)
  qed
  then show ?thesis using w(1,2) by blast
qed

theorem Unlock_serves_first_witness:
  "lock_reachable lock_example \<and> map ready (waiters (lk lock_example)) = [2, 1] \<and>
   fst (Unlock (lk lock_example)) = Some 2"
proof -
  have w: "waiters (lk lock_example) =
      [\<lparr>w_priority = stream_priority 3 8, order = 2, ready = 2\<rparr>,
       \<lparr>w_priority = stream_priority 5 4, order = 1, ready = 1\<rparr>]"
    by (simp add: lock_example_def new_writeLock_def acquire_def Let_def stream_priority_def
        heap_Push_def heap_up.simps heap_swap_def waiter_Less_def)
  have "fresh lock_example < 2 ^ 64" "waiters (lk lock_example) \<noteq> []"
    by (simp add: lock_example_def, simp add: w)
  from Unlock_serves_first [OF lock_example_reachable this]
  have "fst (Unlock (lk lock_example)) = Some 2"
    by (auto simp: w stream_priority_def)
  then show ?thesis by (simp add: lock_example_reachable w)
qed

end
