(* ===== verification/Varint_Codec.thy ===== *)
theory Varint_Codec
  imports Qmux_Prelude
begin

text \<open>
  The interface to \<^verbatim>\<open>github.com/quic-go/quic-go/quicvarint\<close>, the third-party codec of QUIC's
  variable-length integers. Its code is not part of the repository, so it is a parameter: a
  record of the functions the repository calls, with the documented behaviour it relies on as
  the laws of the locale \<open>quicvarint\<close>. Every definition that calls the package takes the
  record as its first argument.

  \<open>rfc9000\<close> is the encoding of RFC 9000, Section 16, written out as such a record; the
  interpretation at the end shows that it satisfies the laws.
\<close>

section \<open>The functions of the package\<close>

text \<open>What a read from a transport can fail with: \<open>io.EOF\<close>, \<open>io.ErrUnexpectedEOF\<close>, \<open>io.ErrNoProgress\<close>, or an error
  of the transport's own, which the code passes on without looking at it.\<close>

datatype io_error = EOF | ErrUnexpectedEOF | ErrNoProgress | IOError nat

text \<open>
  \<^item> \<open>vmax\<close>: the constant \<open>quicvarint.Max\<close>;
  \<^item> \<open>vappend i\<close>: the bytes that \<open>quicvarint.Append(b, i)\<close> puts after \<open>b\<close>; \<open>None\<close> is its
    panic;
  \<^item> \<open>vlen i\<close>: \<open>quicvarint.Len(i)\<close>;
  \<^item> \<open>vparse b\<close>: \<open>quicvarint.Parse(b)\<close>, the value and the number of bytes it takes, \<open>None\<close> for
    an error;
  \<^item> \<open>vread b e\<close>: \<open>quicvarint.Read(r)\<close> on a reader that yields the bytes \<open>b\<close> and then fails
    with \<open>e\<close>: the error, or the value and the number of bytes consumed.
\<close>

record codec =
  vmax :: u64
  vappend :: "u64 \<Rightarrow> bytes option"
  vlen :: "u64 \<Rightarrow> nat"
  vparse :: "bytes \<Rightarrow> (u64 \<times> nat) option"
  vread :: "bytes \<Rightarrow> io_error \<Rightarrow> io_error + u64 \<times> nat"

section \<open>RFC 9000, Section 16\<close>

text \<open>Big-endian encoding of a number in \<open>n\<close> bytes, and its value.\<close>

primrec be_bytes :: "nat \<Rightarrow> nat \<Rightarrow> bytes" where
  "be_bytes 0 v = []"
| "be_bytes (Suc n) v = of_nat (v div 256 ^ n) # be_bytes n (v mod 256 ^ n)"

primrec be_value :: "bytes \<Rightarrow> nat" where
  "be_value [] = 0"
| "be_value (x # xs) = unat x * 256 ^ length xs + be_value xs"

text \<open>The two most significant bits of the first byte are the base 2 logarithm of the length.\<close>

definition rfc_len :: "u64 \<Rightarrow> nat" where
  "rfc_len i = (if i < 2 ^ 6 then 1 else if i < 2 ^ 14 then 2 else if i < 2 ^ 30 then 4 else 8)"

definition rfc_append :: "u64 \<Rightarrow> bytes option" where
  "rfc_append i =
     (if i < 2 ^ 6 then Some (be_bytes 1 (unat i))
      else if i < 2 ^ 14 then Some (be_bytes 2 (unat i + 1 * 2 ^ 14))
      else if i < 2 ^ 30 then Some (be_bytes 4 (unat i + 2 * 2 ^ 30))
      else if i < 2 ^ 62 then Some (be_bytes 8 (unat i + 3 * 2 ^ 62))
      else None)"

definition rfc_parse :: "bytes \<Rightarrow> (u64 \<times> nat) option" where
  "rfc_parse b =
     (case b of [] \<Rightarrow> None
      | x # _ \<Rightarrow>
        let n = 2 ^ (unat x div 64)
        in if length b < n then None
           else Some (of_nat (be_value (take n b) mod 2 ^ (8 * n - 2)), n))"

definition rfc_read :: "bytes \<Rightarrow> io_error \<Rightarrow> io_error + u64 \<times> nat" where
  "rfc_read b e = (case rfc_parse b of None \<Rightarrow> Inl e | Some r \<Rightarrow> Inr r)"

definition rfc9000 :: codec where
  "rfc9000 = \<lparr>vmax = 2 ^ 62 - 1, vappend = rfc_append, vlen = rfc_len,
              vparse = rfc_parse, vread = rfc_read\<rparr>"

section \<open>The laws\<close>

locale quicvarint =
  fixes q :: codec
  assumes max_value: "vmax q = 2 ^ 62 - 1"
    and append_fits: "i \<le> vmax q \<Longrightarrow> \<exists>bs. vappend q i = Some bs \<and> length bs = vlen q i"
    and append_large: "vmax q < i \<Longrightarrow> vappend q i = None"
    and append_small: "i < 64 \<Longrightarrow> vappend q i = Some [ucast i]"
    and len_table: "i \<le> vmax q \<Longrightarrow>
      vlen q i = (if i < 2 ^ 6 then 1 else if i < 2 ^ 14 then 2 else if i < 2 ^ 30 then 4 else 8)"
    and parse_append: "vappend q i = Some bs \<Longrightarrow> vparse q (bs @ rest) = Some (i, length bs)"
    and parse_bounds: "vparse q b = Some (v, n) \<Longrightarrow> v \<le> vmax q \<and> 0 < n \<and> n \<le> length b"
    and read_append: "vappend q i = Some bs \<Longrightarrow> vread q (bs @ rest) e = Inr (i, length bs)"
    and read_bounds: "vread q b e = Inr (v, n) \<Longrightarrow> v \<le> vmax q \<and> 0 < n \<and> n \<le> length b"
begin

lemma vmax_nat: "unat (vmax q) = 2 ^ 62 - 1"
  by (simp add: max_value)

lemma fits_iff: "i \<le> vmax q \<longleftrightarrow> unat i < 2 ^ 62"
  by (auto simp: word_le_nat_alt vmax_nat)

lemma size_fits: "length p < 2 ^ 62 \<Longrightarrow> u64_len p \<le> vmax q \<and> unat (u64_len p) = length p"
  by (simp add: fits_iff u64_len_def unat_of_nat_u64)

lemma append_Some_iff: "(\<exists>bs. vappend q i = Some bs) \<longleftrightarrow> i \<le> vmax q"
  using append_fits [of i] append_large [of i] by (cases "i \<le> vmax q") auto

lemma append_SomeD: "vappend q i = Some bs \<Longrightarrow> i \<le> vmax q \<and> length bs = vlen q i"
  using append_fits [of i] append_Some_iff [of i] by auto

lemma vlen_bounds: "i \<le> vmax q \<Longrightarrow> 1 \<le> vlen q i \<and> vlen q i \<le> 8"
  by (simp add: len_table)

lemma append_length: "vappend q i = Some bs \<Longrightarrow> 1 \<le> length bs \<and> length bs \<le> 8"
  using append_SomeD [of i bs] vlen_bounds [of i] by auto

lemma vlen_mono: "i \<le> j \<Longrightarrow> j \<le> vmax q \<Longrightarrow> vlen q i \<le> vlen q j"
  by (auto simp: len_table word_le_nat_alt word_less_nat_alt)

lemma parse_Nil [simp]: "vparse q [] = None"
  using parse_bounds [of "[]"] by (cases "vparse q []") auto

lemma parse_small: "x < 64 \<Longrightarrow> vparse q (x # rest) = Some (ucast x, 1)"
proof -
  assume x: "x < 64"
  then have "(ucast x :: u64) < 64"
    by (simp add: word_less_nat_alt)
  then have "vappend q (ucast x) = Some [x]"
    by (simp add: append_small)
  from parse_append [OF this, of rest] show ?thesis by simp
qed

lemma append_first_nonzero:
  assumes "vappend q i = Some (b # bs)" and "i \<noteq> 0"
  shows "b \<noteq> 0"
proof
  assume "b = 0"
  then have "vparse q ((b # bs) @ []) = Some (0, 1)"
    using parse_small [of 0 bs] by simp
  moreover have "vparse q ((b # bs) @ []) = Some (i, length (b # bs))"
    by (rule parse_append [OF assms(1)])
  ultimately show False using assms(2) by simp
qed

end

section \<open>The RFC's encoding satisfies the laws\<close>

lemma length_be_bytes [simp]: "length (be_bytes n v) = n"
  by (induction n arbitrary: v) auto

lemma be_value_be_bytes: "v < 256 ^ n \<Longrightarrow> be_value (be_bytes n v) = v"
proof (induction n arbitrary: v)
  case 0
  then show ?case by simp
next
  case (Suc n)
  then have "v div 256 ^ n < 256" by (simp add: less_mult_imp_div_less mult.commute)
  then show ?case using Suc by (simp add: unat_of_nat div_mult_mod_eq)
qed

lemma be_bytes_hd: "v < 256 ^ Suc n \<Longrightarrow> unat (hd (be_bytes (Suc n) v)) = v div 256 ^ n"
  by (simp add: unat_of_nat less_mult_imp_div_less mult.commute)

lemma rfc_parse_be:
  assumes n: "n = 2 ^ k" "k < 4" and v: "v < 2 ^ (8 * n - 2)"
  shows "rfc_parse (be_bytes n (v + k * 2 ^ (8 * n - 2)) @ rest) = Some (of_nat v, n)"
proof -
  obtain m where m: "n = Suc m" using n(1) gr0_implies_Suc [of n] by auto
  have pow: "2 ^ (8 * n - 2) * 4 = (256 :: nat) ^ n"
    using m by (simp add: power_mult [symmetric] power_add [symmetric]
        flip: power_Suc) (simp add: power_mult [of 2 8, simplified] power_add)
  let ?v = "v + k * 2 ^ (8 * n - 2)"
  have lt: "?v < 256 ^ n"
  proof -
    have "?v < (k + 1) * 2 ^ (8 * n - 2)" using v by simp
    also have "\<dots> \<le> 4 * 2 ^ (8 * n - 2)" using n(2) by simp
    finally show ?thesis using pow by simp
  qed
  have "?v div 256 ^ m div 64 = ?v div (256 ^ m * 64)" by (simp add: div_mult2_eq)
  also have "256 ^ m * 64 = (2 :: nat) ^ (8 * n - 2)"
    using pow m by simp
  also have "?v div 2 ^ (8 * n - 2) = k" using v by simp
  finally have hd: "unat (hd (be_bytes n ?v)) div 64 = k"
    using be_bytes_hd [of ?v m] lt m by simp
  obtain x xs where x: "be_bytes n ?v = x # xs" using m by simp
  have len: "length (x # xs) = n" using x length_be_bytes by metis
  then have tk: "take n ((x # xs) @ rest) = x # xs" by (metis append_eq_conv_conj)
  have k: "unat x div 64 = k" using hd x by simp
  have "rfc_parse ((x # xs) @ rest) =
      Some (of_nat (be_value (x # xs) mod 2 ^ (8 * n - 2)), n)"
    using tk len n(1) by (simp add: rfc_parse_def Let_def k)
  also have "be_value (x # xs) = ?v" using be_value_be_bytes [OF lt] x by simp
  finally show ?thesis using x v by simp
qed

lemma rfc_parse_bounds:
  assumes "rfc_parse b = Some (v, n)"
  shows "unat v < 2 ^ 62 \<and> 0 < n \<and> n \<le> length b"
proof -
  from assms obtain x xs where b: "b = x # xs" and n: "n = 2 ^ (unat x div 64)"
    and v: "v = of_nat (be_value (take n b) mod 2 ^ (8 * n - 2))" and len: "n \<le> length b"
    by (auto simp: rfc_parse_def Let_def split: list.splits if_splits)
  have "unat x div 64 < 4" using unat_lt_byte [of x] by (simp add: div_less_iff_less_mult)
  then have "unat x div 64 \<in> {0, 1, 2, 3}" by auto
  then have "8 * n - 2 \<le> 62" using n by auto
  then have "(2 :: nat) ^ (8 * n - 2) \<le> 2 ^ 62" by (rule power_increasing) simp
  moreover have "be_value (take n b) mod 2 ^ (8 * n - 2) < 2 ^ (8 * n - 2)" by simp
  ultimately have "be_value (take n b) mod 2 ^ (8 * n - 2) < 2 ^ 62" by linarith
  then show ?thesis using v n len by (simp add: unat_of_nat)
qed

lemma rfc_append_parse:
  assumes "rfc_append i = Some bs"
  shows "rfc_parse (bs @ rest) = Some (i, length bs)"
  using assms rfc_parse_be [of 1 0 "unat i" rest] rfc_parse_be [of 2 1 "unat i" rest]
    rfc_parse_be [of 4 2 "unat i" rest] rfc_parse_be [of 8 3 "unat i" rest]
  by (auto simp: rfc_append_def word_less_nat_alt simp del: be_bytes.simps split: if_splits)

interpretation rfc: quicvarint rfc9000
proof unfold_locales
  fix i :: u64
  show "vmax rfc9000 = 2 ^ 62 - 1" by (simp add: rfc9000_def)
  show "i \<le> vmax rfc9000 \<Longrightarrow> \<exists>bs. vappend rfc9000 i = Some bs \<and> length bs = vlen rfc9000 i"
    by (auto simp: rfc9000_def rfc_append_def rfc_len_def word_less_nat_alt word_le_nat_alt)
  show "vmax rfc9000 < i \<Longrightarrow> vappend rfc9000 i = None"
    by (auto simp: rfc9000_def rfc_append_def word_less_nat_alt)
  show "i < 64 \<Longrightarrow> vappend rfc9000 i = Some [ucast i]"
    by (simp add: rfc9000_def rfc_append_def)
  show "i \<le> vmax rfc9000 \<Longrightarrow> vlen rfc9000 i =
      (if i < 2 ^ 6 then 1 else if i < 2 ^ 14 then 2 else if i < 2 ^ 30 then 4 else 8)"
    by (simp add: rfc9000_def rfc_len_def)
next
  fix i bs rest
  assume "vappend rfc9000 i = Some bs"
  then have "rfc_append i = Some bs" by (simp add: rfc9000_def)
  from rfc_append_parse [OF this]
  show "vparse rfc9000 (bs @ rest) = Some (i, length bs)"
    and "\<And>e. vread rfc9000 (bs @ rest) e = Inr (i, length bs)"
    by (simp_all add: rfc9000_def rfc_read_def)
next
  fix b v n
  assume "vparse rfc9000 b = Some (v, n)"
  then show "v \<le> vmax rfc9000 \<and> 0 < n \<and> n \<le> length b"
    using rfc_parse_bounds [of b v n] by (auto simp: rfc9000_def word_le_nat_alt)
next
  fix b v n e
  assume "vread rfc9000 b e = Inr (v, n)"
  then show "v \<le> vmax rfc9000 \<and> 0 < n \<and> n \<le> length b"
    using rfc_parse_bounds [of b v n]
    by (auto simp: rfc9000_def rfc_read_def word_le_nat_alt split: option.splits)
qed

end
