(* ===== verification/Wire_Reader.thy ===== *)
theory Wire_Reader
  imports Varint_Codec
begin

text \<open>
  The parts of \<^verbatim>\<open>src/qmux/internal/wire/frame.go\<close> that both the frame and the parameter parser
  use: the connection error \<open>wire.Error\<close> with its codes, and \<open>reader\<close>, which consumes a record
  and remembers that it ran out of bytes. A method of \<open>reader\<close> takes the reader and returns its
  result with the reader as the call leaves it.
\<close>

section \<open>Connection errors\<close>

record wire_error =
  Code :: u64
  Reason :: string

definition InternalError :: u64 where "InternalError = 0x01"

definition FlowControlError :: u64 where "FlowControlError = 0x03"

definition StreamLimitError :: u64 where "StreamLimitError = 0x04"

definition StreamStateError :: u64 where "StreamStateError = 0x05"

definition FinalSizeError :: u64 where "FinalSizeError = 0x06"

definition FrameEncodingError :: u64 where "FrameEncodingError = 0x07"

definition TransportParameterError :: u64 where "TransportParameterError = 0x08"

definition ProtocolViolation :: u64 where "ProtocolViolation = 0x0a"

text \<open>\<open>Error.Error\<close>.\<close>

definition wire_error_Error :: "wire_error \<Rightarrow> string" where
  "wire_error_Error e = ''qmux: transport error 0x'' @ show_hex (Code e) @ '': '' @ Reason e"

definition frameEncodingError :: "string \<Rightarrow> wire_error" where
  "frameEncodingError reason = \<lparr>Code = FrameEncodingError, Reason = reason\<rparr>"

text \<open>\<open>maxStreams\<close>, the largest stream count a peer may declare.\<close>

definition maxStreams :: u64 where
  "maxStreams = push_bit 60 1"

text \<open>\<open>DefaultMaxRecordSize\<close> of \<^verbatim>\<open>params.go\<close>.\<close>

definition DefaultMaxRecordSize :: nat where
  "DefaultMaxRecordSize = 16382"

section \<open>The reader\<close>

record reader =
  r_b :: bytes
  r_failed :: bool

definition new_reader :: "bytes \<Rightarrow> reader" where
  "new_reader b = \<lparr>r_b = b, r_failed = False\<rparr>"

definition reader_varint :: "codec \<Rightarrow> reader \<Rightarrow> u64 \<times> reader" where
  "reader_varint q r =
     (if r_failed r then (0, r)
      else case vparse q (r_b r) of
        None \<Rightarrow> (0, r\<lparr>r_failed := True\<rparr>)
      | Some (v, n) \<Rightarrow> (v, r\<lparr>r_b := drop n (r_b r)\<rparr>))"

definition reader_bytes :: "u64 \<Rightarrow> reader \<Rightarrow> bytes \<times> reader" where
  "reader_bytes n r =
     (if r_failed r \<or> u64_len (r_b r) < n then ([], r\<lparr>r_failed := True\<rparr>)
      else (take (unat n) (r_b r), r\<lparr>r_b := drop (unat n) (r_b r)\<rparr>))"

definition reader_rest :: "reader \<Rightarrow> bytes \<times> reader" where
  "reader_rest r = (if r_failed r then ([], r) else (r_b r, r\<lparr>r_b := []\<rparr>))"

text \<open>\<open>r.bytes(r.varint())\<close>, the field with a length in front of it.\<close>

definition reader_prefixed :: "codec \<Rightarrow> reader \<Rightarrow> bytes \<times> reader" where
  "reader_prefixed q r = (let (n, r) = reader_varint q r in reader_bytes n r)"

section \<open>Reading only shortens\<close>

lemmas reader_defs = reader_varint_def reader_bytes_def reader_rest_def reader_prefixed_def

lemma reader_varint_length: "reader_varint q r = (v, r') \<Longrightarrow> length (r_b r') \<le> length (r_b r)"
  by (auto simp: reader_defs split: if_splits option.splits)

lemma reader_bytes_length: "reader_bytes n r = (p, r') \<Longrightarrow> length (r_b r') \<le> length (r_b r)"
  by (auto simp: reader_defs split: if_splits)

lemma reader_rest_length: "reader_rest r = (p, r') \<Longrightarrow> length (r_b r') \<le> length (r_b r)"
  by (auto simp: reader_defs split: if_splits)

lemma reader_prefixed_length: "reader_prefixed q r = (p, r') \<Longrightarrow> length (r_b r') \<le> length (r_b r)"
  by (auto simp: reader_prefixed_def split: prod.splits
      dest!: reader_varint_length reader_bytes_length)

lemmas reader_lengths =
  reader_varint_length reader_bytes_length reader_rest_length reader_prefixed_length

text \<open>A failed reader stays failed: a parser may check once, at its end.\<close>

lemma reader_varint_failed: "reader_varint q r = (v, r') \<Longrightarrow> \<not> r_failed r' \<Longrightarrow> \<not> r_failed r"
  by (auto simp: reader_defs split: if_splits)

lemma reader_bytes_failed: "reader_bytes n r = (p, r') \<Longrightarrow> \<not> r_failed r' \<Longrightarrow> \<not> r_failed r"
  by (auto simp: reader_defs split: if_splits)

lemma reader_rest_failed: "reader_rest r = (p, r') \<Longrightarrow> \<not> r_failed r' \<Longrightarrow> \<not> r_failed r"
  by (auto simp: reader_defs split: if_splits)

lemma reader_prefixed_failed: "reader_prefixed q r = (p, r') \<Longrightarrow> \<not> r_failed r' \<Longrightarrow> \<not> r_failed r"
  by (auto simp: reader_prefixed_def split: prod.splits
      dest: reader_varint_failed reader_bytes_failed)

lemmas reader_failed =
  reader_varint_failed reader_bytes_failed reader_rest_failed reader_prefixed_failed

lemma reader_bytes_len: "reader_bytes n r = (p, r') \<Longrightarrow> length p \<le> length (r_b r)"
  by (auto simp: reader_defs split: if_splits)

lemma reader_rest_len: "reader_rest r = (p, r') \<Longrightarrow> length p \<le> length (r_b r)"
  by (auto simp: reader_defs split: if_splits)

lemma reader_prefixed_len: "reader_prefixed q r = (p, r') \<Longrightarrow> length p \<le> length (r_b r)"
  by (auto simp: reader_prefixed_def split: prod.splits
      dest!: reader_varint_length reader_bytes_len)

section \<open>Reading back what was appended\<close>

lemma reader_bytes_append:
  assumes "length p < 2 ^ 62" "length rest < 2 ^ 63"
  shows "reader_bytes (u64_len p) (new_reader (p @ rest)) = (p, new_reader rest)"
proof -
  have "unat (u64_len p) = length p" "unat (u64_len (p @ rest)) = length p + length rest"
    using assms by (simp_all add: unat_u64_len)
  then show ?thesis by (simp add: reader_defs new_reader_def word_less_nat_alt)
qed

lemma reader_bytes_fails:
  "u64_len b < n \<Longrightarrow> reader_bytes n (new_reader b) = ([], \<lparr>r_b = b, r_failed = True\<rparr>)"
  by (simp add: reader_defs new_reader_def)

lemma reader_rest_new: "reader_rest (new_reader b) = (b, new_reader [])"
  by (simp add: reader_defs new_reader_def)

lemma new_reader_simps [simp]: "r_b (new_reader b) = b" "\<not> r_failed (new_reader b)"
  by (simp_all add: new_reader_def)

context quicvarint
begin

lemma reader_varint_append:
  "vappend q i = Some bs \<Longrightarrow> reader_varint q (new_reader (bs @ rest)) = (i, new_reader rest)"
  using parse_append [of i bs rest] by (simp add: reader_defs new_reader_def)

lemma reader_varint_small:
  "x < 64 \<Longrightarrow> reader_varint q (new_reader (x # rest)) = (ucast x, new_reader rest)"
  using parse_small [of x rest] by (simp add: reader_defs new_reader_def)

lemma reader_prefixed_append:
  assumes "vappend q (u64_len p) = Some bs" "length p < 2 ^ 62" "length rest < 2 ^ 63"
  shows "reader_prefixed q (new_reader (bs @ p @ rest)) = (p, new_reader rest)"
  using assms by (simp add: reader_prefixed_def reader_varint_append reader_bytes_append)

lemma reader_varint_le: "reader_varint q r = (v, r') \<Longrightarrow> v \<le> vmax q"
  by (auto simp: reader_defs dest: parse_bounds split: if_splits option.splits)

lemma reader_varint_consumes:
  "reader_varint q r = (v, r') \<Longrightarrow> \<not> r_failed r' \<Longrightarrow> length (r_b r') < length (r_b r)"
  by (auto simp: reader_defs dest: parse_bounds split: if_splits option.splits)

end

end
