(* ===== verification/Wire_Params.thy ===== *)
theory Wire_Params
  imports Wire_Reader
begin

text \<open>
  The transport parameters of \<^verbatim>\<open>src/qmux/internal/wire/params.go\<close>: the structure, its encoding
  and its parser. \<open>field\<close>, which returns a pointer into the structure, is a pair of a read and
  a write function. The parser's loop is a \<^theory_text>\<open>partial_function (option)\<close>: \<open>None\<close> is a loop that
  does not end. \<open>parseParameters_total\<close> shows that it always ends.
\<close>

section \<open>Identifiers\<close>

definition paramMaxIdleTimeout :: u64 where "paramMaxIdleTimeout = 0x01"

definition paramInitialMaxData :: u64 where "paramInitialMaxData = 0x04"

definition paramInitialMaxStreamDataBidiLoc :: u64 where "paramInitialMaxStreamDataBidiLoc = 0x05"

definition paramInitialMaxStreamDataBidiRem :: u64 where "paramInitialMaxStreamDataBidiRem = 0x06"

definition paramInitialMaxStreamDataUni :: u64 where "paramInitialMaxStreamDataUni = 0x07"

definition paramInitialMaxStreamsBidi :: u64 where "paramInitialMaxStreamsBidi = 0x08"

definition paramInitialMaxStreamsUni :: u64 where "paramInitialMaxStreamsUni = 0x09"

definition paramMaxDatagramFrameSize :: u64 where "paramMaxDatagramFrameSize = 0x20"

definition paramMaxRecordSize :: u64 where "paramMaxRecordSize = 0x0571c59429cd0845"

lemmas param_id_defs =
  paramMaxIdleTimeout_def paramInitialMaxData_def paramInitialMaxStreamDataBidiLoc_def
  paramInitialMaxStreamDataBidiRem_def paramInitialMaxStreamDataUni_def
  paramInitialMaxStreamsBidi_def paramInitialMaxStreamsUni_def paramMaxDatagramFrameSize_def
  paramMaxRecordSize_def

definition prohibitedParam :: "u64 \<Rightarrow> string" where
  "prohibitedParam pid =
     (if pid = 0x00 then ''original_destination_connection_id''
      else if pid = 0x02 then ''stateless_reset_token''
      else if pid = 0x03 then ''max_udp_payload_size''
      else if pid = 0x0a then ''ack_delay_exponent''
      else if pid = 0x0b then ''max_ack_delay''
      else if pid = 0x0c then ''disable_active_migration''
      else if pid = 0x0d then ''preferred_address''
      else if pid = 0x0e then ''active_connection_id_limit''
      else if pid = 0x0f then ''initial_source_connection_id''
      else if pid = 0x10 then ''retry_source_connection_id''
      else [])"

section \<open>The parameters\<close>

record Parameters =
  MaxIdleTimeout :: u64
  InitialMaxData :: u64
  InitialMaxStreamDataBidiLocal :: u64
  InitialMaxStreamDataBidiRemote :: u64
  InitialMaxStreamDataUni :: u64
  InitialMaxStreamsBidi :: u64
  InitialMaxStreamsUni :: u64
  MaxDatagramFrameSize :: u64
  MaxRecordSize :: u64

text \<open>\<open>Parameters{}\<close>.\<close>

definition zero_Parameters :: Parameters where
  "zero_Parameters = \<lparr>MaxIdleTimeout = 0, InitialMaxData = 0, InitialMaxStreamDataBidiLocal = 0,
     InitialMaxStreamDataBidiRemote = 0, InitialMaxStreamDataUni = 0, InitialMaxStreamsBidi = 0,
     InitialMaxStreamsUni = 0, MaxDatagramFrameSize = 0, MaxRecordSize = 0\<rparr>"

type_synonym param_ref = "(Parameters \<Rightarrow> u64) \<times> (u64 \<Rightarrow> Parameters \<Rightarrow> Parameters)"

definition field :: "u64 \<Rightarrow> param_ref option" where
  "field pid =
     (if pid = paramMaxIdleTimeout then Some (MaxIdleTimeout, \<lambda>v p. p\<lparr>MaxIdleTimeout := v\<rparr>)
      else if pid = paramInitialMaxData then Some (InitialMaxData, \<lambda>v p. p\<lparr>InitialMaxData := v\<rparr>)
      else if pid = paramInitialMaxStreamDataBidiLoc then
        Some (InitialMaxStreamDataBidiLocal, \<lambda>v p. p\<lparr>InitialMaxStreamDataBidiLocal := v\<rparr>)
      else if pid = paramInitialMaxStreamDataBidiRem then
        Some (InitialMaxStreamDataBidiRemote, \<lambda>v p. p\<lparr>InitialMaxStreamDataBidiRemote := v\<rparr>)
      else if pid = paramInitialMaxStreamDataUni then
        Some (InitialMaxStreamDataUni, \<lambda>v p. p\<lparr>InitialMaxStreamDataUni := v\<rparr>)
      else if pid = paramInitialMaxStreamsBidi then
        Some (InitialMaxStreamsBidi, \<lambda>v p. p\<lparr>InitialMaxStreamsBidi := v\<rparr>)
      else if pid = paramInitialMaxStreamsUni then
        Some (InitialMaxStreamsUni, \<lambda>v p. p\<lparr>InitialMaxStreamsUni := v\<rparr>)
      else if pid = paramMaxDatagramFrameSize then
        Some (MaxDatagramFrameSize, \<lambda>v p. p\<lparr>MaxDatagramFrameSize := v\<rparr>)
      else if pid = paramMaxRecordSize then Some (MaxRecordSize, \<lambda>v p. p\<lparr>MaxRecordSize := v\<rparr>)
      else None)"

text \<open>The array that \<open>append\<close> ranges over.\<close>

definition param_order :: "u64 list" where
  "param_order = [paramMaxIdleTimeout, paramInitialMaxData, paramInitialMaxStreamDataBidiLoc,
     paramInitialMaxStreamDataBidiRem, paramInitialMaxStreamDataUni, paramInitialMaxStreamsBidi,
     paramInitialMaxStreamsUni, paramMaxDatagramFrameSize, paramMaxRecordSize]"

text \<open>The body of the loop; \<open>None\<close> is a panic (a nil field, or a value that is no varint).\<close>

definition params_append_one :: "codec \<Rightarrow> Parameters \<Rightarrow> u64 \<Rightarrow> bytes \<Rightarrow> bytes option" where
  "params_append_one q p pid b =
     (case field pid of None \<Rightarrow> None
      | Some (get, _) \<Rightarrow>
        let value = get p
        in if value = 0 then Some b
           else do {
             bs1 \<leftarrow> vappend q pid;
             bs2 \<leftarrow> vappend q (of_nat (vlen q value));
             bs3 \<leftarrow> vappend q value;
             Some (b @ bs1 @ bs2 @ bs3)
           })"

fun params_append_loop :: "codec \<Rightarrow> Parameters \<Rightarrow> u64 list \<Rightarrow> bytes \<Rightarrow> bytes option" where
  "params_append_loop q p [] b = Some b"
| "params_append_loop q p (pid # ids) b =
     Option.bind (params_append_one q p pid b) (params_append_loop q p ids)"

definition params_append :: "codec \<Rightarrow> Parameters \<Rightarrow> bytes \<Rightarrow> bytes option" where
  "params_append q p b = params_append_loop q p param_order b"

section \<open>The parser\<close>

definition parameterError :: "string \<Rightarrow> wire_error" where
  "parameterError reason = \<lparr>Code = TransportParameterError, Reason = reason\<rparr>"

text \<open>One turn of the loop: an error, or the reader, the identifiers seen and the parameters
  with which the loop goes on.\<close>

definition parseParameters_step ::
  "codec \<Rightarrow> reader \<Rightarrow> u64 list \<Rightarrow> Parameters \<Rightarrow> wire_error + reader \<times> u64 list \<times> Parameters" where
  "parseParameters_step q r seen p =
     (let (pid, r) = reader_varint q r;
          (value, r) = reader_prefixed q r
      in if r_failed r then Inl (parameterError ''transport parameters are truncated'')
         else if prohibitedParam pid \<noteq> [] then
           Inl (parameterError (prohibitedParam pid @ '' is not allowed''))
         else if pid \<in> set seen then
           Inl (parameterError (''transport parameter 0x'' @ show_hex pid @ '' is repeated''))
         else case field pid of
           None \<Rightarrow> Inr (r, pid # seen, p)
         | Some (_, set_field) \<Rightarrow>
           (case vparse q value of
              Some (v, n) \<Rightarrow>
                if n \<noteq> length value then
                  Inl (parameterError (''transport parameter 0x'' @ show_hex pid @ '' is not an integer''))
                else Inr (r, pid # seen, set_field v p)
            | None \<Rightarrow>
                Inl (parameterError (''transport parameter 0x'' @ show_hex pid @ '' is not an integer''))))"

partial_function (option) parseParameters_loop ::
  "codec \<Rightarrow> reader \<Rightarrow> u64 list \<Rightarrow> Parameters \<Rightarrow> (wire_error + Parameters) option" where
  "parseParameters_loop q r seen p =
     (if r_b r = [] then Some (Inr p)
      else case parseParameters_step q r seen p of
        Inl e \<Rightarrow> Some (Inl e)
      | Inr (r, seen, p) \<Rightarrow> parseParameters_loop q r seen p)"

text \<open>The checks after the loop.\<close>

definition params_check :: "Parameters \<Rightarrow> wire_error + Parameters" where
  "params_check p =
     (if InitialMaxStreamsBidi p > maxStreams \<or> InitialMaxStreamsUni p > maxStreams then
        Inl (parameterError ''initial_max_streams above 2^60'')
      else if MaxRecordSize p < of_nat DefaultMaxRecordSize then
        Inl (parameterError ''max_record_size below 16382'')
      else Inr p)"

definition parseParameters :: "codec \<Rightarrow> bytes \<Rightarrow> (wire_error + Parameters) option" where
  "parseParameters q b =
     (case parseParameters_loop q (new_reader b) []
         (zero_Parameters\<lparr>MaxRecordSize := of_nat DefaultMaxRecordSize\<rparr>) of
        None \<Rightarrow> None
      | Some (Inl e) \<Rightarrow> Some (Inl e)
      | Some (Inr p) \<Rightarrow> Some (params_check p))"

section \<open>The loop ends\<close>

context quicvarint
begin

lemma parseParameters_step_consumes:
  assumes "parseParameters_step q r seen p = Inr (r', seen', p')"
  shows "length (r_b r') < length (r_b r) \<and> \<not> r_failed r'"
proof -
  obtain pid r1 where 1: "reader_varint q r = (pid, r1)" by fastforce
  obtain val r2 where 2: "reader_prefixed q r1 = (val, r2)" by fastforce
  have r': "r' = r2" "\<not> r_failed r2"
    using assms 1 2 by (auto simp: parseParameters_step_def split: if_splits option.splits)
  then have "\<not> r_failed r1" using 2 reader_prefixed_failed by blast
  with 1 2 r' show ?thesis
    using reader_varint_consumes reader_prefixed_length by (metis order.strict_trans1)
qed

lemma parseParameters_loop_total: "\<exists>res. parseParameters_loop q r seen p = Some res"
proof (induction "length (r_b r)" arbitrary: r seen p rule: less_induct)
  case less
  show ?case
  proof (cases "parseParameters_step q r seen p")
    case (Inl e)
    then show ?thesis by (subst parseParameters_loop.simps) simp
  next
    case (Inr x)
    obtain r' seen' p' where x: "x = (r', seen', p')" by (cases x)
    with Inr less have "\<exists>res. parseParameters_loop q r' seen' p' = Some res"
      using parseParameters_step_consumes by blast
    with Inr x show ?thesis by (subst parseParameters_loop.simps) simp
  qed
qed

lemma parseParameters_returns: "\<exists>res. parseParameters q b = Some res"
proof -
  obtain res where "parseParameters_loop q (new_reader b) []
      (zero_Parameters\<lparr>MaxRecordSize := of_nat DefaultMaxRecordSize\<rparr>) = Some res"
    using parseParameters_loop_total by blast
  then show ?thesis by (cases res) (simp_all add: parseParameters_def)
qed

end

section \<open>What the parser accepts\<close>

text \<open>Parameters whose values are all varints.\<close>

definition params_fit :: "codec \<Rightarrow> Parameters \<Rightarrow> bool" where
  "params_fit q p \<longleftrightarrow>
     MaxIdleTimeout p \<le> vmax q \<and> InitialMaxData p \<le> vmax q \<and>
     InitialMaxStreamDataBidiLocal p \<le> vmax q \<and> InitialMaxStreamDataBidiRemote p \<le> vmax q \<and>
     InitialMaxStreamDataUni p \<le> vmax q \<and> InitialMaxStreamsBidi p \<le> vmax q \<and>
     InitialMaxStreamsUni p \<le> vmax q \<and> MaxDatagramFrameSize p \<le> vmax q \<and>
     MaxRecordSize p \<le> vmax q"

text \<open>Parameters a peer may declare: varints, stream counts up to 2^60, a record size no smaller
  than the default.\<close>

definition params_valid :: "codec \<Rightarrow> Parameters \<Rightarrow> bool" where
  "params_valid q p \<longleftrightarrow> params_fit q p \<and> InitialMaxStreamsBidi p \<le> maxStreams \<and>
     InitialMaxStreamsUni p \<le> maxStreams \<and> of_nat DefaultMaxRecordSize \<le> MaxRecordSize p"

lemma field_set_fit:
  "field pid = Some (get, set_field) \<Longrightarrow> params_fit q p \<Longrightarrow> v \<le> vmax q \<Longrightarrow> params_fit q (set_field v p)"
  by (auto simp: field_def params_fit_def split: if_splits)

context quicvarint
begin

lemma parseParameters_step_fit:
  "parseParameters_step q r seen p = Inr (r', seen', p') \<Longrightarrow> params_fit q p \<Longrightarrow> params_fit q p'"
  by (auto simp: parseParameters_step_def intro: field_set_fit dest: parse_bounds
      split: prod.splits if_splits option.splits)

lemma parseParameters_loop_fit:
  "parseParameters_loop q r seen p = Some (Inr p') \<Longrightarrow> params_fit q p \<Longrightarrow> params_fit q p'"
proof (induction "length (r_b r)" arbitrary: r seen p rule: less_induct)
  case less
  from less.prems(1) show ?case
    apply (subst (asm) parseParameters_loop.simps)
    using less.hyps less.prems(2) parseParameters_step_fit parseParameters_step_consumes
    by (auto split: if_splits sum.splits) blast
qed

lemma parseParameters_valid:
  assumes "parseParameters q b = Some (Inr p)"
  shows "params_valid q p"
proof -
  have "params_fit q (zero_Parameters\<lparr>MaxRecordSize := of_nat DefaultMaxRecordSize\<rparr>)"
    by (simp add: params_fit_def zero_Parameters_def max_value DefaultMaxRecordSize_def)
  moreover from assms obtain p' where
    "parseParameters_loop q (new_reader b) []
       (zero_Parameters\<lparr>MaxRecordSize := of_nat DefaultMaxRecordSize\<rparr>) = Some (Inr p')"
    and check: "params_check p' = Inr p"
    by (auto simp: parseParameters_def split: option.splits sum.splits)
  ultimately have "params_fit q p'" using parseParameters_loop_fit by blast
  with check show ?thesis
    by (auto simp: params_check_def params_valid_def split: if_splits)
qed

end

lemma parseParameters_step_code:
  "parseParameters_step q r seen p = Inl e \<Longrightarrow> Code e = TransportParameterError"
  by (auto simp: parseParameters_step_def parameterError_def
      split: prod.splits if_splits option.splits)

context quicvarint
begin

lemma parseParameters_loop_code:
  "parseParameters_loop q r seen p = Some (Inl e) \<Longrightarrow> Code e = TransportParameterError"
proof (induction "length (r_b r)" arbitrary: r seen p rule: less_induct)
  case less
  from less.prems(1) show ?case
    apply (subst (asm) parseParameters_loop.simps)
    using less.hyps parseParameters_step_code parseParameters_step_consumes
    by (auto split: if_splits sum.splits) blast
qed

lemma parseParameters_code:
  "parseParameters q b = Some (Inl e) \<Longrightarrow> Code e = TransportParameterError"
  by (auto simp: parseParameters_def params_check_def parameterError_def
      dest: parseParameters_loop_code split: option.splits sum.splits if_splits)

end

section \<open>Round trip\<close>

text \<open>What a peer reads from parameters that leave \<open>max_record_size\<close> at zero: the default.\<close>

definition params_received :: "Parameters \<Rightarrow> Parameters" where
  "params_received p =
     (if MaxRecordSize p = 0 then p\<lparr>MaxRecordSize := of_nat DefaultMaxRecordSize\<rparr> else p)"

text \<open>The effect of the encoded parameters of a list of identifiers on the parser's state.\<close>

primrec params_applied :: "Parameters \<Rightarrow> u64 list \<Rightarrow> Parameters \<Rightarrow> Parameters" where
  "params_applied p [] p0 = p0"
| "params_applied p (pid # ids) p0 = params_applied p ids
     (case field pid of None \<Rightarrow> p0
      | Some (get, set_field) \<Rightarrow> if get p = 0 then p0 else set_field (get p) p0)"

lemma field_get_fit: "field pid = Some (get, s) \<Longrightarrow> params_fit q p \<Longrightarrow> get p \<le> vmax q"
  by (auto simp: field_def params_fit_def split: if_splits)

lemma param_order_field: "pid \<in> set param_order \<Longrightarrow> \<exists>get s. field pid = Some (get, s)"
  by (auto simp: param_order_def field_def)

lemma param_order_allowed: "pid \<in> set param_order \<Longrightarrow> prohibitedParam pid = []"
  by (auto simp: param_order_def prohibitedParam_def param_id_defs)

lemma param_order_distinct: "distinct param_order"
  by (simp add: param_order_def param_id_defs)

context quicvarint
begin

lemma param_order_fits: "pid \<in> set param_order \<Longrightarrow> pid \<le> vmax q"
  by (auto simp: param_order_def param_id_defs max_value word_le_nat_alt)

lemma params_append_one_Some:
  assumes "pid \<in> set param_order" "params_fit q p" "field pid = Some (get, s)" "get p \<noteq> 0"
  obtains bs1 bs2 bs3 where "vappend q pid = Some bs1" "vappend q (of_nat (vlen q (get p))) = Some bs2"
    "vappend q (get p) = Some bs3" "length bs3 = vlen q (get p)"
    "\<And>b. params_append_one q p pid b = Some (b @ bs1 @ bs2 @ bs3)"
proof -
  have fit: "get p \<le> vmax q" using assms field_get_fit by blast
  have len: "of_nat (vlen q (get p)) \<le> vmax q"
    using vlen_bounds [OF fit] by (simp add: word_le_nat_alt max_value unat_of_nat_u64)
  obtain bs1 bs2 bs3 where "vappend q pid = Some bs1" "vappend q (of_nat (vlen q (get p))) = Some bs2"
    "vappend q (get p) = Some bs3" "length bs3 = vlen q (get p)"
    using append_fits param_order_fits [OF assms(1)] fit len by meson
  then show ?thesis using that assms by (simp add: params_append_one_def)
qed

lemma parseParameters_step_append:
  assumes "vappend q pid = Some bs1" "vappend q (of_nat (vlen q v)) = Some bs2"
    "vappend q v = Some bs3" "length bs3 = vlen q v"
    "pid \<in> set param_order" "field pid = Some (get, s)" "pid \<notin> set seen" "length rest < 2 ^ 63"
  shows "parseParameters_step q (new_reader (bs1 @ bs2 @ bs3 @ rest)) seen p0 =
    Inr (new_reader rest, pid # seen, s v p0)"
proof -
  have "length bs3 < 2 ^ 62" using append_length [OF assms(3)] by simp
  then have "reader_prefixed q (new_reader (bs2 @ bs3 @ rest)) = (bs3, new_reader rest)"
    using assms(2,4,8) by (intro reader_prefixed_append) (simp_all add: u64_len_def)
  moreover have "vparse q bs3 = Some (v, length bs3)"
    using parse_append [OF assms(3), of "[]"] by simp
  ultimately show ?thesis
    using assms by (simp add: parseParameters_step_def reader_varint_append param_order_allowed)
qed

lemma parseParameters_loop_empty: "parseParameters_loop q (new_reader []) seen p = Some (Inr p)"
  by (subst parseParameters_loop.simps) simp

lemma parseParameters_loop_step:
  "b \<noteq> [] \<Longrightarrow> parseParameters_step q (new_reader b) seen p = Inr (r, seen', p') \<Longrightarrow>
   parseParameters_loop q (new_reader b) seen p = parseParameters_loop q r seen' p'"
  by (subst parseParameters_loop.simps) simp

lemma params_append_loop_parse:
  assumes "params_fit q p"
  shows "set ids \<subseteq> set param_order \<Longrightarrow> distinct ids \<Longrightarrow>
    \<exists>enc. (\<forall>b. params_append_loop q p ids b = Some (b @ enc)) \<and> length enc \<le> 24 * length ids \<and>
      (\<forall>seen p0. set ids \<inter> set seen = {} \<longrightarrow> length ids < 2 ^ 32 \<longrightarrow>
         parseParameters_loop q (new_reader enc) seen p0 = Some (Inr (params_applied p ids p0)))"
proof (induction ids)
  case Nil
  then show ?case by (simp add: parseParameters_loop_empty)
next
  case (Cons pid ids)
  then obtain enc where enc: "\<And>b. params_append_loop q p ids b = Some (b @ enc)"
    and len: "length enc \<le> 24 * length ids"
    and parse: "\<And>seen p0. set ids \<inter> set seen = {} \<Longrightarrow> length ids < 2 ^ 32 \<Longrightarrow>
         parseParameters_loop q (new_reader enc) seen p0 = Some (Inr (params_applied p ids p0))"
    by auto
  obtain get s where f: "field pid = Some (get, s)"
    using Cons.prems(1) param_order_field by (meson list.set_intros(1) subsetD)
  show ?case
  proof (cases "get p = 0")
    case True
    then have "\<And>b. params_append_loop q p (pid # ids) b = Some (b @ enc)"
      using enc f by (simp add: params_append_one_def)
    with True len parse f show ?thesis by (intro exI [of _ enc]) auto
  next
    case False
    have "pid \<in> set param_order" using Cons.prems(1) by simp
    then obtain bs1 bs2 bs3 where bs: "vappend q pid = Some bs1"
      "vappend q (of_nat (vlen q (get p))) = Some bs2" "vappend q (get p) = Some bs3"
      "length bs3 = vlen q (get p)"
      and one: "\<And>b. params_append_one q p pid b = Some (b @ bs1 @ bs2 @ bs3)"
      using params_append_one_Some [OF _ assms f False] by blast
    let ?enc = "bs1 @ bs2 @ bs3 @ enc"
    have "parseParameters_loop q (new_reader ?enc) seen p0 =
        Some (Inr (params_applied p (pid # ids) p0))"
      if "set (pid # ids) \<inter> set seen = {}" "length (pid # ids) < 2 ^ 32" for seen p0
    proof -
      have ne: "?enc \<noteq> []" using append_length [OF bs(1)] by auto
      have "length enc < 2 ^ 63" using len that(2) by simp
      then have "parseParameters_step q (new_reader ?enc) seen p0 =
          Inr (new_reader enc, pid # seen, s (get p) p0)"
        using parseParameters_step_append [OF bs] f Cons.prems(1) that(1) by auto
      then show ?thesis
        using parse [of "pid # seen" "s (get p) p0"] that Cons.prems(2) f False
        by (simp add: parseParameters_loop_step [OF ne])
    qed
    moreover have "length ?enc \<le> 24 * length (pid # ids)"
      using append_length [OF bs(1)] append_length [OF bs(2)] append_length [OF bs(3)] len by simp
    ultimately show ?thesis
      using enc one by (intro exI [of _ ?enc]) auto
  qed
qed

lemma params_applied_order:
  "params_applied p param_order (zero_Parameters\<lparr>MaxRecordSize := of_nat DefaultMaxRecordSize\<rparr>) =
   params_received p"
  by (simp add: param_order_def field_def param_id_defs params_received_def zero_Parameters_def)

lemma params_roundtrip:
  assumes "params_fit q p" "params_valid q (params_received p)"
  shows "\<exists>enc. (\<forall>b. params_append q p b = Some (b @ enc)) \<and> length enc \<le> 216 \<and>
    parseParameters q enc = Some (Inr (params_received p))"
proof -
  obtain enc where enc: "\<And>b. params_append_loop q p param_order b = Some (b @ enc)"
    and len: "length enc \<le> 24 * length param_order"
    and parse: "\<And>seen p0. set param_order \<inter> set seen = {} \<Longrightarrow> length param_order < 2 ^ 32 \<Longrightarrow>
         parseParameters_loop q (new_reader enc) seen p0 = Some (Inr (params_applied p param_order p0))"
    using params_append_loop_parse [OF assms(1) subset_refl param_order_distinct] by blast
  have nine: "length param_order = 9" by (simp add: param_order_def)
  have "params_check (params_received p) = Inr (params_received p)"
    using assms(2) by (simp add: params_check_def params_valid_def not_less)
  then have "parseParameters q enc = Some (Inr (params_received p))"
    using parse [of "[]"] nine by (simp add: parseParameters_def params_applied_order)
  then show ?thesis using enc len nine by (auto simp: params_append_def)
qed

end

end
