(* ===== verification/Wire_Frames.thy ===== *)
theory Wire_Frames
  imports Wire_Params
begin

text \<open>
  The frames of \<^verbatim>\<open>src/qmux/internal/wire/frame.go\<close>: their types, one \<open>Append\<close> per frame and
  \<open>Parse\<close>. A frame that an endpoint can send (the interface \<open>Frame\<close>) is a value of the datatype
  \<open>frame\<close>; \<open>any_frame\<close> is what \<open>Parse\<close> can return, which adds the informational frames. The
  fields of each constructor are those of the Go struct, in its order.
\<close>

unbundle bit_operations_syntax

section \<open>Frame types\<close>

definition typeResetStream :: u64 where "typeResetStream = 0x04"

definition typeStopSending :: u64 where "typeStopSending = 0x05"

definition typeStream :: u64 where "typeStream = 0x08"

definition typeStreamMax :: u64 where "typeStreamMax = 0x0f"

definition typeMaxData :: u64 where "typeMaxData = 0x10"

definition typeMaxStreamData :: u64 where "typeMaxStreamData = 0x11"

definition typeMaxStreamsBidi :: u64 where "typeMaxStreamsBidi = 0x12"

definition typeMaxStreamsUni :: u64 where "typeMaxStreamsUni = 0x13"

definition typeDataBlocked :: u64 where "typeDataBlocked = 0x14"

definition typeStreamDataBlocked :: u64 where "typeStreamDataBlocked = 0x15"

definition typeStreamsBlocked :: u64 where "typeStreamsBlocked = 0x16"

definition typeStreamsBlockedUni :: u64 where "typeStreamsBlockedUni = 0x17"

definition typeConnectionClose :: u64 where "typeConnectionClose = 0x1c"

definition typeApplicationClose :: u64 where "typeApplicationClose = 0x1d"

definition typeDatagram :: u64 where "typeDatagram = 0x30"

definition typeDatagramLen :: u64 where "typeDatagramLen = 0x31"

definition typeTransportParameters :: u64 where "typeTransportParameters = 0x3f5153300d0a0d0a"

definition typePingRequest :: u64 where "typePingRequest = 0x348c67529ef8c7bd"

definition typePingResponse :: u64 where "typePingResponse = 0x348c67529ef8c7be"

definition streamBitFin :: u64 where "streamBitFin = 0x01"

definition streamBitLen :: u64 where "streamBitLen = 0x02"

definition streamBitOff :: u64 where "streamBitOff = 0x04"

text \<open>\<open>StreamOverhead\<close>, the largest encoding of a STREAM frame without its data.\<close>

definition StreamOverhead :: nat where "StreamOverhead = 1 + 8 + 8 + 8"

lemmas frame_type_defs =
  typeResetStream_def typeStopSending_def typeStream_def typeStreamMax_def typeMaxData_def
  typeMaxStreamData_def typeMaxStreamsBidi_def typeMaxStreamsUni_def typeDataBlocked_def
  typeStreamDataBlocked_def typeStreamsBlocked_def typeStreamsBlockedUni_def
  typeConnectionClose_def typeApplicationClose_def typeDatagram_def typeDatagramLen_def
  typeTransportParameters_def typePingRequest_def typePingResponse_def
  streamBitFin_def streamBitLen_def streamBitOff_def

section \<open>Frames\<close>

datatype frame =
    ResetStream u64 u64 u64 \<comment> \<open>StreamID, Code, FinalSize\<close>
  | StopSending u64 u64 \<comment> \<open>StreamID, Code\<close>
  | Stream u64 u64 bytes bool \<comment> \<open>StreamID, Offset, Data, Fin\<close>
  | MaxData u64 \<comment> \<open>Max\<close>
  | MaxStreamData u64 u64 \<comment> \<open>StreamID, Max\<close>
  | MaxStreams bool u64 \<comment> \<open>Uni, Max\<close>
  | ConnectionClose bool u64 u64 string \<comment> \<open>Application, Code, FrameType, Reason\<close>
  | Datagram bytes \<comment> \<open>Data\<close>
  | Ping bool u64 \<comment> \<open>Response, Sequence\<close>
  | TransportParameters Parameters

datatype any_frame = Frame frame | Blocked

section \<open>Encoding\<close>

text \<open>\<open>quicvarint.Append(b, i)\<close>; \<open>None\<close> is the panic of a value that is no varint.\<close>

definition put_varint :: "codec \<Rightarrow> u64 \<Rightarrow> bytes \<Rightarrow> bytes option" where
  "put_varint q i b = do { bs \<leftarrow> vappend q i; Some (b @ bs) }"

definition ResetStream_Append :: "codec \<Rightarrow> u64 \<Rightarrow> u64 \<Rightarrow> u64 \<Rightarrow> bytes \<Rightarrow> bytes option" where
  "ResetStream_Append q StreamID C FinalSize b = do {
     b \<leftarrow> Some (b @ [ucast typeResetStream]);
     b \<leftarrow> put_varint q StreamID b;
     b \<leftarrow> put_varint q C b;
     put_varint q FinalSize b
   }"

definition StopSending_Append :: "codec \<Rightarrow> u64 \<Rightarrow> u64 \<Rightarrow> bytes \<Rightarrow> bytes option" where
  "StopSending_Append q StreamID C b = do {
     b \<leftarrow> Some (b @ [ucast typeStopSending]);
     b \<leftarrow> put_varint q StreamID b;
     put_varint q C b
   }"

definition Stream_type :: "u64 \<Rightarrow> bool \<Rightarrow> byte" where
  "Stream_type Off Fin =
     (let t = ucast (typeStream OR streamBitLen);
          t = (if Off > 0 then t OR ucast streamBitOff else t)
      in if Fin then t OR ucast streamBitFin else t)"

definition Stream_Append :: "codec \<Rightarrow> u64 \<Rightarrow> u64 \<Rightarrow> bytes \<Rightarrow> bool \<Rightarrow> bytes \<Rightarrow> bytes option" where
  "Stream_Append q StreamID Off Data Fin b = do {
     b \<leftarrow> Some (b @ [Stream_type Off Fin]);
     b \<leftarrow> put_varint q StreamID b;
     b \<leftarrow> (if Off > 0 then put_varint q Off b else Some b);
     b \<leftarrow> put_varint q (u64_len Data) b;
     Some (b @ Data)
   }"

definition MaxData_Append :: "codec \<Rightarrow> u64 \<Rightarrow> bytes \<Rightarrow> bytes option" where
  "MaxData_Append q Mx b = put_varint q Mx (b @ [ucast typeMaxData])"

definition MaxStreamData_Append :: "codec \<Rightarrow> u64 \<Rightarrow> u64 \<Rightarrow> bytes \<Rightarrow> bytes option" where
  "MaxStreamData_Append q StreamID Mx b = do {
     b \<leftarrow> Some (b @ [ucast typeMaxStreamData]);
     b \<leftarrow> put_varint q StreamID b;
     put_varint q Mx b
   }"

definition MaxStreams_Append :: "codec \<Rightarrow> bool \<Rightarrow> u64 \<Rightarrow> bytes \<Rightarrow> bytes option" where
  "MaxStreams_Append q Uni Mx b =
     (let t = (if Uni then ucast typeMaxStreamsUni else ucast typeMaxStreamsBidi)
      in put_varint q Mx (b @ [t]))"

definition ConnectionClose_Append ::
  "codec \<Rightarrow> bool \<Rightarrow> u64 \<Rightarrow> u64 \<Rightarrow> string \<Rightarrow> bytes \<Rightarrow> bytes option" where
  "ConnectionClose_Append q Application C FrameType R b = do {
     b \<leftarrow> (if Application then do {
             b \<leftarrow> Some (b @ [ucast typeApplicationClose]);
             put_varint q C b
           } else do {
             b \<leftarrow> Some (b @ [ucast typeConnectionClose]);
             b \<leftarrow> put_varint q C b;
             put_varint q FrameType b
           });
     b \<leftarrow> put_varint q (u64_len R) b;
     Some (b @ bytes_of_string R)
   }"

definition Datagram_Append :: "codec \<Rightarrow> bytes \<Rightarrow> bytes \<Rightarrow> bytes option" where
  "Datagram_Append q Data b = do {
     b \<leftarrow> Some (b @ [ucast typeDatagramLen]);
     b \<leftarrow> put_varint q (u64_len Data) b;
     Some (b @ Data)
   }"

definition Datagram_Len :: "codec \<Rightarrow> bytes \<Rightarrow> nat" where
  "Datagram_Len q Data = 1 + vlen q (u64_len Data) + length Data"

definition Ping_Append :: "codec \<Rightarrow> bool \<Rightarrow> u64 \<Rightarrow> bytes \<Rightarrow> bytes option" where
  "Ping_Append q Response Sequence b =
     (let t = (if Response then typePingResponse else typePingRequest)
      in do { b \<leftarrow> put_varint q t b; put_varint q Sequence b })"

definition TransportParameters_Append :: "codec \<Rightarrow> Parameters \<Rightarrow> bytes \<Rightarrow> bytes option" where
  "TransportParameters_Append q p b = do {
     params \<leftarrow> params_append q p [];
     b \<leftarrow> put_varint q typeTransportParameters b;
     b \<leftarrow> put_varint q (u64_len params) b;
     Some (b @ params)
   }"

text \<open>The method \<open>Append\<close> of the interface \<open>Frame\<close>, by the frame's type.\<close>

fun frame_Append :: "codec \<Rightarrow> frame \<Rightarrow> bytes \<Rightarrow> bytes option" where
  "frame_Append q (ResetStream i c n) b = ResetStream_Append q i c n b"
| "frame_Append q (StopSending i c) b = StopSending_Append q i c b"
| "frame_Append q (Stream i off d fin) b = Stream_Append q i off d fin b"
| "frame_Append q (MaxData m) b = MaxData_Append q m b"
| "frame_Append q (MaxStreamData i m) b = MaxStreamData_Append q i m b"
| "frame_Append q (MaxStreams u m) b = MaxStreams_Append q u m b"
| "frame_Append q (ConnectionClose a c t r) b = ConnectionClose_Append q a c t r b"
| "frame_Append q (Datagram d) b = Datagram_Append q d b"
| "frame_Append q (Ping resp s) b = Ping_Append q resp s b"
| "frame_Append q (TransportParameters p) b = TransportParameters_Append q p b"

lemmas Append_defs =
  ResetStream_Append_def StopSending_Append_def Stream_Append_def MaxData_Append_def
  MaxStreamData_Append_def MaxStreams_Append_def ConnectionClose_Append_def Datagram_Append_def
  Ping_Append_def TransportParameters_Append_def

section \<open>Parsing\<close>

text \<open>The cases of the \<open>switch\<close> in \<open>Parse\<close>, one function each: the frame with the reader behind
  it, or the error of an early return.\<close>

definition parse_ResetStream :: "codec \<Rightarrow> reader \<Rightarrow> any_frame \<times> reader" where
  "parse_ResetStream q r =
     (let (i, r) = reader_varint q r; (c, r) = reader_varint q r; (n, r) = reader_varint q r
      in (Frame (ResetStream i c n), r))"

definition parse_StopSending :: "codec \<Rightarrow> reader \<Rightarrow> any_frame \<times> reader" where
  "parse_StopSending q r =
     (let (i, r) = reader_varint q r; (c, r) = reader_varint q r in (Frame (StopSending i c), r))"

definition parse_Stream :: "codec \<Rightarrow> u64 \<Rightarrow> reader \<Rightarrow> any_frame \<times> reader" where
  "parse_Stream q t r =
     (let (i, r) = reader_varint q r;
          (off, r) = (if t AND streamBitOff \<noteq> 0 then reader_varint q r else (0, r));
          (d, r) = (if t AND streamBitLen \<noteq> 0 then reader_prefixed q r else reader_rest r)
      in (Frame (Stream i off d (t AND streamBitFin \<noteq> 0)), r))"

definition parse_MaxData :: "codec \<Rightarrow> reader \<Rightarrow> any_frame \<times> reader" where
  "parse_MaxData q r = (let (m, r) = reader_varint q r in (Frame (MaxData m), r))"

definition parse_MaxStreamData :: "codec \<Rightarrow> reader \<Rightarrow> any_frame \<times> reader" where
  "parse_MaxStreamData q r =
     (let (i, r) = reader_varint q r; (m, r) = reader_varint q r in (Frame (MaxStreamData i m), r))"

definition parse_MaxStreams :: "codec \<Rightarrow> u64 \<Rightarrow> reader \<Rightarrow> wire_error + any_frame \<times> reader" where
  "parse_MaxStreams q t r =
     (let (m, r) = reader_varint q r
      in if m > maxStreams then Inl (frameEncodingError ''MAX_STREAMS above 2^60'')
         else Inr (Frame (MaxStreams (t = typeMaxStreamsUni) m), r))"

definition parse_DataBlocked :: "codec \<Rightarrow> reader \<Rightarrow> any_frame \<times> reader" where
  "parse_DataBlocked q r = (let (_, r) = reader_varint q r in (Blocked, r))"

definition parse_StreamDataBlocked :: "codec \<Rightarrow> reader \<Rightarrow> any_frame \<times> reader" where
  "parse_StreamDataBlocked q r =
     (let (_, r) = reader_varint q r; (_, r) = reader_varint q r in (Blocked, r))"

definition parse_StreamsBlocked :: "codec \<Rightarrow> reader \<Rightarrow> wire_error + any_frame \<times> reader" where
  "parse_StreamsBlocked q r =
     (let (m, r) = reader_varint q r
      in if m > maxStreams then Inl (frameEncodingError ''STREAMS_BLOCKED above 2^60'')
         else Inr (Blocked, r))"

definition parse_ConnectionClose :: "codec \<Rightarrow> u64 \<Rightarrow> reader \<Rightarrow> any_frame \<times> reader" where
  "parse_ConnectionClose q t r =
     (let (c, r) = reader_varint q r;
          (ft, r) = (if t \<noteq> typeApplicationClose then reader_varint q r else (0, r));
          (reason, r) = reader_prefixed q r
      in (Frame (ConnectionClose (t = typeApplicationClose) c ft (string_of_bytes reason)), r))"

definition parse_Datagram :: "reader \<Rightarrow> any_frame \<times> reader" where
  "parse_Datagram r = (let (d, r) = reader_rest r in (Frame (Datagram d), r))"

definition parse_DatagramLen :: "codec \<Rightarrow> reader \<Rightarrow> any_frame \<times> reader" where
  "parse_DatagramLen q r = (let (d, r) = reader_prefixed q r in (Frame (Datagram d), r))"

definition parse_TransportParameters ::
  "codec \<Rightarrow> reader \<Rightarrow> (wire_error + any_frame \<times> reader) option" where
  "parse_TransportParameters q r =
     (let (d, r) = reader_prefixed q r
      in case parseParameters q d of
           None \<Rightarrow> None
         | Some (Inl e) \<Rightarrow>
           if \<not> r_failed r then Some (Inl e)
           else Some (Inr (Frame (TransportParameters zero_Parameters), r))
         | Some (Inr p) \<Rightarrow> Some (Inr (Frame (TransportParameters p), r)))"

definition parse_Ping :: "codec \<Rightarrow> u64 \<Rightarrow> reader \<Rightarrow> any_frame \<times> reader" where
  "parse_Ping q t r =
     (let (s, r) = reader_varint q r in (Frame (Ping (t = typePingResponse) s), r))"

definition Parse_switch :: "codec \<Rightarrow> u64 \<Rightarrow> reader \<Rightarrow> (wire_error + any_frame \<times> reader) option" where
  "Parse_switch q t r =
     (if t = typeResetStream then Some (Inr (parse_ResetStream q r))
      else if t = typeStopSending then Some (Inr (parse_StopSending q r))
      else if t \<ge> typeStream \<and> t \<le> typeStreamMax then Some (Inr (parse_Stream q t r))
      else if t = typeMaxData then Some (Inr (parse_MaxData q r))
      else if t = typeMaxStreamData then Some (Inr (parse_MaxStreamData q r))
      else if t = typeMaxStreamsBidi \<or> t = typeMaxStreamsUni then Some (parse_MaxStreams q t r)
      else if t = typeDataBlocked then Some (Inr (parse_DataBlocked q r))
      else if t = typeStreamDataBlocked then Some (Inr (parse_StreamDataBlocked q r))
      else if t = typeStreamsBlocked \<or> t = typeStreamsBlockedUni then
        Some (parse_StreamsBlocked q r)
      else if t = typeConnectionClose \<or> t = typeApplicationClose then
        Some (Inr (parse_ConnectionClose q t r))
      else if t = typeDatagram then Some (Inr (parse_Datagram r))
      else if t = typeDatagramLen then Some (Inr (parse_DatagramLen q r))
      else if t = typeTransportParameters then parse_TransportParameters q r
      else if t = typePingRequest \<or> t = typePingResponse then Some (Inr (parse_Ping q t r))
      else Some (Inl (frameEncodingError (''frame type 0x'' @ show_hex t @ '' is not allowed''))))"

lemmas parse_case_defs =
  parse_ResetStream_def parse_StopSending_def parse_Stream_def parse_MaxData_def
  parse_MaxStreamData_def parse_MaxStreams_def parse_DataBlocked_def parse_StreamDataBlocked_def
  parse_StreamsBlocked_def parse_ConnectionClose_def parse_Datagram_def parse_DatagramLen_def
  parse_TransportParameters_def parse_Ping_def

text \<open>\<open>Parse\<close>: a frame with what follows it, or \<open>None\<close> in place of the frame when only padding
  was left. The outer \<open>None\<close> is a call that does not return.\<close>

definition Parse :: "codec \<Rightarrow> bytes \<Rightarrow> (wire_error + any_frame option \<times> bytes) option" where
  "Parse q b =
     (let b = dropWhile (\<lambda>x. x = 0) b
      in if b = [] then Some (Inr (None, []))
         else
           let (t, r) = reader_varint q (new_reader b)
           in case Parse_switch q t r of
                None \<Rightarrow> None
              | Some (Inl e) \<Rightarrow> Some (Inl e)
              | Some (Inr (f, r)) \<Rightarrow>
                if r_failed r then
                  Some (Inl (frameEncodingError (''frame of type 0x'' @ show_hex t @ '' is truncated'')))
                else Some (Inr (Some f, r_b r)))"

section \<open>Frames that can be encoded, and frames that are accepted\<close>

text \<open>Every field is a varint, every length is one too.\<close>

fun frame_fits :: "codec \<Rightarrow> frame \<Rightarrow> bool" where
  "frame_fits q (ResetStream i c n) \<longleftrightarrow> i \<le> vmax q \<and> c \<le> vmax q \<and> n \<le> vmax q"
| "frame_fits q (StopSending i c) \<longleftrightarrow> i \<le> vmax q \<and> c \<le> vmax q"
| "frame_fits q (Stream i off d fin) \<longleftrightarrow> i \<le> vmax q \<and> off \<le> vmax q \<and> length d < 2 ^ 62"
| "frame_fits q (MaxData m) \<longleftrightarrow> m \<le> vmax q"
| "frame_fits q (MaxStreamData i m) \<longleftrightarrow> i \<le> vmax q \<and> m \<le> vmax q"
| "frame_fits q (MaxStreams u m) \<longleftrightarrow> m \<le> vmax q"
| "frame_fits q (ConnectionClose a c t r) \<longleftrightarrow>
     c \<le> vmax q \<and> (a \<or> t \<le> vmax q) \<and> length r < 2 ^ 62"
| "frame_fits q (Datagram d) \<longleftrightarrow> length d < 2 ^ 62"
| "frame_fits q (Ping resp s) \<longleftrightarrow> s \<le> vmax q"
| "frame_fits q (TransportParameters p) \<longleftrightarrow> params_fit q p"

text \<open>What a peer reads from a frame: the fields that are on the wire, with the default of the
  record size filled in.\<close>

fun frame_received :: "frame \<Rightarrow> frame" where
  "frame_received (ConnectionClose a c t r) = ConnectionClose a c (if a then 0 else t) r"
| "frame_received (TransportParameters p) = TransportParameters (params_received p)"
| "frame_received f = f"

fun frame_valid :: "codec \<Rightarrow> frame \<Rightarrow> bool" where
  "frame_valid q (MaxStreams u m) \<longleftrightarrow> m \<le> maxStreams"
| "frame_valid q (TransportParameters p) \<longleftrightarrow>
     params_fit q p \<and> params_valid q (params_received p)"
| "frame_valid q f \<longleftrightarrow> frame_fits q f"

lemma frame_Append_prefix: "frame_Append q f b = map_option (\<lambda>e. b @ e) (frame_Append q f [])"
  by (cases f) (auto simp: Append_defs put_varint_def Let_def split: Option.bind_split)

section \<open>Round trip\<close>

lemma ucast_types [simp]:
  "ucast (ucast typeResetStream :: byte) = typeResetStream"
  "ucast (ucast typeStopSending :: byte) = typeStopSending"
  "ucast (ucast typeMaxData :: byte) = typeMaxData"
  "ucast (ucast typeMaxStreamData :: byte) = typeMaxStreamData"
  "ucast (ucast typeMaxStreamsBidi :: byte) = typeMaxStreamsBidi"
  "ucast (ucast typeMaxStreamsUni :: byte) = typeMaxStreamsUni"
  "ucast (ucast typeConnectionClose :: byte) = typeConnectionClose"
  "ucast (ucast typeApplicationClose :: byte) = typeApplicationClose"
  "ucast (ucast typeDatagramLen :: byte) = typeDatagramLen"
  by (simp_all add: frame_type_defs)

lemma Stream_type_cases:
  "Stream_type off fin = (if off = 0 then if fin then 0x0b else 0x0a else if fin then 0x0f else 0x0e)"
  by (simp add: Stream_type_def frame_type_defs word_gt_0 Let_def)

text \<open>The branch that each type takes.\<close>

lemma Parse_switch_types:
  "Parse_switch q typeResetStream r = Some (Inr (parse_ResetStream q r))"
  "Parse_switch q typeStopSending r = Some (Inr (parse_StopSending q r))"
  "Parse_switch q typeMaxData r = Some (Inr (parse_MaxData q r))"
  "Parse_switch q typeMaxStreamData r = Some (Inr (parse_MaxStreamData q r))"
  "Parse_switch q typeDatagramLen r = Some (Inr (parse_DatagramLen q r))"
  "Parse_switch q typeTransportParameters r = parse_TransportParameters q r"
  by (simp_all add: Parse_switch_def frame_type_defs)

lemma Parse_switch_MaxStreams:
  "Parse_switch q (ucast ((if u then ucast typeMaxStreamsUni else ucast typeMaxStreamsBidi) :: byte)) r =
     (let (m, r) = reader_varint q r
      in if m > maxStreams then Some (Inl (frameEncodingError ''MAX_STREAMS above 2^60''))
         else Some (Inr (Frame (MaxStreams u m), r)))"
  by (cases u) (simp_all add: Parse_switch_def parse_MaxStreams_def frame_type_defs split: prod.split)

lemma Parse_switch_Stream:
  "Parse_switch q (ucast (Stream_type off fin)) r =
     (let (i, r) = reader_varint q r;
          (off, r) = (if off \<noteq> 0 then reader_varint q r else (0, r));
          (d, r) = reader_prefixed q r
      in Some (Inr (Frame (Stream i off d fin), r)))"
  by (cases "off = 0"; cases fin)
    (simp_all add: Stream_type_cases Parse_switch_def parse_Stream_def frame_type_defs split: prod.split)

lemma Parse_switch_Close:
  "Parse_switch q (ucast ((if a then ucast typeApplicationClose else ucast typeConnectionClose) :: byte)) r =
     (let (c, r) = reader_varint q r;
          (ft, r) = (if \<not> a then reader_varint q r else (0, r));
          (reason, r) = reader_prefixed q r
      in Some (Inr (Frame (ConnectionClose a c ft (string_of_bytes reason)), r)))"
  by (cases a)
    (simp_all add: Parse_switch_def parse_ConnectionClose_def frame_type_defs split: prod.split)

lemma Parse_switch_Ping:
  "Parse_switch q (if resp then typePingResponse else typePingRequest) r =
     (let (s, r) = reader_varint q r in Some (Inr (Frame (Ping resp s), r)))"
  by (cases resp) (simp_all add: Parse_switch_def parse_Ping_def frame_type_defs split: prod.split)

lemma types_small:
  "(ucast typeResetStream :: byte) \<noteq> 0" "(ucast typeResetStream :: byte) < 64"
  "(ucast typeStopSending :: byte) \<noteq> 0" "(ucast typeStopSending :: byte) < 64"
  "(ucast typeMaxData :: byte) \<noteq> 0" "(ucast typeMaxData :: byte) < 64"
  "(ucast typeMaxStreamData :: byte) \<noteq> 0" "(ucast typeMaxStreamData :: byte) < 64"
  "(ucast typeDatagramLen :: byte) \<noteq> 0" "(ucast typeDatagramLen :: byte) < 64"
  "Stream_type off fin \<noteq> 0" "Stream_type off fin < 64"
  by (simp_all add: frame_type_defs Stream_type_cases)

context quicvarint
begin

lemma Parse_byte:
  assumes "x \<noteq> 0" "x < 64"
    "Parse_switch q (ucast x) (new_reader b) = Some (Inr (f, new_reader rest))"
  shows "Parse q (x # b) = Some (Inr (Some f, rest))"
  using assms reader_varint_small [of x b] by (simp add: Parse_def)

lemma Parse_varint:
  assumes "vappend q t = Some bs" "t \<noteq> 0"
    "Parse_switch q t (new_reader b) = Some (Inr (f, new_reader rest))"
  shows "Parse q (bs @ b) = Some (Inr (Some f, rest))"
proof -
  obtain x xs where bs: "bs = x # xs" using append_length [OF assms(1)] by (cases bs) auto
  then have "x \<noteq> 0" using append_first_nonzero assms(1,2) by blast
  then show ?thesis using assms(3) bs reader_varint_append [OF assms(1), of b] by (simp add: Parse_def)
qed

lemma fits_append: "i \<le> vmax q \<Longrightarrow> \<exists>bs. vappend q i = Some bs"
  using append_fits by blast

lemma len_fits: "length d < 2 ^ 62 \<Longrightarrow> u64_len d \<le> vmax q"
  by (simp add: fits_iff unat_u64_len)

lemma ResetStream_parse:
  assumes "frame_fits q (ResetStream i c n)"
  shows "\<exists>enc. frame_Append q (ResetStream i c n) [] = Some enc \<and> length enc \<le> 25 \<and>
    Parse q (enc @ rest) = Some (Inr (Some (Frame (ResetStream i c n)), rest))"
proof -
  obtain bi bc bn where b: "vappend q i = Some bi" "vappend q c = Some bc" "vappend q n = Some bn"
    using assms fits_append by (auto; meson)
  let ?enc = "ucast typeResetStream # bi @ bc @ bn"
  have "Parse q (?enc @ rest) = Some (Inr (Some (Frame (ResetStream i c n)), rest))"
    unfolding append_Cons
    by (rule Parse_byte) (simp_all add: types_small Parse_switch_types parse_case_defs b [THEN reader_varint_append])
  moreover have "length ?enc \<le> 25" using b [THEN append_length] by simp
  ultimately show ?thesis using b by (simp add: Append_defs put_varint_def)
qed

lemma StopSending_parse:
  assumes "frame_fits q (StopSending i c)"
  shows "\<exists>enc. frame_Append q (StopSending i c) [] = Some enc \<and> length enc \<le> 17 \<and>
    Parse q (enc @ rest) = Some (Inr (Some (Frame (StopSending i c)), rest))"
proof -
  obtain bi bc where b: "vappend q i = Some bi" "vappend q c = Some bc"
    using assms fits_append by (auto; meson)
  let ?enc = "ucast typeStopSending # bi @ bc"
  have "Parse q (?enc @ rest) = Some (Inr (Some (Frame (StopSending i c)), rest))"
    unfolding append_Cons
    by (rule Parse_byte) (simp_all add: types_small Parse_switch_types parse_case_defs b [THEN reader_varint_append])
  moreover have "length ?enc \<le> 17" using b [THEN append_length] by simp
  ultimately show ?thesis using b by (simp add: Append_defs put_varint_def)
qed

lemma Stream_parse:
  assumes "frame_fits q (Stream i off d fin)" "length rest < 2 ^ 63"
  shows "\<exists>enc. frame_Append q (Stream i off d fin) [] = Some enc \<and>
    length enc \<le> StreamOverhead + length d \<and>
    Parse q (enc @ rest) = Some (Inr (Some (Frame (Stream i off d fin)), rest))"
proof -
  obtain bi bo bl where b: "vappend q i = Some bi" "vappend q off = Some bo"
    "vappend q (u64_len d) = Some bl"
    using assms fits_append len_fits [of d] by (auto; meson)
  let ?enc = "Stream_type off fin # bi @ (if off = 0 then [] else bo) @ bl @ d"
  note rd = b [THEN reader_varint_append]
    reader_prefixed_append [OF b(3) _ assms(2)]
  have "Parse_switch q (ucast (Stream_type off fin))
      (new_reader ((bi @ (if off = 0 then [] else bo) @ bl @ d) @ rest)) =
      Some (Inr (Frame (Stream i off d fin), new_reader rest))"
    using assms(1) by (simp add: Parse_switch_Stream rd)
  then have "Parse q (?enc @ rest) = Some (Inr (Some (Frame (Stream i off d fin)), rest))"
    unfolding append_Cons by (intro Parse_byte) (simp_all add: types_small)
  moreover have "length ?enc \<le> StreamOverhead + length d"
    using b [THEN append_length] by (simp add: StreamOverhead_def)
  ultimately show ?thesis
    using b by (cases "off = 0") (simp_all add: Append_defs put_varint_def word_gt_0)
qed

lemma MaxData_parse:
  assumes "frame_fits q (MaxData m)"
  shows "\<exists>enc. frame_Append q (MaxData m) [] = Some enc \<and> length enc \<le> 9 \<and>
    Parse q (enc @ rest) = Some (Inr (Some (Frame (MaxData m)), rest))"
proof -
  obtain bm where b: "vappend q m = Some bm" using assms fits_append by auto
  let ?enc = "ucast typeMaxData # bm"
  have "Parse q (?enc @ rest) = Some (Inr (Some (Frame (MaxData m)), rest))"
    unfolding append_Cons
    by (rule Parse_byte) (simp_all add: types_small Parse_switch_types parse_case_defs b [THEN reader_varint_append])
  moreover have "length ?enc \<le> 9" using b [THEN append_length] by simp
  ultimately show ?thesis using b by (simp add: Append_defs put_varint_def)
qed

lemma MaxStreamData_parse:
  assumes "frame_fits q (MaxStreamData i m)"
  shows "\<exists>enc. frame_Append q (MaxStreamData i m) [] = Some enc \<and> length enc \<le> 17 \<and>
    Parse q (enc @ rest) = Some (Inr (Some (Frame (MaxStreamData i m)), rest))"
proof -
  obtain bi bm where b: "vappend q i = Some bi" "vappend q m = Some bm"
    using assms fits_append by (auto; meson)
  let ?enc = "ucast typeMaxStreamData # bi @ bm"
  have "Parse q (?enc @ rest) = Some (Inr (Some (Frame (MaxStreamData i m)), rest))"
    unfolding append_Cons
    by (rule Parse_byte) (simp_all add: types_small Parse_switch_types parse_case_defs b [THEN reader_varint_append])
  moreover have "length ?enc \<le> 17" using b [THEN append_length] by simp
  ultimately show ?thesis using b by (simp add: Append_defs put_varint_def)
qed

lemma maxStreams_fits: "m \<le> maxStreams \<Longrightarrow> m \<le> vmax q"
  by (simp add: maxStreams_def max_value word_le_nat_alt)

lemma MaxStreams_parse:
  assumes "m \<le> vmax q"
  shows "\<exists>enc. frame_Append q (MaxStreams u m) [] = Some enc \<and> length enc \<le> 9 \<and>
    Parse q (enc @ rest) =
      (if m \<le> maxStreams then Some (Inr (Some (Frame (MaxStreams u m)), rest))
       else Some (Inl (frameEncodingError ''MAX_STREAMS above 2^60'')))"
proof -
  obtain bm where b: "vappend q m = Some bm" using assms fits_append by auto
  define t :: byte where "t = (if u then ucast typeMaxStreamsUni else ucast typeMaxStreamsBidi)"
  have t: "t \<noteq> 0" "t < 64" by (cases u; simp add: t_def frame_type_defs)+
  have sw: "Parse_switch q (ucast t) (new_reader (bm @ rest)) =
    (if maxStreams < m then Some (Inl (frameEncodingError ''MAX_STREAMS above 2^60''))
     else Some (Inr (Frame (MaxStreams u m), new_reader rest)))"
    unfolding t_def Parse_switch_MaxStreams by (simp add: b [THEN reader_varint_append])
  have "Parse q (t # bm @ rest) = (if maxStreams < m then
         Some (Inl (frameEncodingError ''MAX_STREAMS above 2^60''))
       else Some (Inr (Some (Frame (MaxStreams u m)), rest)))"
    using t reader_varint_small [OF t(2), of "bm @ rest"] sw
    by (cases "maxStreams < m") (simp_all add: Parse_def)
  moreover have "length (t # bm) \<le> 9" using b [THEN append_length] by simp
  moreover have "frame_Append q (MaxStreams u m) [] = Some (t # bm)"
    using b by (simp add: Append_defs put_varint_def t_def)
  ultimately show ?thesis by (auto simp: not_less)
qed

lemma ConnectionClose_parse:
  assumes "frame_fits q (ConnectionClose a c t r)" "length rest < 2 ^ 63"
  shows "\<exists>enc. frame_Append q (ConnectionClose a c t r) [] = Some enc \<and>
    length enc \<le> 25 + length r \<and>
    Parse q (enc @ rest) = Some (Inr (Some (Frame (frame_received (ConnectionClose a c t r))), rest))"
proof -
  define t' where "t' = (if a then 0 else t)"
  have "t' \<le> vmax q" using assms(1) by (auto simp: t'_def)
  then obtain bc bt bl where b: "vappend q c = Some bc" "vappend q t' = Some bt"
    "vappend q (u64_len r) = Some bl"
    using assms fits_append len_fits [of r] by (auto; meson)
  have bl: "vappend q (u64_len (bytes_of_string r)) = Some bl"
    using b(3) by (simp add: u64_len_def)
  define ty :: byte where
    "ty = (if a then ucast typeApplicationClose else ucast typeConnectionClose)"
  let ?tail = "bc @ (if a then [] else bt) @ bl @ bytes_of_string r"
  have ty: "ty \<noteq> 0" "ty < 64" by (cases a; simp add: ty_def frame_type_defs)+
  note rd = b [THEN reader_varint_append] reader_prefixed_append [OF bl _ assms(2)]
  have "Parse_switch q (ucast ty) (new_reader (?tail @ rest)) =
      Some (Inr (Frame (ConnectionClose a c t' r), new_reader rest))"
    using assms(1) unfolding ty_def Parse_switch_Close by (simp add: rd) (simp add: t'_def)
  then have "Parse q (ty # ?tail @ rest) = Some (Inr (Some (Frame (ConnectionClose a c t' r)), rest))"
    using ty by (intro Parse_byte) auto
  moreover have "frame_Append q (ConnectionClose a c t r) [] = Some (ty # ?tail)"
    using b by (cases a) (simp_all add: Append_defs put_varint_def ty_def t'_def)
  moreover have "length (ty # ?tail) \<le> 25 + length r" using b [THEN append_length] by simp
  ultimately show ?thesis by (simp add: t'_def)
qed

lemma Datagram_parse:
  assumes "frame_fits q (Datagram d)" "length rest < 2 ^ 63"
  shows "\<exists>enc. frame_Append q (Datagram d) [] = Some enc \<and> length enc = Datagram_Len q d \<and>
    Parse q (enc @ rest) = Some (Inr (Some (Frame (Datagram d)), rest))"
proof -
  obtain bl where b: "vappend q (u64_len d) = Some bl"
    using assms fits_append len_fits [of d] by auto
  let ?enc = "ucast typeDatagramLen # bl @ d"
  have "Parse_switch q (ucast (ucast typeDatagramLen :: byte)) (new_reader (bl @ d @ rest)) =
      Some (Inr (Frame (Datagram d), new_reader rest))"
    using reader_prefixed_append [OF b _ assms(2)] assms(1)
    by (simp add: Parse_switch_types parse_DatagramLen_def)
  then have "Parse q (?enc @ rest) = Some (Inr (Some (Frame (Datagram d)), rest))"
    unfolding append_Cons by (intro Parse_byte) (simp_all add: types_small)
  moreover have "length ?enc = Datagram_Len q d"
    using append_SomeD [OF b] by (simp add: Datagram_Len_def)
  ultimately show ?thesis using b by (simp add: Append_defs put_varint_def)
qed

lemma Ping_parse:
  assumes "frame_fits q (Ping resp n)"
  shows "\<exists>enc. frame_Append q (Ping resp n) [] = Some enc \<and> length enc \<le> 16 \<and>
    Parse q (enc @ rest) = Some (Inr (Some (Frame (Ping resp n)), rest))"
proof -
  define t where "t = (if resp then typePingResponse else typePingRequest)"
  have "t \<le> vmax q" "t \<noteq> 0"
    by (simp_all add: t_def frame_type_defs max_value word_le_nat_alt)
  then obtain bt bn where b: "vappend q t = Some bt" "vappend q n = Some bn"
    using assms fits_append by (auto; meson)
  have "Parse_switch q t (new_reader (bn @ rest)) = Some (Inr (Frame (Ping resp n), new_reader rest))"
    unfolding t_def Parse_switch_Ping by (simp add: b(2) [THEN reader_varint_append])
  then have "Parse q ((bt @ bn) @ rest) = Some (Inr (Some (Frame (Ping resp n)), rest))"
    using Parse_varint [OF b(1) \<open>t \<noteq> 0\<close>] by simp
  moreover have "length (bt @ bn) \<le> 16" using b [THEN append_length] by simp
  ultimately show ?thesis using b by (simp add: Append_defs put_varint_def t_def [symmetric])
qed

lemma TransportParameters_parse:
  assumes "frame_valid q (TransportParameters p)" "length rest < 2 ^ 63"
  shows "\<exists>enc. frame_Append q (TransportParameters p) [] = Some enc \<and> length enc \<le> 232 \<and>
    Parse q (enc @ rest) = Some (Inr (Some (Frame (TransportParameters (params_received p))), rest))"
proof -
  obtain d where d: "params_append q p [] = Some d" "length d \<le> 216"
    "parseParameters q d = Some (Inr (params_received p))"
    using params_roundtrip [of p] assms(1) by auto
  have "typeTransportParameters \<le> vmax q" "typeTransportParameters \<noteq> 0"
    by (simp_all add: frame_type_defs max_value word_le_nat_alt)
  then obtain bt bl where b: "vappend q typeTransportParameters = Some bt"
    "vappend q (u64_len d) = Some bl"
    using d(2) fits_append len_fits [of d] by force
  have "Parse_switch q typeTransportParameters (new_reader (bl @ d @ rest)) =
      Some (Inr (Frame (TransportParameters (params_received p)), new_reader rest))"
    using reader_prefixed_append [OF b(2) _ assms(2)] d
    by (simp add: Parse_switch_types parse_TransportParameters_def)
  then have "Parse q ((bt @ bl @ d) @ rest) =
      Some (Inr (Some (Frame (TransportParameters (params_received p))), rest))"
    using Parse_varint [OF b(1)] by (simp add: frame_type_defs)
  moreover have "length (bt @ bl @ d) \<le> 232" using b [THEN append_length] d(2) by simp
  ultimately show ?thesis using b d by (simp add: Append_defs put_varint_def)
qed

text \<open>Every frame an endpoint may send is read back by the peer, with what follows it in the
  record left over.\<close>

lemma frame_valid_fits: "frame_valid q f \<Longrightarrow> frame_fits q f"
  by (cases f) (auto intro: maxStreams_fits)

lemma frame_roundtrip:
  assumes "frame_valid q f" "length rest < 2 ^ 63"
  shows "\<exists>enc. frame_Append q f [] = Some enc \<and>
    Parse q (enc @ rest) = Some (Inr (Some (Frame (frame_received f)), rest))"
proof (cases f)
  case (ResetStream i c n)
  then show ?thesis using assms ResetStream_parse [of i c n rest] by auto
next
  case (StopSending i c)
  then show ?thesis using assms StopSending_parse [of i c rest] by auto
next
  case (Stream i off d fin)
  then show ?thesis using assms Stream_parse [of i off d fin rest] by auto
next
  case (MaxData m)
  then show ?thesis using assms MaxData_parse [of m rest] by auto
next
  case (MaxStreamData i m)
  then show ?thesis using assms MaxStreamData_parse [of i m rest] by auto
next
  case (MaxStreams u m)
  then show ?thesis using assms MaxStreams_parse [of m u rest] maxStreams_fits by auto
next
  case (ConnectionClose a c t r)
  then show ?thesis using assms ConnectionClose_parse [of a c t r rest] by auto
next
  case (Datagram d)
  then show ?thesis using assms Datagram_parse [of d rest] by auto
next
  case (Ping resp n)
  then show ?thesis using assms Ping_parse [of resp n rest] by auto
next
  case (TransportParameters p)
  then show ?thesis using assms TransportParameters_parse [of p rest] by auto
qed

lemma Parse_padding: "Parse q (replicate k 0 @ b) = Parse q b"
proof -
  have "dropWhile (\<lambda>x. x = 0) (replicate k (0 :: byte) @ b) = dropWhile (\<lambda>x. x = 0) b"
    by (induction k) auto
  then show ?thesis by (simp only: Parse_def)
qed

end

section \<open>What Parse returns\<close>

text \<open>The frames that \<open>Parse\<close> lets through, from a record of \<open>n\<close> bytes.\<close>

fun parsed_ok :: "codec \<Rightarrow> nat \<Rightarrow> any_frame \<Rightarrow> bool" where
  "parsed_ok q n Blocked = True"
| "parsed_ok q n (Frame f) =
    (case f of
       ResetStream i c m \<Rightarrow> i \<le> vmax q \<and> c \<le> vmax q \<and> m \<le> vmax q
     | StopSending i c \<Rightarrow> i \<le> vmax q \<and> c \<le> vmax q
     | Stream i off d fin \<Rightarrow> i \<le> vmax q \<and> off \<le> vmax q \<and> length d \<le> n
     | MaxData m \<Rightarrow> m \<le> vmax q
     | MaxStreamData i m \<Rightarrow> i \<le> vmax q \<and> m \<le> vmax q
     | MaxStreams u m \<Rightarrow> m \<le> maxStreams
     | ConnectionClose a c t r \<Rightarrow> c \<le> vmax q \<and> t \<le> vmax q \<and> length r \<le> n
     | Datagram d \<Rightarrow> length d \<le> n
     | Ping resp m \<Rightarrow> m \<le> vmax q
     | TransportParameters p \<Rightarrow> params_valid q p)"

lemma length_string_of_bytes [simp]: "length (string_of_bytes b) = length b"
  by (simp add: string_of_bytes_def)

text \<open>A property of every branch is a property of the \<open>switch\<close>.\<close>

lemma Parse_switch_rule:
  assumes "Parse_switch q t r = Some res"
    and "P (Inr (parse_ResetStream q r))" "P (Inr (parse_StopSending q r))"
    "P (Inr (parse_Stream q t r))" "P (Inr (parse_MaxData q r))"
    "P (Inr (parse_MaxStreamData q r))" "P (parse_MaxStreams q t r)"
    "P (Inr (parse_DataBlocked q r))" "P (Inr (parse_StreamDataBlocked q r))"
    "P (parse_StreamsBlocked q r)" "P (Inr (parse_ConnectionClose q t r))"
    "P (Inr (parse_Datagram r))" "P (Inr (parse_DatagramLen q r))"
    "\<And>res. parse_TransportParameters q r = Some res \<Longrightarrow> P res" "P (Inr (parse_Ping q t r))"
    "\<And>reason. P (Inl (frameEncodingError reason))"
  shows "P res"
  using assms by (auto simp: Parse_switch_def split: if_splits)

lemma Parse_switch_length:
  "Parse_switch q t r = Some res \<Longrightarrow> (\<forall>f r'. res = Inr (f, r') \<longrightarrow> length (r_b r') \<le> length (r_b r))"
  by (erule Parse_switch_rule)
    (auto simp: parse_case_defs Let_def dest!: reader_lengths
      split: prod.splits if_splits option.splits sum.splits)

lemma Parse_switch_failed:
  "Parse_switch q t r = Some res \<Longrightarrow>
   (\<forall>f r'. res = Inr (f, r') \<longrightarrow> \<not> r_failed r' \<longrightarrow> \<not> r_failed r)"
  by (erule Parse_switch_rule)
    (auto simp: parse_case_defs Let_def dest: reader_failed
      split: prod.splits if_splits option.splits sum.splits)

context quicvarint
begin

lemma Parse_switch_returns: "Parse_switch q t r \<noteq> None"
proof -
  obtain d r' where d: "reader_prefixed q r = (d, r')" by fastforce
  obtain res where "parseParameters q d = Some res" using parseParameters_returns by blast
  with d have "parse_TransportParameters q r \<noteq> None"
    by (auto simp: parse_TransportParameters_def split: sum.split)
  then show ?thesis by (simp add: Parse_switch_def)
qed

lemma Parse_returns: "\<exists>res. Parse q b = Some res"
proof -
  obtain t r where r: "reader_varint q (new_reader (dropWhile (\<lambda>x. x = 0) b)) = (t, r)" by fastforce
  obtain res where "Parse_switch q t r = Some res" using Parse_switch_returns by blast
  with r show ?thesis by (cases res) (auto simp: Parse_def)
qed

lemma parse_Stream_ok: "parsed_ok q (length (r_b r)) (fst (parse_Stream q t r))"
proof -
  obtain i r1 where 1: "reader_varint q r = (i, r1)" by fastforce
  obtain off r2 where 2: "(if t AND streamBitOff \<noteq> 0 then reader_varint q r1 else (0, r1)) = (off, r2)"
    by fastforce
  obtain d r3 where 3: "(if t AND streamBitLen \<noteq> 0 then reader_prefixed q r2 else reader_rest r2) = (d, r3)"
    by fastforce
  have "off \<le> vmax q" "length (r_b r2) \<le> length (r_b r1)"
    using 2 reader_varint_le reader_varint_length by (auto split: if_splits)
  moreover have "length d \<le> length (r_b r2)"
    using 3 reader_prefixed_len reader_rest_len by (auto split: if_splits)
  ultimately show ?thesis
    using reader_varint_le [OF 1] reader_varint_length [OF 1] by (simp add: parse_Stream_def 1 2 3)
qed

lemma parse_ConnectionClose_ok: "parsed_ok q (length (r_b r)) (fst (parse_ConnectionClose q t r))"
proof -
  obtain c r1 where 1: "reader_varint q r = (c, r1)" by fastforce
  obtain ft r2 where 2: "(if t \<noteq> typeApplicationClose then reader_varint q r1 else (0, r1)) = (ft, r2)"
    by fastforce
  obtain d r3 where 3: "reader_prefixed q r2 = (d, r3)" by fastforce
  have "ft \<le> vmax q" "length (r_b r2) \<le> length (r_b r1)"
    using 2 reader_varint_le reader_varint_length by (auto split: if_splits)
  then show ?thesis
    using reader_varint_le [OF 1] reader_varint_length [OF 1] reader_prefixed_len [OF 3]
    by (simp add: parse_ConnectionClose_def 1 2 3)
qed

lemma Parse_switch_ok:
  "Parse_switch q t r = Some res \<Longrightarrow> (\<forall>f r'. res = Inr (f, r') \<longrightarrow> \<not> r_failed r' \<longrightarrow>
     parsed_ok q (length (r_b r)) f)"
proof (erule Parse_switch_rule)
  show "\<forall>f r'. Inr (parse_Stream q t r) = Inr (f, r') \<longrightarrow> \<not> r_failed r' \<longrightarrow>
      parsed_ok q (length (r_b r)) f"
    using parse_Stream_ok [of r t] by auto
  show "\<forall>f r'. Inr (parse_ConnectionClose q t r) = Inr (f, r') \<longrightarrow> \<not> r_failed r' \<longrightarrow>
      parsed_ok q (length (r_b r)) f"
    using parse_ConnectionClose_ok [of r t] by auto
qed (auto simp: parse_case_defs Let_def not_less
    dest: reader_varint_le reader_prefixed_len reader_rest_len parseParameters_valid
    split: prod.splits if_splits option.splits sum.splits)

lemma Parse_switch_code:
  "Parse_switch q t r = Some res \<Longrightarrow>
   (\<forall>e. res = Inl e \<longrightarrow> Code e = FrameEncodingError \<or> Code e = TransportParameterError)"
  by (erule Parse_switch_rule)
    (auto simp: parse_case_defs Let_def frameEncodingError_def dest: parseParameters_code
      split: prod.splits if_splits option.splits sum.splits)

text \<open>What a successful call to \<open>Parse\<close> went through.\<close>

lemma Parse_SomeE:
  assumes "Parse q b = Some (Inr (Some f, rest))"
  obtains b' t r r' where "b' = dropWhile (\<lambda>x. x = 0) b" "b' \<noteq> []"
    "reader_varint q (new_reader b') = (t, r)" "Parse_switch q t r = Some (Inr (f, r'))"
    "\<not> r_failed r'" "rest = r_b r'"
  using assms by (auto simp: Parse_def Let_def split: prod.splits option.splits sum.splits if_splits)

lemma Parse_consumes:
  assumes "Parse q b = Some (Inr (Some f, rest))"
  shows "length rest < length b"
  using assms
proof (rule Parse_SomeE)
  fix b' t r r'
  assume b: "b' = dropWhile (\<lambda>x. x = 0) b" "b' \<noteq> []" "reader_varint q (new_reader b') = (t, r)"
    "Parse_switch q t r = Some (Inr (f, r'))" "\<not> r_failed r'" "rest = r_b r'"
  have "\<not> r_failed r" using Parse_switch_failed [OF b(4)] b(5) by blast
  then have "length (r_b r) < length b'" using reader_varint_consumes [OF b(3)] by simp
  moreover have "length (r_b r') \<le> length (r_b r)" using Parse_switch_length [OF b(4)] by blast
  moreover have "length b' \<le> length b" by (simp add: b(1) length_dropWhile_le)
  ultimately show "length rest < length b" using b(6) by simp
qed

lemma parsed_ok_mono: "parsed_ok q m f \<Longrightarrow> m \<le> n \<Longrightarrow> parsed_ok q n f"
  by (cases f) (auto split: frame.splits)

lemma Parse_ok:
  assumes "Parse q b = Some (Inr (Some f, rest))"
  shows "parsed_ok q (length b) f"
  using assms
proof (rule Parse_SomeE)
  fix b' t r r'
  assume b: "b' = dropWhile (\<lambda>x. x = 0) b" "b' \<noteq> []" "reader_varint q (new_reader b') = (t, r)"
    "Parse_switch q t r = Some (Inr (f, r'))" "\<not> r_failed r'" "rest = r_b r'"
  have "parsed_ok q (length (r_b r)) f" using Parse_switch_ok [OF b(4)] b(5) by blast
  moreover have "length (r_b r) \<le> length b"
    using reader_varint_length [OF b(3)] b(1) length_dropWhile_le [of _ b] by (metis new_reader_simps(1) order_trans)
  ultimately show ?thesis by (rule parsed_ok_mono)
qed

lemma Parse_code:
  "Parse q b = Some (Inl e) \<Longrightarrow> Code e = FrameEncodingError \<or> Code e = TransportParameterError"
  by (auto simp: Parse_def Let_def frameEncodingError_def dest: Parse_switch_code
      split: prod.splits option.splits sum.splits if_splits)

text \<open>When \<open>Append\<close> panics: exactly on a field that is no varint. A slice has fewer than \<open>2 ^ 63\<close>
  bytes.\<close>

lemma params_append_loop_fits:
  "params_append_loop q p ids b = Some b' \<Longrightarrow> pid \<in> set ids \<Longrightarrow> field pid = Some (get, s) \<Longrightarrow> get p \<le> vmax q"
proof (induction ids arbitrary: b)
  case (Cons i ids)
  then obtain b1 where "params_append_one q p i b = Some b1" "params_append_loop q p ids b1 = Some b'"
    by (auto elim: bind_SomeE)
  with Cons show ?case
    by (auto simp: params_append_one_def Let_def dest!: append_SomeD split: if_splits Option.bind_splits)
qed simp

lemma params_append_fits:
  assumes "params_append q p b = Some b'"
  shows "params_fit q p"
proof -
  have "\<forall>pid \<in> set param_order. case field pid of None \<Rightarrow> True | Some (get, s) \<Rightarrow> get p \<le> vmax q"
    using params_append_loop_fits [of p param_order b b'] assms
    by (auto simp: params_append_def split: option.split)
  then show ?thesis by (simp add: params_fit_def param_order_def field_def param_id_defs)
qed

lemma params_append_Some_iff: "(\<exists>b'. params_append q p b = Some b') \<longleftrightarrow> params_fit q p"
  using params_append_fits params_append_loop_parse [of p param_order] param_order_distinct
  by (fastforce simp: params_append_def)

end

fun frame_sized :: "frame \<Rightarrow> bool" where
  "frame_sized (Stream i off d fin) \<longleftrightarrow> length d < 2 ^ 63"
| "frame_sized (ConnectionClose a c t r) \<longleftrightarrow> length r < 2 ^ 63"
| "frame_sized (Datagram d) \<longleftrightarrow> length d < 2 ^ 63"
| "frame_sized f \<longleftrightarrow> True"

context quicvarint
begin

lemma put_varint_Some_iff: "put_varint q i b = Some b' \<longleftrightarrow> i \<le> vmax q \<and> b' = b @ the (vappend q i)"
  using append_Some_iff [of i] by (auto simp: put_varint_def split: Option.bind_splits)

lemma u64_len_fits: "length d < 2 ^ 63 \<Longrightarrow> u64_len d \<le> vmax q \<longleftrightarrow> length d < 2 ^ 62"
  by (simp add: fits_iff u64_len_def unat_of_nat_u64)

lemma frame_Append_Some_iff:
  assumes "frame_sized f"
  shows "(\<exists>b'. frame_Append q f b = Some b') \<longleftrightarrow> frame_fits q f"
proof (cases f)
  case (TransportParameters p)
  have "typeTransportParameters \<le> vmax q" by (simp add: fits_iff typeTransportParameters_def)
  moreover have "u64_len params \<le> vmax q" if "params_append q p [] = Some params" for params
  proof -
    have "params_fit q p" using that params_append_fits by blast
    then obtain enc where "\<And>b. params_append_loop q p param_order b = Some (b @ enc)"
      "length enc \<le> 24 * length param_order"
      using params_append_loop_parse [OF _ subset_refl param_order_distinct] by blast
    then have "length params \<le> 216" using that by (simp add: params_append_def param_order_def)
    then show ?thesis by (simp add: u64_len_fits)
  qed
  ultimately show ?thesis
    using TransportParameters params_append_Some_iff [of p "[]"]
    by (auto simp: TransportParameters_Append_def put_varint_Some_iff Option.bind_eq_Some_conv)
next
  case (Ping resp s)
  have "typePingRequest \<le> vmax q" "typePingResponse \<le> vmax q"
    by (simp_all add: fits_iff typePingRequest_def typePingResponse_def)
  then show ?thesis
    using Ping by (auto simp: Ping_Append_def put_varint_Some_iff Let_def Option.bind_eq_Some_conv)
qed (use assms in \<open>auto simp: Append_defs put_varint_Some_iff Let_def u64_len_fits word_gt_0
    Option.bind_eq_Some_conv\<close>)

end

end
