(* ===== verification/Qmux_Config.thy ===== *)
theory Qmux_Config
  imports Wire_Frames "HOL-Library.Signed_Division"
begin

text \<open>
  The configuration of \<^verbatim>\<open>src/qmux/qmux.go\<close> and the transport parameters an endpoint derives
  from it (\<open>localParameters\<close> of \<^verbatim>\<open>conn.go\<close>). Go's \<open>int64\<close> fields are integers within
  \<open>config_int64\<close>; durations are in nanoseconds; a nil \<open>*Config\<close> is \<open>None\<close>.
\<close>

section \<open>Definitions\<close>

definition millisecond :: int where "millisecond = 1000000"

definition second :: int where "second = 1000 * millisecond"

definition defaultMaxIncomingStreams :: int where "defaultMaxIncomingStreams = 100"

definition defaultMaxIncomingUniStreams :: int where "defaultMaxIncomingUniStreams = 100"

definition defaultStreamReceiveWindow :: u64 where "defaultStreamReceiveWindow = 512 * 1024"

definition defaultConnectionReceiveWindow :: u64 where
  "defaultConnectionReceiveWindow = 1024 * 1024"

definition defaultMaxIdleTimeout :: int where "defaultMaxIdleTimeout = 30 * second"

definition defaultHandshakeIdleTimeout :: int where "defaultHandshakeIdleTimeout = 5 * second"

definition defaultMaxDatagramFrameSize :: u64 where "defaultMaxDatagramFrameSize = 1200"

record Config =
  cf_MaxIncomingStreams :: int
  cf_MaxIncomingUniStreams :: int
  cf_InitialStreamReceiveWindow :: u64
  cf_InitialConnectionReceiveWindow :: u64
  cf_MaxRecordSize :: u64
  cf_KeepAlivePeriod :: int
  cf_HandshakeIdleTimeout :: int
  cf_MaxIdleTimeout :: int
  cf_EnableDatagrams :: bool
  cf_MaxDatagramFrameSize :: u64

definition zero_Config :: Config where
  "zero_Config = \<lparr>cf_MaxIncomingStreams = 0, cf_MaxIncomingUniStreams = 0,
     cf_InitialStreamReceiveWindow = 0, cf_InitialConnectionReceiveWindow = 0,
     cf_MaxRecordSize = 0, cf_KeepAlivePeriod = 0, cf_HandshakeIdleTimeout = 0,
     cf_MaxIdleTimeout = 0, cf_EnableDatagrams = False, cf_MaxDatagramFrameSize = 0\<rparr>"

definition streamLimit :: "int \<Rightarrow> int \<Rightarrow> int" where
  "streamLimit v def = (if v = 0 then def else if v < 0 then 0 else min v (2 ^ 60))"

text \<open>\<open>normalized\<close> in the order of its statements, one definition per group of fields; an assignment
  under an \<open>if\<close> leaves the field as it is where the condition fails.\<close>

definition normalized_streams :: "Config \<Rightarrow> Config" where
  "normalized_streams n = n
     \<lparr>cf_MaxIncomingStreams := streamLimit (cf_MaxIncomingStreams n) defaultMaxIncomingStreams,
      cf_MaxIncomingUniStreams :=
        streamLimit (cf_MaxIncomingUniStreams n) defaultMaxIncomingUniStreams\<rparr>"

definition normalized_sizes :: "codec \<Rightarrow> Config \<Rightarrow> Config" where
  "normalized_sizes q n = n
     \<lparr>cf_InitialStreamReceiveWindow :=
        min (if cf_InitialStreamReceiveWindow n = 0 then defaultStreamReceiveWindow
             else cf_InitialStreamReceiveWindow n) (vmax q),
      cf_InitialConnectionReceiveWindow :=
        min (if cf_InitialConnectionReceiveWindow n = 0 then defaultConnectionReceiveWindow
             else cf_InitialConnectionReceiveWindow n) (vmax q),
      cf_MaxRecordSize := min (max (cf_MaxRecordSize n) (of_nat DefaultMaxRecordSize)) (vmax q)\<rparr>"

definition normalized_timeouts :: "Config \<Rightarrow> Config" where
  "normalized_timeouts n = n
     \<lparr>cf_MaxIdleTimeout :=
        max (if cf_MaxIdleTimeout n = 0 then defaultMaxIdleTimeout else cf_MaxIdleTimeout n) 0,
      cf_HandshakeIdleTimeout :=
        (if cf_HandshakeIdleTimeout n \<le> 0 then defaultHandshakeIdleTimeout
         else cf_HandshakeIdleTimeout n)\<rparr>"

definition normalized_keepalive :: "Config \<Rightarrow> Config" where
  "normalized_keepalive n =
     (if cf_KeepAlivePeriod n > 0 \<and> cf_MaxIdleTimeout n > 0
      then n\<lparr>cf_KeepAlivePeriod := min (cf_KeepAlivePeriod n) (cf_MaxIdleTimeout n sdiv 2)\<rparr>
      else n)"

definition normalized_datagrams :: "Config \<Rightarrow> Config" where
  "normalized_datagrams n = n
     \<lparr>cf_MaxDatagramFrameSize :=
        min (if \<not> cf_EnableDatagrams n then 0
             else if cf_MaxDatagramFrameSize n = 0 then defaultMaxDatagramFrameSize
             else cf_MaxDatagramFrameSize n) (cf_MaxRecordSize n)\<rparr>"

definition normalized :: "codec \<Rightarrow> Config option \<Rightarrow> Config" where
  "normalized q c =
     (let n = (case c of None \<Rightarrow> zero_Config | Some c \<Rightarrow> c)
      in normalized_datagrams (normalized_keepalive (normalized_timeouts
           (normalized_sizes q (normalized_streams n)))))"

definition DefaultConfig :: "codec \<Rightarrow> Config" where
  "DefaultConfig q = normalized q None"

definition Clone :: "Config option \<Rightarrow> Config option" where
  "Clone c = (case c of None \<Rightarrow> None | Some clone \<Rightarrow> Some clone)"

text \<open>\<open>localParameters\<close> of \<^verbatim>\<open>conn.go\<close>.\<close>

definition localParameters :: "Config \<Rightarrow> Parameters" where
  "localParameters c =
     (let p = \<lparr>MaxIdleTimeout = of_int (cf_MaxIdleTimeout c sdiv millisecond),
               InitialMaxData = cf_InitialConnectionReceiveWindow c,
               InitialMaxStreamDataBidiLocal = cf_InitialStreamReceiveWindow c,
               InitialMaxStreamDataBidiRemote = cf_InitialStreamReceiveWindow c,
               InitialMaxStreamDataUni = cf_InitialStreamReceiveWindow c,
               InitialMaxStreamsBidi = of_int (cf_MaxIncomingStreams c),
               InitialMaxStreamsUni = of_int (cf_MaxIncomingUniStreams c),
               MaxDatagramFrameSize = cf_MaxDatagramFrameSize c,
               MaxRecordSize = 0\<rparr>
      in if cf_MaxRecordSize c \<noteq> of_nat DefaultMaxRecordSize
         then p\<lparr>MaxRecordSize := cf_MaxRecordSize c\<rparr> else p)"

section \<open>Well-formed configurations\<close>

text \<open>The signed fields are \<open>int64\<close>.\<close>

definition config_int64 :: "Config \<Rightarrow> bool" where
  "config_int64 c \<longleftrightarrow>
     (\<forall>x \<in> {cf_MaxIncomingStreams c, cf_MaxIncomingUniStreams c, cf_KeepAlivePeriod c,
            cf_HandshakeIdleTimeout c, cf_MaxIdleTimeout c}. - (2 ^ 63) \<le> x \<and> x < 2 ^ 63)"

text \<open>What \<open>normalized\<close> promises: every default filled in, every limit within what the protocol
  allows.\<close>

definition config_ok :: "codec \<Rightarrow> Config \<Rightarrow> bool" where
  "config_ok q c \<longleftrightarrow>
     0 \<le> cf_MaxIncomingStreams c \<and> cf_MaxIncomingStreams c \<le> 2 ^ 60 \<and>
     0 \<le> cf_MaxIncomingUniStreams c \<and> cf_MaxIncomingUniStreams c \<le> 2 ^ 60 \<and>
     0 < cf_InitialStreamReceiveWindow c \<and> cf_InitialStreamReceiveWindow c \<le> vmax q \<and>
     0 < cf_InitialConnectionReceiveWindow c \<and> cf_InitialConnectionReceiveWindow c \<le> vmax q \<and>
     of_nat DefaultMaxRecordSize \<le> cf_MaxRecordSize c \<and> cf_MaxRecordSize c \<le> vmax q \<and>
     0 \<le> cf_MaxIdleTimeout c \<and> cf_MaxIdleTimeout c < 2 ^ 63 \<and> 0 < cf_HandshakeIdleTimeout c \<and>
     (0 < cf_KeepAlivePeriod c \<and> 0 < cf_MaxIdleTimeout c \<longrightarrow>
        2 * cf_KeepAlivePeriod c \<le> cf_MaxIdleTimeout c) \<and>
     (cf_EnableDatagrams c \<longleftrightarrow> 0 < cf_MaxDatagramFrameSize c) \<and>
     cf_MaxDatagramFrameSize c \<le> cf_MaxRecordSize c"

lemma sdiv_nonneg: "0 \<le> a \<Longrightarrow> 0 < b \<Longrightarrow> a sdiv b = a div (b :: int)"
  by (cases "a = 0") (simp_all add: signed_divide_int_def)

lemma streamLimit_range: "0 \<le> def \<Longrightarrow> def \<le> 2 ^ 60 \<Longrightarrow> 0 \<le> streamLimit v def \<and> streamLimit v def \<le> 2 ^ 60"
  by (auto simp: streamLimit_def)

lemmas config_defaults =
  defaultMaxIncomingStreams_def defaultMaxIncomingUniStreams_def defaultStreamReceiveWindow_def
  defaultConnectionReceiveWindow_def defaultMaxIdleTimeout_def defaultHandshakeIdleTimeout_def
  defaultMaxDatagramFrameSize_def second_def millisecond_def

text \<open>Each step leaves the fields it does not name.\<close>

lemma normalized_streams_keeps [simp]:
  "cf_InitialStreamReceiveWindow (normalized_streams n) = cf_InitialStreamReceiveWindow n"
  "cf_InitialConnectionReceiveWindow (normalized_streams n) = cf_InitialConnectionReceiveWindow n"
  "cf_MaxRecordSize (normalized_streams n) = cf_MaxRecordSize n"
  "cf_KeepAlivePeriod (normalized_streams n) = cf_KeepAlivePeriod n"
  "cf_HandshakeIdleTimeout (normalized_streams n) = cf_HandshakeIdleTimeout n"
  "cf_MaxIdleTimeout (normalized_streams n) = cf_MaxIdleTimeout n"
  "cf_EnableDatagrams (normalized_streams n) = cf_EnableDatagrams n"
  "cf_MaxDatagramFrameSize (normalized_streams n) = cf_MaxDatagramFrameSize n"
  by (simp_all add: normalized_streams_def)

lemma normalized_sizes_keeps [simp]:
  "cf_MaxIncomingStreams (normalized_sizes q n) = cf_MaxIncomingStreams n"
  "cf_MaxIncomingUniStreams (normalized_sizes q n) = cf_MaxIncomingUniStreams n"
  "cf_KeepAlivePeriod (normalized_sizes q n) = cf_KeepAlivePeriod n"
  "cf_HandshakeIdleTimeout (normalized_sizes q n) = cf_HandshakeIdleTimeout n"
  "cf_MaxIdleTimeout (normalized_sizes q n) = cf_MaxIdleTimeout n"
  "cf_EnableDatagrams (normalized_sizes q n) = cf_EnableDatagrams n"
  "cf_MaxDatagramFrameSize (normalized_sizes q n) = cf_MaxDatagramFrameSize n"
  by (simp_all add: normalized_sizes_def)

lemma normalized_timeouts_keeps [simp]:
  "cf_MaxIncomingStreams (normalized_timeouts n) = cf_MaxIncomingStreams n"
  "cf_MaxIncomingUniStreams (normalized_timeouts n) = cf_MaxIncomingUniStreams n"
  "cf_InitialStreamReceiveWindow (normalized_timeouts n) = cf_InitialStreamReceiveWindow n"
  "cf_InitialConnectionReceiveWindow (normalized_timeouts n) = cf_InitialConnectionReceiveWindow n"
  "cf_MaxRecordSize (normalized_timeouts n) = cf_MaxRecordSize n"
  "cf_KeepAlivePeriod (normalized_timeouts n) = cf_KeepAlivePeriod n"
  "cf_EnableDatagrams (normalized_timeouts n) = cf_EnableDatagrams n"
  "cf_MaxDatagramFrameSize (normalized_timeouts n) = cf_MaxDatagramFrameSize n"
  by (simp_all add: normalized_timeouts_def)

lemma normalized_keepalive_keeps [simp]:
  "cf_MaxIncomingStreams (normalized_keepalive n) = cf_MaxIncomingStreams n"
  "cf_MaxIncomingUniStreams (normalized_keepalive n) = cf_MaxIncomingUniStreams n"
  "cf_InitialStreamReceiveWindow (normalized_keepalive n) = cf_InitialStreamReceiveWindow n"
  "cf_InitialConnectionReceiveWindow (normalized_keepalive n) = cf_InitialConnectionReceiveWindow n"
  "cf_MaxRecordSize (normalized_keepalive n) = cf_MaxRecordSize n"
  "cf_HandshakeIdleTimeout (normalized_keepalive n) = cf_HandshakeIdleTimeout n"
  "cf_MaxIdleTimeout (normalized_keepalive n) = cf_MaxIdleTimeout n"
  "cf_EnableDatagrams (normalized_keepalive n) = cf_EnableDatagrams n"
  "cf_MaxDatagramFrameSize (normalized_keepalive n) = cf_MaxDatagramFrameSize n"
  by (simp_all add: normalized_keepalive_def)

lemma normalized_datagrams_keeps [simp]:
  "cf_MaxIncomingStreams (normalized_datagrams n) = cf_MaxIncomingStreams n"
  "cf_MaxIncomingUniStreams (normalized_datagrams n) = cf_MaxIncomingUniStreams n"
  "cf_InitialStreamReceiveWindow (normalized_datagrams n) = cf_InitialStreamReceiveWindow n"
  "cf_InitialConnectionReceiveWindow (normalized_datagrams n) = cf_InitialConnectionReceiveWindow n"
  "cf_MaxRecordSize (normalized_datagrams n) = cf_MaxRecordSize n"
  "cf_KeepAlivePeriod (normalized_datagrams n) = cf_KeepAlivePeriod n"
  "cf_HandshakeIdleTimeout (normalized_datagrams n) = cf_HandshakeIdleTimeout n"
  "cf_MaxIdleTimeout (normalized_datagrams n) = cf_MaxIdleTimeout n"
  "cf_EnableDatagrams (normalized_datagrams n) = cf_EnableDatagrams n"
  by (simp_all add: normalized_datagrams_def)

text \<open>The fields of a normalized configuration, one by one.\<close>

lemma normalized_fields:
  assumes "n = (case c of None \<Rightarrow> zero_Config | Some c \<Rightarrow> c)"
  shows "cf_MaxIncomingStreams (normalized q c) =
       streamLimit (cf_MaxIncomingStreams n) defaultMaxIncomingStreams"
    "cf_MaxIncomingUniStreams (normalized q c) =
       streamLimit (cf_MaxIncomingUniStreams n) defaultMaxIncomingUniStreams"
    "cf_InitialStreamReceiveWindow (normalized q c) =
       min (if cf_InitialStreamReceiveWindow n = 0 then defaultStreamReceiveWindow
            else cf_InitialStreamReceiveWindow n) (vmax q)"
    "cf_InitialConnectionReceiveWindow (normalized q c) =
       min (if cf_InitialConnectionReceiveWindow n = 0 then defaultConnectionReceiveWindow
            else cf_InitialConnectionReceiveWindow n) (vmax q)"
    "cf_MaxRecordSize (normalized q c) =
       min (max (cf_MaxRecordSize n) (of_nat DefaultMaxRecordSize)) (vmax q)"
    "cf_MaxIdleTimeout (normalized q c) =
       max (if cf_MaxIdleTimeout n = 0 then defaultMaxIdleTimeout else cf_MaxIdleTimeout n) 0"
    "cf_HandshakeIdleTimeout (normalized q c) =
       (if cf_HandshakeIdleTimeout n \<le> 0 then defaultHandshakeIdleTimeout
        else cf_HandshakeIdleTimeout n)"
    "cf_EnableDatagrams (normalized q c) = cf_EnableDatagrams n"
    "cf_MaxDatagramFrameSize (normalized q c) =
       min (if \<not> cf_EnableDatagrams n then 0
            else if cf_MaxDatagramFrameSize n = 0 then defaultMaxDatagramFrameSize
            else cf_MaxDatagramFrameSize n) (cf_MaxRecordSize (normalized q c))"
    "cf_KeepAlivePeriod (normalized q c) =
       (if cf_KeepAlivePeriod n > 0 \<and> cf_MaxIdleTimeout (normalized q c) > 0
        then min (cf_KeepAlivePeriod n) (cf_MaxIdleTimeout (normalized q c) sdiv 2)
        else cf_KeepAlivePeriod n)"
  unfolding normalized_def Let_def assms [symmetric]
  subgoal by (simp add: normalized_streams_def)
  subgoal by (simp add: normalized_streams_def)
  subgoal by (simp add: normalized_sizes_def)
  subgoal by (simp add: normalized_sizes_def)
  subgoal by (simp add: normalized_sizes_def)
  subgoal by (simp add: normalized_timeouts_def)
  subgoal by (simp add: normalized_timeouts_def)
  subgoal by simp
  subgoal by (subst normalized_datagrams_def) simp
  subgoal by (simp add: normalized_keepalive_def)
  done

lemma normalized_keepalive_half:
  "0 < cf_KeepAlivePeriod (normalized q c) \<Longrightarrow> 0 < cf_MaxIdleTimeout (normalized q c) \<Longrightarrow>
   2 * cf_KeepAlivePeriod (normalized q c) \<le> cf_MaxIdleTimeout (normalized q c)"
  using normalized_fields(10) [OF refl, of q c]
  by (auto simp: sdiv_nonneg split: if_splits)

context quicvarint
begin

lemma normalized_windows:
  "0 < cf_InitialStreamReceiveWindow (normalized q c)"
  "cf_InitialStreamReceiveWindow (normalized q c) \<le> vmax q"
  "0 < cf_InitialConnectionReceiveWindow (normalized q c)"
  "cf_InitialConnectionReceiveWindow (normalized q c) \<le> vmax q"
  "of_nat DefaultMaxRecordSize \<le> cf_MaxRecordSize (normalized q c)"
  "cf_MaxRecordSize (normalized q c) \<le> vmax q"
  unfolding normalized_fields [OF refl]
  by (auto simp: min_def max_def max_value config_defaults DefaultMaxRecordSize_def
      word_le_nat_alt word_less_nat_alt unat_gt_0)

lemma normalized_datagram:
  "cf_EnableDatagrams (normalized q c) \<longleftrightarrow> 0 < cf_MaxDatagramFrameSize (normalized q c)"
  "cf_MaxDatagramFrameSize (normalized q c) \<le> cf_MaxRecordSize (normalized q c)"
proof -
  have "0 < cf_MaxRecordSize (normalized q c)"
    using normalized_windows(5) [of c] by (simp add: DefaultMaxRecordSize_def word_less_nat_alt word_le_nat_alt)
  then show "cf_EnableDatagrams (normalized q c) \<longleftrightarrow> 0 < cf_MaxDatagramFrameSize (normalized q c)"
    unfolding normalized_fields(8,9) [OF refl]
    by (auto simp: min_def defaultMaxDatagramFrameSize_def word_gt_0)
  show "cf_MaxDatagramFrameSize (normalized q c) \<le> cf_MaxRecordSize (normalized q c)"
    unfolding normalized_fields(9) [OF refl] by simp
qed

lemma normalized_config_ok:
  assumes "\<And>c'. c = Some c' \<Longrightarrow> config_int64 c'"
  shows "config_ok q (normalized q c)"
proof -
  define n where "n = (case c of None \<Rightarrow> zero_Config | Some c \<Rightarrow> c)"
  have "cf_MaxIdleTimeout n < 2 ^ 63"
    using assms by (auto simp: n_def zero_Config_def config_int64_def split: option.splits)
  then have "0 \<le> cf_MaxIdleTimeout (normalized q c) \<and> cf_MaxIdleTimeout (normalized q c) < 2 ^ 63"
    by (auto simp: normalized_fields(6) [OF n_def] config_defaults)
  moreover have "0 < cf_HandshakeIdleTimeout (normalized q c)"
    by (simp add: normalized_fields(7) [OF refl] config_defaults)
  moreover have "0 \<le> cf_MaxIncomingStreams (normalized q c) \<and> cf_MaxIncomingStreams (normalized q c) \<le> 2 ^ 60"
    "0 \<le> cf_MaxIncomingUniStreams (normalized q c) \<and> cf_MaxIncomingUniStreams (normalized q c) \<le> 2 ^ 60"
    unfolding normalized_fields(1,2) [OF refl] by (rule streamLimit_range; simp add: config_defaults)+
  ultimately show ?thesis
    unfolding config_ok_def
    using normalized_keepalive_half [of q c] normalized_windows [of c] normalized_datagram [of c] by blast
qed

end

end
