(* ===== verification/Conn_State.thy ===== *)
theory Conn_State
  imports Wire_Frames Qmux_Config Write_Lock
begin

text \<open>The state of a connection and of its streams (\<open>conn.go\<close>, \<open>stream.go\<close>) and the operations
  that the handlers and the application's calls share: signals, stream identifiers, creation and
  completion of a stream, flow control accounting, the control queue. A \<open>*stream\<close> is an index into
  the store \<open>c_objs\<close>, so that a handle the application keeps still refers to the stream after the
  connection has forgotten it. Every operation here runs under the connection's mutex.\<close>

section \<open>Constants\<close>

datatype dir = dirBidi | dirUni

definition maxControlFrameSize :: nat where "maxControlFrameSize = 32"

definition datagramQueueSize :: nat where "datagramQueueSize = 100"

definition maxReasonLength :: nat where
  "maxReasonLength = DefaultMaxRecordSize - maxControlFrameSize"

definition maxIdleTimeout :: int where "maxIdleTimeout = 2 ^ 63 - 1"

definition recordHeadroom :: nat where "recordHeadroom = 8"

definition closeTimeout :: int where "closeTimeout = second"

definition maxStreamData :: nat where
  "maxStreamData = DefaultMaxRecordSize - StreamOverhead"

section \<open>Errors\<close>

text \<open>The values of Go's interface \<open>error\<close> that the package returns. \<open>StreamError\<close> has the stream, the
  code and the flag \<open>Remote\<close>; \<open>Errorf\<close> is an error made by \<open>fmt.Errorf\<close>, with the error it wraps.\<close>

datatype go_error =
    WireError wire_error
  | ApplicationError (err_remote: bool) (err_code: u64) (err_msg: string)
  | TransportError bool u64 u64 string
  | StreamError StreamID u64 bool
  | HandshakeTimeoutError
  | IdleTimeoutError
  | StreamLimitReachedError
  | DatagramTooLargeError int
  | ErrDatagramsNotSupported
  | ErrDeadlineExceeded
  | ContextCanceled
  | IO io_error
  | Errorf string "go_error option"

section \<open>State\<close>

text \<open>A \<open>signal\<close> is its channel, if it has one; channels are numbered in the order they are made.\<close>

type_synonym signal = "nat option"

type_synonym ptr = nat

record outgoing =
  o_next :: u64
  o_max :: u64
  o_signal :: signal

record incoming =
  i_next :: u64
  i_max :: u64
  i_pending :: bool
  i_queue :: "ptr list"
  i_signal :: signal

record stream =
  s_id :: StreamID
  s_cause :: "go_error option"
  s_accepted :: bool
  s_done :: bool
  s_canRecv :: bool
  s_rbuf :: bytes
  s_cap :: nat
  s_roff :: nat
  s_recvOffset :: u64
  s_recvMax :: u64
  s_readOffset :: u64
  s_finRecv :: bool
  s_recvReset :: bool
  s_readCancelled :: bool
  s_recvErr :: "go_error option"
  s_readDeadline :: "int option"
  s_readSignal :: signal
  s_canSend :: bool
  s_urgency :: int
  s_incremental :: bool
  s_sendOffset :: u64
  s_sendMax :: u64
  s_finSent :: bool
  s_sendErr :: "go_error option"
  s_writeDeadline :: "int option"
  s_writeSignal :: signal

record rttStats =
  rtt_min :: int
  rtt_latest :: int
  rtt_smoothed :: int
  rtt_deviation :: int

text \<open>What the connection has done to its transport: the Frames fields of the records that
  \<open>writeRecord\<close> accepted, in order, the deadline set by \<open>expire\<close>, the time at which the timer of
  \<open>closeGracefully\<close> closes it by force, and whether each direction was shut down. How the transport
  answers to a write is a parameter \<open>tw\<close> of the operations, the error or the bytes put on the
  transport, given what was written before and the buffer.\<close>

record transport =
  tr_written :: "bytes list"
  tr_expire :: "int option"
  tr_forced :: "int option"
  tr_closedWrite :: bool
  tr_closed :: bool

type_synonym write_outcome = "bytes list \<Rightarrow> bytes \<Rightarrow> go_error + nat"

text \<open>\<open>c_cause\<close> is the cause of \<open>c.ctx\<close> once it is cancelled, \<open>c_handshake\<close> how often the channel
  \<open>handshake\<close> has been closed (Go panics the second time), \<open>c_controlWake\<close> whether the channel of
  capacity one is full, \<open>c_datagrams\<close> what the channel of datagrams holds. \<open>c_chan\<close> numbers the next
  channel of a signal and \<open>c_closed\<close> holds the ones that were closed.\<close>

record Conn =
  c_tr :: transport
  c_config :: Config
  c_isServer :: bool
  c_cause :: "go_error option"
  c_handshake :: nat
  c_closeErr :: "go_error option"
  c_peer :: Parameters
  c_ready :: bool
  c_streams :: "StreamID \<Rightarrow> ptr option"
  c_objs :: "stream list"
  c_out :: "dir \<Rightarrow> outgoing"
  c_in :: "dir \<Rightarrow> incoming"
  c_sendMax :: u64
  c_sent :: u64
  c_sendSignal :: signal
  c_recvMax :: u64
  c_received :: u64
  c_consumed :: u64
  c_control :: "frame list"
  c_maxDataPending :: bool
  c_pongPending :: bool
  c_pongSequence :: u64
  c_pingPending :: bool
  c_controlWake :: bool
  c_idleTimeout :: int
  c_nextPing :: u64
  c_pingSentAt :: int
  c_pingUnanswered :: bool
  c_pingUnansweredAt :: int
  c_peerPinged :: bool
  c_peerPingLast :: u64
  c_rtt :: rttStats
  c_datagrams :: "bytes list"
  c_lastActivity :: int
  c_bytesSent :: u64
  c_bytesReceived :: u64
  c_recordsSent :: u64
  c_recordsReceived :: u64
  c_chan :: nat
  c_closed :: "nat set"

text \<open>The stream behind a pointer, and an assignment through it.\<close>

abbreviation obj :: "Conn \<Rightarrow> ptr \<Rightarrow> stream" where
  "obj c i \<equiv> c_objs c ! i"

definition upd_obj :: "ptr \<Rightarrow> (stream \<Rightarrow> stream) \<Rightarrow> Conn \<Rightarrow> Conn" where
  "upd_obj i f c = c\<lparr>c_objs := (c_objs c)[i := f (obj c i)]\<rparr>"

definition upd_in :: "dir \<Rightarrow> (incoming \<Rightarrow> incoming) \<Rightarrow> Conn \<Rightarrow> Conn" where
  "upd_in d f c = c\<lparr>c_in := (c_in c)(d := f (c_in c d))\<rparr>"

definition upd_out :: "dir \<Rightarrow> (outgoing \<Rightarrow> outgoing) \<Rightarrow> Conn \<Rightarrow> Conn" where
  "upd_out d f c = c\<lparr>c_out := (c_out c)(d := f (c_out c d))\<rparr>"

section \<open>Signals\<close>

text \<open>\<open>wait\<close> on a signal returns its channel and makes one if there is none; \<open>broadcast\<close> closes it.
  Both are written for the place of the signal in the state.\<close>

definition signal_wait :: "signal \<Rightarrow> Conn \<Rightarrow> nat \<times> Conn" where
  "signal_wait g c = (case g of Some ch \<Rightarrow> (ch, c) | None \<Rightarrow> (c_chan c, c\<lparr>c_chan := Suc (c_chan c)\<rparr>))"

definition signal_broadcast :: "signal \<Rightarrow> Conn \<Rightarrow> Conn" where
  "signal_broadcast g c = (case g of Some ch \<Rightarrow> c\<lparr>c_closed := insert ch (c_closed c)\<rparr> | None \<Rightarrow> c)"

definition read_wait :: "ptr \<Rightarrow> Conn \<Rightarrow> nat \<times> Conn" where
  "read_wait i c =
     (let (ch, c) = signal_wait (s_readSignal (obj c i)) c
      in (ch, upd_obj i (\<lambda>s. s\<lparr>s_readSignal := Some ch\<rparr>) c))"

definition read_broadcast :: "ptr \<Rightarrow> Conn \<Rightarrow> Conn" where
  "read_broadcast i c =
     upd_obj i (\<lambda>s. s\<lparr>s_readSignal := None\<rparr>) (signal_broadcast (s_readSignal (obj c i)) c)"

definition write_wait :: "ptr \<Rightarrow> Conn \<Rightarrow> nat \<times> Conn" where
  "write_wait i c =
     (let (ch, c) = signal_wait (s_writeSignal (obj c i)) c
      in (ch, upd_obj i (\<lambda>s. s\<lparr>s_writeSignal := Some ch\<rparr>) c))"

definition write_broadcast :: "ptr \<Rightarrow> Conn \<Rightarrow> Conn" where
  "write_broadcast i c =
     upd_obj i (\<lambda>s. s\<lparr>s_writeSignal := None\<rparr>) (signal_broadcast (s_writeSignal (obj c i)) c)"

definition send_wait :: "Conn \<Rightarrow> nat \<times> Conn" where
  "send_wait c =
     (let (ch, c) = signal_wait (c_sendSignal c) c in (ch, c\<lparr>c_sendSignal := Some ch\<rparr>))"

definition send_broadcast :: "Conn \<Rightarrow> Conn" where
  "send_broadcast c = (signal_broadcast (c_sendSignal c) c)\<lparr>c_sendSignal := None\<rparr>"

definition out_wait :: "dir \<Rightarrow> Conn \<Rightarrow> nat \<times> Conn" where
  "out_wait d c =
     (let (ch, c) = signal_wait (o_signal (c_out c d)) c
      in (ch, upd_out d (\<lambda>out. out\<lparr>o_signal := Some ch\<rparr>) c))"

definition out_broadcast :: "dir \<Rightarrow> Conn \<Rightarrow> Conn" where
  "out_broadcast d c =
     upd_out d (\<lambda>out. out\<lparr>o_signal := None\<rparr>) (signal_broadcast (o_signal (c_out c d)) c)"

definition in_wait :: "dir \<Rightarrow> Conn \<Rightarrow> nat \<times> Conn" where
  "in_wait d c =
     (let (ch, c) = signal_wait (i_signal (c_in c d)) c
      in (ch, upd_in d (\<lambda>inc. inc\<lparr>i_signal := Some ch\<rparr>) c))"

definition in_broadcast :: "dir \<Rightarrow> Conn \<Rightarrow> Conn" where
  "in_broadcast d c =
     upd_in d (\<lambda>inc. inc\<lparr>i_signal := None\<rparr>) (signal_broadcast (i_signal (c_in c d)) c)"

section \<open>Stream identifiers\<close>

definition streamID_of :: "Conn \<Rightarrow> u64 \<Rightarrow> dir \<Rightarrow> bool \<Rightarrow> StreamID" where
  "streamID_of c index d local =
     (let i = push_bit 2 index;
          i = (if d = dirUni then i OR 0x2 else i)
      in if local = c_isServer c then i OR 0x1 else i)"

definition initiatedLocally :: "Conn \<Rightarrow> StreamID \<Rightarrow> bool" where
  "initiatedLocally c i \<longleftrightarrow> (i AND 0x1 = 0x1) = c_isServer c"

definition streamDir :: "StreamID \<Rightarrow> dir" where
  "streamDir i = (if i AND 0x2 \<noteq> 0 then dirUni else dirBidi)"

section \<open>The control queue\<close>

definition wakeWriter :: "Conn \<Rightarrow> Conn" where
  "wakeWriter c = c\<lparr>c_controlWake := True\<rparr>"

definition queueLocked :: "frame \<Rightarrow> Conn \<Rightarrow> Conn" where
  "queueLocked f c = wakeWriter (c\<lparr>c_control := c_control c @ [f]\<rparr>)"

section \<open>Flow control accounting\<close>

text \<open>\<open>receivedLocked\<close> returns its error with the state.\<close>

definition receivedLocked :: "u64 \<Rightarrow> Conn \<Rightarrow> go_error option \<times> Conn" where
  "receivedLocked n c =
     (if c_received c + n > c_recvMax c
      then (Some (WireError \<lparr>Code = FlowControlError,
              Reason = ''connection flow control limit exceeded''\<rparr>), c)
      else (None, c\<lparr>c_received := c_received c + n\<rparr>))"

definition consumeLocked :: "u64 \<Rightarrow> Conn \<Rightarrow> Conn" where
  "consumeLocked n c =
     (let c = c\<lparr>c_consumed := c_consumed c + n\<rparr>;
          window = cf_InitialConnectionReceiveWindow (c_config c)
      in if c_recvMax c - c_consumed c < window div 2
         then wakeWriter (c\<lparr>c_recvMax := c_consumed c + window, c_maxDataPending := True\<rparr>)
         else c)"

section \<open>Streams\<close>

definition zero_stream :: stream where
  "zero_stream = \<lparr>s_id = 0, s_cause = None, s_accepted = False, s_done = False, s_canRecv = False,
     s_rbuf = [], s_cap = 0, s_roff = 0, s_recvOffset = 0, s_recvMax = 0, s_readOffset = 0,
     s_finRecv = False, s_recvReset = False, s_readCancelled = False, s_recvErr = None,
     s_readDeadline = None, s_readSignal = None, s_canSend = False, s_urgency = 0,
     s_incremental = False, s_sendOffset = 0, s_sendMax = 0, s_finSent = False, s_sendErr = None,
     s_writeDeadline = None, s_writeSignal = None\<rparr>"

text \<open>The stream that \<open>newStreamLocked\<close> makes.\<close>

definition new_stream :: "Conn \<Rightarrow> StreamID \<Rightarrow> stream" where
  "new_stream c i =
     (let local = initiatedLocally c i; uni = (streamDir i = dirUni);
          s = zero_stream\<lparr>s_id := i, s_canRecv := (\<not> uni \<or> \<not> local), s_canSend := (\<not> uni \<or> local)\<rparr>;
          s = (if s_canRecv s
               then s\<lparr>s_recvMax := cf_InitialStreamReceiveWindow (c_config c)\<rparr> else s)
      in if s_canSend s
         then s\<lparr>s_urgency := defaultUrgency, s_incremental := True,
                s_sendMax := (if uni then InitialMaxStreamDataUni (c_peer c)
                              else if local then InitialMaxStreamDataBidiRemote (c_peer c)
                              else InitialMaxStreamDataBidiLocal (c_peer c))\<rparr>
         else s)"

definition newStreamLocked :: "StreamID \<Rightarrow> Conn \<Rightarrow> ptr \<times> Conn" where
  "newStreamLocked i c =
     (let p = length (c_objs c)
      in (p, c\<lparr>c_objs := c_objs c @ [new_stream c i], c_streams := (c_streams c)(i \<mapsto> p)\<rparr>))"

text \<open>\<open>bufferLocked\<close>. How far \<open>append\<close> grows a slice of capacity \<open>k\<close> to hold \<open>n\<close> bytes is up to the
  Go runtime: \<open>grow k n\<close>.\<close>

definition bufferLocked :: "(nat \<Rightarrow> nat \<Rightarrow> nat) \<Rightarrow> bytes \<Rightarrow> stream \<Rightarrow> stream" where
  "bufferLocked grow p s =
     (let s = (if s_roff s > 0 \<and> length (s_rbuf s) + length p > s_cap s
               then s\<lparr>s_rbuf := drop (s_roff s) (s_rbuf s), s_roff := 0\<rparr> else s);
          n = length (s_rbuf s) + length p
      in s\<lparr>s_rbuf := s_rbuf s @ p, s_cap := (if n \<le> s_cap s then s_cap s else grow (s_cap s) n)\<rparr>)"

definition recvDone :: "stream \<Rightarrow> bool" where
  "recvDone s =
     (if \<not> s_canRecv s \<or> s_recvReset s then True
      else s_finRecv s \<and> (s_readCancelled s \<or> s_roff s = length (s_rbuf s)))"

definition sendDone :: "stream \<Rightarrow> bool" where
  "sendDone s \<longleftrightarrow> \<not> s_canSend s \<or> s_finSent s \<or> s_sendErr s \<noteq> None"

text \<open>\<open>s.cancel(cause)\<close>, where nil stands for \<open>context.Canceled\<close>: the first call counts.\<close>

definition stream_cancel :: "go_error option \<Rightarrow> stream \<Rightarrow> stream" where
  "stream_cancel cause s =
     (if s_cause s = None
      then s\<lparr>s_cause := Some (case cause of None \<Rightarrow> ContextCanceled | Some e \<Rightarrow> e)\<rparr> else s)"

definition completeLocked :: "ptr \<Rightarrow> Conn \<Rightarrow> Conn" where
  "completeLocked i c =
     (let s = obj c i
      in if s_done s \<or> \<not> s_accepted s \<or> \<not> recvDone s \<or> \<not> sendDone s then c
         else
           let c = upd_obj i (\<lambda>s. s\<lparr>s_done := True, s_rbuf := [], s_cap := 0\<rparr>) c;
               c = c\<lparr>c_streams := (c_streams c)(s_id s := None)\<rparr>
           in if \<not> initiatedLocally c (s_id s)
              then wakeWriter (upd_in (streamDir (s_id s))
                     (\<lambda>inc. inc\<lparr>i_max := i_max inc + 1, i_pending := True\<rparr>) c)
              else c)"

section \<open>Ending the connection\<close>

text \<open>\<open>terminate\<close>. Go visits the map of streams in no fixed order; the result does not depend on it,
  and the model takes the order of creation.\<close>

definition open_ptrs :: "Conn \<Rightarrow> ptr list" where
  "open_ptrs c = filter (\<lambda>i. c_streams c (s_id (obj c i)) = Some i) [0..<length (c_objs c)]"

definition terminate :: "go_error \<Rightarrow> Conn \<Rightarrow> bool \<times> Conn" where
  "terminate err c =
     (if c_closeErr c \<noteq> None then (False, c)
      else
        let c = c\<lparr>c_closeErr := Some err\<rparr>;
            c = (if c_cause c = None then c\<lparr>c_cause := Some err\<rparr> else c);
            c = (if \<not> c_ready c then c\<lparr>c_handshake := Suc (c_handshake c)\<rparr> else c);
            c = send_broadcast c;
            c = in_broadcast dirBidi (out_broadcast dirBidi c);
            c = in_broadcast dirUni (out_broadcast dirUni c);
            c = fold (\<lambda>i c. write_broadcast i (read_broadcast i c)) (open_ptrs c) c
        in (True, c\<lparr>c_streams := Map.empty\<rparr>))"

definition tr_close :: "Conn \<Rightarrow> Conn" where
  "tr_close c = c\<lparr>c_tr := (c_tr c)\<lparr>tr_closed := True\<rparr>\<rparr>"

definition abort :: "go_error \<Rightarrow> Conn \<Rightarrow> Conn" where
  "abort err c = (case terminate err c of (True, c) \<Rightarrow> tr_close c | (False, c) \<Rightarrow> c)"

section \<open>Writing records\<close>

definition touch :: "int \<Rightarrow> Conn \<Rightarrow> Conn" where
  "touch now c = c\<lparr>c_lastActivity := now\<rparr>"

definition writeRecordLocked ::
  "write_outcome \<Rightarrow> int \<Rightarrow> bytes \<Rightarrow> Conn \<Rightarrow> go_error option \<times> Conn" where
  "writeRecordLocked tw now buf c =
     (case tw (tr_written (c_tr c)) buf of
        Inl err \<Rightarrow> (Some err, c)
      | Inr n \<Rightarrow>
        let c = c\<lparr>c_tr := (c_tr c)\<lparr>tr_written := tr_written (c_tr c) @ [drop recordHeadroom buf]\<rparr>\<rparr>;
            c = c\<lparr>c_bytesSent := c_bytesSent c + of_nat n\<rparr>;
            c = c\<lparr>c_recordsSent := c_recordsSent c + 1\<rparr>
        in (None, touch now c))"

text \<open>The frames of a record, appended to a buffer; \<open>None\<close> is a panic of an \<open>Append\<close>.\<close>

fun frames_Append :: "codec \<Rightarrow> frame list \<Rightarrow> bytes \<Rightarrow> bytes option" where
  "frames_Append q [] buf = Some buf"
| "frames_Append q (f # fs) buf = Option.bind (frame_Append q f buf) (frames_Append q fs)"

text \<open>The start of a record: room for the Size field. What it holds is left over from an earlier
  record, and never read.\<close>

definition new_record :: bytes where
  "new_record = replicate recordHeadroom 0"

definition writeFramesLocked ::
  "codec \<Rightarrow> write_outcome \<Rightarrow> int \<Rightarrow> frame list \<Rightarrow> Conn \<Rightarrow> (go_error option \<times> Conn) option" where
  "writeFramesLocked q tw now fs c = do {
     buf \<leftarrow> frames_Append q fs new_record;
     Some (writeRecordLocked tw now buf c)
   }"

definition sendParameters ::
  "codec \<Rightarrow> write_outcome \<Rightarrow> int \<Rightarrow> Conn \<Rightarrow> (go_error option \<times> Conn) option" where
  "sendParameters q tw now c =
     writeFramesLocked q tw now [TransportParameters (localParameters (c_config c))] c"

definition take_flag :: "bool \<Rightarrow> frame \<Rightarrow> frame list" where
  "take_flag pending f = (if pending then [f] else [])"

definition takeControl :: "int \<Rightarrow> Conn \<Rightarrow> frame list \<times> Conn" where
  "takeControl now c =
     (if c_closeErr c \<noteq> None then ([], c)
      else
        let frames = c_control c
              @ take_flag (c_maxDataPending c) (MaxData (c_recvMax c))
              @ take_flag (i_pending (c_in c dirBidi)) (MaxStreams False (i_max (c_in c dirBidi)))
              @ take_flag (i_pending (c_in c dirUni)) (MaxStreams True (i_max (c_in c dirUni)))
              @ take_flag (c_pongPending c) (Ping True (c_pongSequence c))
              @ take_flag (c_pingPending c) (Ping False (c_nextPing c));
            ping = c_pingPending c;
            c = c\<lparr>c_control := [], c_maxDataPending := False, c_pongPending := False,
                  c_pingPending := False\<rparr>;
            c = upd_in dirBidi (\<lambda>inc. inc\<lparr>i_pending := False\<rparr>) c;
            c = upd_in dirUni (\<lambda>inc. inc\<lparr>i_pending := False\<rparr>) c;
            c = (if ping
                 then let c = c\<lparr>c_nextPing := c_nextPing c + 1, c_pingSentAt := now\<rparr>
                      in if \<not> c_pingUnanswered c
                         then c\<lparr>c_pingUnanswered := True, c_pingUnansweredAt := c_pingSentAt c\<rparr>
                         else c
                 else c)
        in (frames, c))"

text \<open>The loop of \<open>flushControl\<close> over the frames it took.\<close>

definition full :: nat where
  "full = recordHeadroom + DefaultMaxRecordSize - maxControlFrameSize"

fun flush_loop ::
  "codec \<Rightarrow> write_outcome \<Rightarrow> int \<Rightarrow> frame list \<Rightarrow> bytes \<Rightarrow> Conn \<Rightarrow> (go_error option \<times> Conn) option"
where
  "flush_loop q tw now [] buf c =
     Some (if length buf = recordHeadroom then (None, c) else writeRecordLocked tw now buf c)"
| "flush_loop q tw now (f # fs) buf c = do {
     buf \<leftarrow> frame_Append q f buf;
     (if length buf > full
      then case writeRecordLocked tw now buf c of
             (Some err, c) \<Rightarrow> Some (Some err, c)
           | (None, c) \<Rightarrow> flush_loop q tw now fs new_record c
      else flush_loop q tw now fs buf c)
   }"

definition flushControl ::
  "codec \<Rightarrow> write_outcome \<Rightarrow> int \<Rightarrow> Conn \<Rightarrow> (go_error option \<times> Conn) option" where
  "flushControl q tw now c =
     (let (frames, c) = takeControl now c in flush_loop q tw now frames new_record c)"

text \<open>\<open>closeGracefully\<close>; \<open>cw\<close> is what the transport's \<open>closeWrite\<close> reports.\<close>

definition closeGracefully ::
  "codec \<Rightarrow> write_outcome \<Rightarrow> bool \<Rightarrow> int \<Rightarrow> go_error \<Rightarrow> frame option \<Rightarrow> Conn \<Rightarrow> Conn option" where
  "closeGracefully q tw cw now err fr c =
     (case terminate err c of
        (False, c) \<Rightarrow> Some c
      | (True, c) \<Rightarrow>
        let c = c\<lparr>c_tr := (c_tr c)\<lparr>tr_expire := Some (now + closeTimeout)\<rparr>\<rparr>;
            c = c\<lparr>c_tr := (c_tr c)\<lparr>tr_forced := Some (now + closeTimeout)\<rparr>\<rparr>
        in do {
             (werr, c) \<leftarrow> (case fr of None \<Rightarrow> Some (None, c) | Some f \<Rightarrow> writeFramesLocked q tw now [f] c);
             Some (if werr \<noteq> None
                   then tr_close (c\<lparr>c_tr := (c_tr c)\<lparr>tr_forced := None\<rparr>\<rparr>)
                   else let c = c\<lparr>c_tr := (c_tr c)\<lparr>tr_closedWrite := cw\<rparr>\<rparr>
                        in if \<not> cw then tr_close (c\<lparr>c_tr := (c_tr c)\<lparr>tr_forced := None\<rparr>\<rparr>) else c)
           })"

definition closeWithTransportError ::
  "codec \<Rightarrow> write_outcome \<Rightarrow> bool \<Rightarrow> int \<Rightarrow> wire_error \<Rightarrow> Conn \<Rightarrow> Conn option" where
  "closeWithTransportError q tw cw now e c =
     (let reason = take (min (length (Reason e)) maxReasonLength) (Reason e)
      in closeGracefully q tw cw now (TransportError False (Code e) 0 reason)
           (Some (ConnectionClose False (Code e) 0 reason)) c)"

definition CloseWithError ::
  "codec \<Rightarrow> write_outcome \<Rightarrow> bool \<Rightarrow> int \<Rightarrow> u64 \<Rightarrow> string \<Rightarrow> Conn \<Rightarrow> Conn option" where
  "CloseWithError q tw cw now code msg c =
     (let msg = take (min (length msg) maxReasonLength) msg
      in closeGracefully q tw cw now (ApplicationError False code msg)
           (Some (ConnectionClose True code 0 msg)) c)"

definition Close :: "codec \<Rightarrow> write_outcome \<Rightarrow> bool \<Rightarrow> int \<Rightarrow> Conn \<Rightarrow> Conn option" where
  "Close q tw cw now c = CloseWithError q tw cw now 0 [] c"

end
