(* ===== verification/Stream_Ops.thy ===== *)
theory Stream_Ops
  imports Conn_State
begin

text \<open>The operations of a stream (\<open>stream.go\<close>): reading, peeking, cancelling, sending under flow
  control, finishing and resetting. An operation that takes the connection's mutex is one
  definition. A call that waits is a loop of attempts; between two of them the rest of the program
  changes the connection, which is given as the list of the changes, with the time and the outcome
  of the wait. A call whose list runs out is still waiting (\<open>None\<close>).\<close>

section \<open>Waiting\<close>

text \<open>One round of a waiting call: the time at which the wait starts, whether the deadline passes
  before a channel is closed, and what happens to the connection meanwhile.\<close>

record round =
  r_now :: int
  r_expired :: bool
  r_change :: "Conn \<Rightarrow> Conn"

definition wait :: "int option \<Rightarrow> round \<Rightarrow> go_error option" where
  "wait deadline r =
     (case deadline of
        None \<Rightarrow> None
      | Some t \<Rightarrow> if t - r_now r \<le> 0 then Some ErrDeadlineExceeded
                  else if r_expired r then Some ErrDeadlineExceeded else None)"

section \<open>Reading\<close>

text \<open>The results of an attempt: the bytes copied, a channel to wait on with the deadline, or an
  error.\<close>

datatype try_read = Copied bytes | Wait nat "int option" | Fails go_error

definition readLocked :: "ptr \<Rightarrow> u64 \<Rightarrow> Conn \<Rightarrow> Conn" where
  "readLocked i n c =
     (let c = upd_obj i (\<lambda>s. s\<lparr>s_readOffset := s_readOffset s + n\<rparr>) c;
          c = consumeLocked n c;
          window = cf_InitialStreamReceiveWindow (c_config c);
          s = obj c i
      in if \<not> s_finRecv s \<and> s_recvMax s - s_readOffset s < window div 2
         then let c = upd_obj i (\<lambda>s. s\<lparr>s_recvMax := s_readOffset s + window\<rparr>) c
              in queueLocked (MaxStreamData (s_id s) (s_recvMax (obj c i))) c
         else c)"

text \<open>\<open>k\<close> is the length of the caller's slice.\<close>

definition take_unread :: "nat \<Rightarrow> stream \<Rightarrow> stream" where
  "take_unread n s =
     (let s = s\<lparr>s_roff := s_roff s + n\<rparr>
      in if s_roff s = length (s_rbuf s) then s\<lparr>s_rbuf := [], s_roff := 0\<rparr> else s)"

definition tryRead :: "ptr \<Rightarrow> nat \<Rightarrow> Conn \<Rightarrow> try_read \<times> Conn" where
  "tryRead i k c =
     (let s = obj c i
      in case c_closeErr c of Some e \<Rightarrow> (Fails e, c)
       | None \<Rightarrow>
         case s_recvErr s of Some e \<Rightarrow> (Fails e, c)
         | None \<Rightarrow>
           if s_roff s < length (s_rbuf s)
           then let d = take k (drop (s_roff s) (s_rbuf s));
                    c = upd_obj i (take_unread (length d)) c;
                    c = readLocked i (u64_len d) c
                in (Copied d, completeLocked i c)
           else if s_finRecv s then (Fails (IO EOF), c)
           else let (ch, c) = read_wait i c in (Wait ch (s_readDeadline s), c))"

fun read :: "ptr \<Rightarrow> nat \<Rightarrow> round list \<Rightarrow> Conn \<Rightarrow> ((go_error + bytes) \<times> Conn) option" where
  "read i k rs c =
     (case tryRead i k c of
        (Fails e, c) \<Rightarrow> Some (Inl e, c)
      | (Copied d, c) \<Rightarrow> Some (Inr d, c)
      | (Wait ch deadline, c) \<Rightarrow>
        if k = 0 then Some (Inr [], c)
        else case rs of [] \<Rightarrow> None
             | r # rs \<Rightarrow>
               (case wait deadline r of Some e \<Rightarrow> Some (Inl e, c)
                | None \<Rightarrow> read i k rs (r_change r c)))"

text \<open>An attempt to peek returns the bytes with an error or nil, or waits.\<close>

datatype try_peek = Peeked bytes "go_error option" | PeekWait nat "int option"

definition tryPeek :: "ptr \<Rightarrow> nat \<Rightarrow> Conn \<Rightarrow> try_peek \<times> Conn" where
  "tryPeek i k c =
     (let s = obj c i
      in case c_closeErr c of Some e \<Rightarrow> (Peeked [] (Some e), c)
       | None \<Rightarrow>
         case s_recvErr s of Some e \<Rightarrow> (Peeked [] (Some e), c)
         | None \<Rightarrow>
           let unread = drop (s_roff s) (s_rbuf s)
           in if length unread \<ge> k then (Peeked (take k unread) None, c)
              else if s_finRecv s then (Peeked (take k unread) (Some (IO EOF)), c)
              else let (ch, c) = read_wait i c in (PeekWait ch (s_readDeadline s), c))"

fun peek_loop :: "ptr \<Rightarrow> nat \<Rightarrow> round list \<Rightarrow> Conn \<Rightarrow> ((bytes \<times> go_error option) \<times> Conn) option" where
  "peek_loop i k rs c =
     (case tryPeek i k c of
        (Peeked d e, c) \<Rightarrow> Some ((d, e), c)
      | (PeekWait ch deadline, c) \<Rightarrow>
        case rs of [] \<Rightarrow> None
        | r # rs \<Rightarrow>
          (case wait deadline r of Some e \<Rightarrow> Some (([], Some e), c)
           | None \<Rightarrow> peek_loop i k rs (r_change r c)))"

definition peek :: "ptr \<Rightarrow> nat \<Rightarrow> round list \<Rightarrow> Conn \<Rightarrow> ((bytes \<times> go_error option) \<times> Conn) option" where
  "peek i k rs c =
     (let window = cf_InitialStreamReceiveWindow (c_config c)
      in if of_nat k > window
         then Some (([], Some (Errorf (''qmux: peek of '' @ show_dec (of_nat k) @
                '' bytes exceeds the stream window of '' @ show_dec window) None)), c)
         else peek_loop i k rs c)"

definition cancelRead :: "ptr \<Rightarrow> u64 \<Rightarrow> Conn \<Rightarrow> Conn" where
  "cancelRead i code c =
     (let s = obj c i
      in if c_closeErr c \<noteq> None \<or> s_recvErr s \<noteq> None \<or> recvDone s then c
         else
           let c = upd_obj i (\<lambda>s. s\<lparr>s_readCancelled := True,
                     s_recvErr := Some (StreamError (s_id s) code False)\<rparr>) c;
               c = consumeLocked (of_nat (length (s_rbuf s) - s_roff s)) c;
               c = upd_obj i (\<lambda>s. s\<lparr>s_rbuf := [], s_cap := 0, s_roff := 0\<rparr>) c;
               c = (if \<not> s_finRecv s then queueLocked (StopSending (s_id s) code) c else c);
               c = read_broadcast i c
           in completeLocked i c)"

definition setReadDeadline :: "ptr \<Rightarrow> int option \<Rightarrow> Conn \<Rightarrow> Conn" where
  "setReadDeadline i t c = read_broadcast i (upd_obj i (\<lambda>s. s\<lparr>s_readDeadline := t\<rparr>) c)"

section \<open>Sending\<close>

definition sendErrLocked :: "ptr \<Rightarrow> Conn \<Rightarrow> go_error option" where
  "sendErrLocked i c =
     (let s = obj c i
      in if c_closeErr c \<noteq> None then c_closeErr c
         else if s_sendErr s \<noteq> None then s_sendErr s
         else if s_finSent s
         then Some (Errorf (''qmux: write on closed stream '' @ show_dec (s_id s)) None)
         else None)"

definition sendCreditLocked :: "ptr \<Rightarrow> Conn \<Rightarrow> u64" where
  "sendCreditLocked i c =
     (let s = obj c i
      in if s_sendMax s \<le> s_sendOffset s \<or> c_sendMax c \<le> c_sent c then 0
         else min (s_sendMax s - s_sendOffset s) (c_sendMax c - c_sent c))"

text \<open>An attempt to send has credit, waits on the channels of the stream and of the connection, or
  fails.\<close>

datatype try_send = Credit | SendWait nat nat "int option" | SendFails go_error

definition trySend :: "int \<Rightarrow> ptr \<Rightarrow> Conn \<Rightarrow> try_send \<times> Conn" where
  "trySend now i c =
     (let s = obj c i
      in case sendErrLocked i c of Some e \<Rightarrow> (SendFails e, c)
       | None \<Rightarrow>
         if (case s_writeDeadline s of None \<Rightarrow> False | Some t \<Rightarrow> \<not> now < t)
         then (SendFails ErrDeadlineExceeded, c)
         else if sendCreditLocked i c > 0 then (Credit, c)
         else let (wake, c) = write_wait i c; (connWake, c) = send_wait c
              in (SendWait wake connWake (s_writeDeadline s), c))"

fun waitSendCredit :: "int \<Rightarrow> ptr \<Rightarrow> round list \<Rightarrow> Conn \<Rightarrow> (go_error option \<times> round list \<times> Conn) option"
where
  "waitSendCredit now i rs c =
     (case trySend now i c of
        (Credit, c) \<Rightarrow> Some (None, rs, c)
      | (SendFails e, c) \<Rightarrow> Some (Some e, rs, c)
      | (SendWait wake connWake deadline, c) \<Rightarrow>
        case rs of [] \<Rightarrow> None
        | r # rs \<Rightarrow>
          (case wait deadline r of Some e \<Rightarrow> Some (Some e, rs, c)
           | None \<Rightarrow> waitSendCredit (r_now r) i rs (r_change r c)))"

text \<open>\<open>reserve\<close> returns an error, or the offset and the number of bytes.\<close>

definition reserve :: "ptr \<Rightarrow> nat \<Rightarrow> Conn \<Rightarrow> (go_error + u64 \<times> nat) \<times> Conn" where
  "reserve i n c =
     (case sendErrLocked i c of
        Some e \<Rightarrow> (Inl e, c)
      | None \<Rightarrow>
        let reserved = unat (min (min (of_nat n) (of_nat maxStreamData)) (sendCreditLocked i c));
            offset = s_sendOffset (obj c i);
            c = upd_obj i (\<lambda>s. s\<lparr>s_sendOffset := s_sendOffset s + of_nat reserved\<rparr>) c;
            c = c\<lparr>c_sent := c_sent c + of_nat reserved\<rparr>
        in (Inr (offset, reserved), c))"

definition setPriority :: "ptr \<Rightarrow> int \<Rightarrow> bool \<Rightarrow> Conn \<Rightarrow> Conn" where
  "setPriority i u inc c =
     upd_obj i (\<lambda>s. s\<lparr>s_urgency := min (max u 0) maxUrgency, s_incremental := inc\<rparr>) c"

definition stream_priority_of :: "ptr \<Rightarrow> Conn \<Rightarrow> priority" where
  "stream_priority_of i c =
     \<lparr>urgency = s_urgency (obj c i), incremental = s_incremental (obj c i), streamID = s_id (obj c i)\<rparr>"

text \<open>\<open>writeChunk\<close> and \<open>closeSend\<close> while they hold \<open>writeMu\<close>. \<open>writeChunk\<close> returns the bytes sent with
  an error or nil.\<close>

definition write_failed :: "go_error \<Rightarrow> go_error" where
  "write_failed e = Errorf ''qmux: write to transport: '' (Some e)"

definition writeChunk ::
  "codec \<Rightarrow> write_outcome \<Rightarrow> int \<Rightarrow> ptr \<Rightarrow> bytes \<Rightarrow> Conn \<Rightarrow> ((nat \<times> go_error option) \<times> Conn) option" where
  "writeChunk q tw now i p c =
     (case reserve i (length p) c of
        (Inl e, c) \<Rightarrow> Some ((0, Some e), c)
      | (Inr (offset, n), c) \<Rightarrow>
        if n = 0 then Some ((0, None), c)
        else do {
          (err, c) \<leftarrow> writeFramesLocked q tw now [Stream (s_id (obj c i)) offset (take n p) False] c;
          Some (case err of
                  Some e \<Rightarrow> let c = abort (write_failed e) c in ((0, c_cause c), c)
                | None \<Rightarrow> ((n, None), c))
        })"

text \<open>\<open>write\<close>: each round of the loop waits for credit, takes the write lock and sends a chunk. \<open>steps\<close>
  holds, for each round, the time and the rounds of the wait for credit, and what happens to the
  connection before the lock is granted.\<close>

record write_step =
  ws_now :: int
  ws_rounds :: "round list"
  ws_change :: "Conn \<Rightarrow> Conn"

fun write_loop ::
  "codec \<Rightarrow> write_outcome \<Rightarrow> ptr \<Rightarrow> bytes \<Rightarrow> nat \<Rightarrow> write_step list \<Rightarrow> Conn \<Rightarrow>
   ((nat \<times> go_error option) \<times> Conn) option"
where
  "write_loop q tw i p sofar steps c =
     (if sofar \<ge> length p then Some ((sofar, None), c)
      else case steps of
        [] \<Rightarrow> None
      | w # steps \<Rightarrow>
        (case waitSendCredit (ws_now w) i (ws_rounds w) c of
           None \<Rightarrow> None
         | Some (Some e, _, c) \<Rightarrow> Some ((sofar, Some e), c)
         | Some (None, _, c) \<Rightarrow>
           (case writeChunk q tw (ws_now w) i (drop sofar p) (ws_change w c) of
              None \<Rightarrow> None
            | Some ((n, Some e), c) \<Rightarrow> Some ((sofar + n, Some e), c)
            | Some ((n, None), c) \<Rightarrow> write_loop q tw i p (sofar + n) steps c)))"

definition stream_write ::
  "codec \<Rightarrow> write_outcome \<Rightarrow> ptr \<Rightarrow> bytes \<Rightarrow> write_step list \<Rightarrow> Conn \<Rightarrow>
   ((nat \<times> go_error option) \<times> Conn) option" where
  "stream_write q tw i p steps c = write_loop q tw i p 0 steps c"

text \<open>\<open>finish\<close> returns an error, nothing to do (\<open>None\<close>), or the final size.\<close>

definition finish :: "ptr \<Rightarrow> Conn \<Rightarrow> (go_error + u64 option) \<times> Conn" where
  "finish i c =
     (let s = obj c i
      in case c_closeErr c of Some e \<Rightarrow> (Inl e, c)
       | None \<Rightarrow>
         if s_finSent s \<or> s_sendErr s \<noteq> None then (Inr None, c)
         else let c = upd_obj i (\<lambda>s. stream_cancel None (s\<lparr>s_finSent := True\<rparr>)) c;
                  c = write_broadcast i c;
                  c = completeLocked i c
              in (Inr (Some (s_sendOffset (obj c i))), c))"

definition closeSend ::
  "codec \<Rightarrow> write_outcome \<Rightarrow> int \<Rightarrow> ptr \<Rightarrow> Conn \<Rightarrow> (go_error option \<times> Conn) option" where
  "closeSend q tw now i c =
     (case finish i c of
        (Inl e, c) \<Rightarrow> Some (Some e, c)
      | (Inr None, c) \<Rightarrow> Some (None, c)
      | (Inr (Some finalSize), c) \<Rightarrow> do {
          (err, c) \<leftarrow> writeFramesLocked q tw now [Stream (s_id (obj c i)) finalSize [] True] c;
          Some (case err of
                  Some e \<Rightarrow> let c = abort (write_failed e) c in (c_cause c, c)
                | None \<Rightarrow> (None, c))
        })"

definition resetSendLocked :: "ptr \<Rightarrow> u64 \<Rightarrow> bool \<Rightarrow> Conn \<Rightarrow> Conn" where
  "resetSendLocked i code remote c =
     (let s = obj c i; reason = StreamError (s_id s) code remote
      in if sendDone s then c
         else
           let c = upd_obj i (\<lambda>s. stream_cancel (Some reason) (s\<lparr>s_sendErr := Some reason\<rparr>)) c;
               c = queueLocked (ResetStream (s_id s) code (s_sendOffset s)) c;
               c = write_broadcast i c
           in completeLocked i c)"

definition cancelWrite :: "ptr \<Rightarrow> u64 \<Rightarrow> Conn \<Rightarrow> Conn" where
  "cancelWrite i code c = (if c_closeErr c \<noteq> None then c else resetSendLocked i code False c)"

definition stopSendingLocked :: "ptr \<Rightarrow> u64 \<Rightarrow> Conn \<Rightarrow> Conn" where
  "stopSendingLocked i code c = resetSendLocked i code True c"

definition setWriteDeadline :: "ptr \<Rightarrow> int option \<Rightarrow> Conn \<Rightarrow> Conn" where
  "setWriteDeadline i t c = write_broadcast i (upd_obj i (\<lambda>s. s\<lparr>s_writeDeadline := t\<rparr>) c)"

end
