(* ===== verification/Conn_Handlers.thy ===== *)
theory Conn_Handlers
  imports Stream_Ops
begin

text \<open>The frames a connection receives (\<open>conn.go\<close>, \<open>handleRecord\<close> and what it calls), and the
  operations of the application on the connection: opening and accepting streams, datagrams, pings,
  the start of a connection.\<close>

section \<open>Streams that frames refer to\<close>

text \<open>The loop of \<open>streamLocked\<close> that opens a peer's stream with every lower-numbered one. The index
  is \<open>rawID >> 2\<close>, below \<open>2 ^ 62\<close>, so the counter does not wrap and the loop ends.\<close>

definition open_next :: "dir \<Rightarrow> Conn \<Rightarrow> Conn" where
  "open_next d c =
     (let (p, c) = newStreamLocked (streamID_of c (i_next (c_in c d)) d False) c;
          c = upd_in d (\<lambda>inc. inc\<lparr>i_queue := i_queue inc @ [p], i_next := i_next inc + 1\<rparr>) c
      in in_broadcast d c)"

lemma open_next_i_next: "i_next (c_in (open_next d c) d) = i_next (c_in c d) + 1"
  by (simp add: open_next_def newStreamLocked_def upd_in_def in_broadcast_def signal_broadcast_def
      Let_def split: option.split)

lemma drop_bit_u64_lt: "unat (drop_bit 2 (w :: u64)) < 2 ^ 62"
  using unat_lt_u64 [of w] by (simp add: drop_bit_eq_div unat_div)

lemma next_index: "(n :: u64) \<le> drop_bit 2 w \<Longrightarrow> unat (n + 1) = unat n + 1"
  using drop_bit_u64_lt [of w] by (simp add: word_le_nat_alt unat_add_u64)

function open_incoming :: "dir \<Rightarrow> u64 \<Rightarrow> Conn \<Rightarrow> Conn" where
  "open_incoming d rawID c =
     (if i_next (c_in c d) \<le> drop_bit 2 rawID then open_incoming d rawID (open_next d c) else c)"
  by pat_completeness auto
termination
proof (relation "measure (\<lambda>(d, rawID, c). 2 ^ 62 - unat (i_next (c_in c d)))")
  fix d :: dir and rawID :: u64 and c :: Conn
  assume le: "i_next (c_in c d) \<le> drop_bit 2 rawID"
  then have "unat (i_next (c_in c d)) < 2 ^ 62"
    using drop_bit_u64_lt [of rawID] by (simp add: word_le_nat_alt)
  then show "((d, rawID, open_next d c), d, rawID, c) \<in>
      measure (\<lambda>(d, rawID, c). 2 ^ 62 - unat (i_next (c_in c d)))"
    by (simp add: open_next_i_next next_index [OF le])
qed simp

declare open_incoming.simps [simp del]

definition stream_error :: "u64 \<Rightarrow> string \<Rightarrow> go_error" where
  "stream_error code reason = WireError \<lparr>Code = code, Reason = reason\<rparr>"

text \<open>\<open>streamLocked\<close> returns an error, or the stream (\<open>None\<close> where it has already closed).\<close>

definition streamLocked :: "u64 \<Rightarrow> bool \<Rightarrow> Conn \<Rightarrow> (go_error + ptr option) \<times> Conn" where
  "streamLocked rawID recv c =
     (let local = initiatedLocally c rawID; d = streamDir rawID; index = drop_bit 2 rawID
      in if d = dirUni \<and> local = recv
         then (Inl (stream_error StreamStateError
                (''frame not allowed on unidirectional stream '' @ show_dec rawID)), c)
         else if local
         then if index \<ge> o_next (c_out c d)
              then (Inl (stream_error StreamStateError
                     (''frame for stream '' @ show_dec rawID @ '', which was not opened'')), c)
              else (Inr (c_streams c rawID), c)
         else if index \<ge> i_max (c_in c d)
         then (Inl (stream_error StreamLimitError
                (''stream '' @ show_dec rawID @ '' exceeds the stream limit'')), c)
         else let c = open_incoming d rawID c in (Inr (c_streams c rawID), c))"

section \<open>Frames\<close>

definition protocolViolation :: "string \<Rightarrow> go_error" where
  "protocolViolation reason = WireError \<lparr>Code = ProtocolViolation, Reason = reason\<rparr>"

text \<open>\<open>handleStreamLocked\<close> from the point where the stream is known.\<close>

definition receive_data ::
  "(nat \<Rightarrow> nat \<Rightarrow> nat) \<Rightarrow> ptr \<Rightarrow> u64 \<Rightarrow> u64 \<Rightarrow> bytes \<Rightarrow> bool \<Rightarrow> Conn \<Rightarrow> go_error option \<times> Conn" where
  "receive_data grow i sid off d fin c =
     (let s = obj c i; n = u64_len d
      in if off \<noteq> s_recvOffset s
         then (Some (protocolViolation (''stream '' @ show_dec sid @ '': data out of order'')), c)
         else if s_finRecv s \<or> s_recvReset s
         then if n > 0 \<or> (fin \<and> \<not> s_finRecv s)
              then (Some (stream_error FinalSizeError
                     (''stream '' @ show_dec sid @ '': data past its final size'')), c)
              else (None, c)
         else if s_recvOffset s + n > s_recvMax s
         then (Some (stream_error FlowControlError
                (''stream '' @ show_dec sid @ '': flow control limit exceeded'')), c)
         else case receivedLocked n c of
           (Some e, c) \<Rightarrow> (Some e, c)
         | (None, c) \<Rightarrow>
           let c = upd_obj i (\<lambda>s. s\<lparr>s_recvOffset := s_recvOffset s + n, s_finRecv := fin\<rparr>) c;
               c = (if s_readCancelled s then consumeLocked n c
                    else upd_obj i (bufferLocked grow d) c);
               c = read_broadcast i c
           in (None, completeLocked i c))"

definition handleStreamLocked ::
  "(nat \<Rightarrow> nat \<Rightarrow> nat) \<Rightarrow> u64 \<Rightarrow> u64 \<Rightarrow> bytes \<Rightarrow> bool \<Rightarrow> Conn \<Rightarrow> go_error option \<times> Conn" where
  "handleStreamLocked grow sid off d fin c =
     (case streamLocked sid True c of
        (Inl e, c) \<Rightarrow> (Some e, c)
      | (Inr None, c) \<Rightarrow> (None, c)
      | (Inr (Some i), c) \<Rightarrow> receive_data grow i sid off d fin c)"

definition receive_reset ::
  "ptr \<Rightarrow> u64 \<Rightarrow> u64 \<Rightarrow> u64 \<Rightarrow> Conn \<Rightarrow> go_error option \<times> Conn" where
  "receive_reset i sid code finalSize c =
     (let s = obj c i
      in if finalSize < s_recvOffset s \<or>
            ((s_finRecv s \<or> s_recvReset s) \<and> finalSize \<noteq> s_recvOffset s)
         then (Some (stream_error FinalSizeError
                (''stream '' @ show_dec sid @ '': final size changed'')), c)
         else if s_recvReset s then (None, c)
         else if finalSize > s_recvMax s
         then (Some (stream_error FlowControlError
                (''stream '' @ show_dec sid @ '': final size exceeds the flow control limit'')), c)
         else
           let skipped = finalSize - s_recvOffset s
           in case receivedLocked skipped c of
             (Some e, c) \<Rightarrow> (Some e, c)
           | (None, c) \<Rightarrow>
             let c = consumeLocked (skipped + of_nat (length (s_rbuf s) - s_roff s)) c;
                 c = upd_obj i (\<lambda>s. s\<lparr>s_recvOffset := finalSize, s_recvReset := True,
                       s_rbuf := [], s_cap := 0, s_roff := 0,
                       s_recvErr := (if s_recvErr s = None
                                     then Some (StreamError (s_id s) code True) else s_recvErr s)\<rparr>) c;
                 c = read_broadcast i c
             in (None, completeLocked i c))"

definition handleResetStreamLocked :: "u64 \<Rightarrow> u64 \<Rightarrow> u64 \<Rightarrow> Conn \<Rightarrow> go_error option \<times> Conn" where
  "handleResetStreamLocked sid code finalSize c =
     (case streamLocked sid True c of
        (Inl e, c) \<Rightarrow> (Some e, c)
      | (Inr None, c) \<Rightarrow> (None, c)
      | (Inr (Some i), c) \<Rightarrow> receive_reset i sid code finalSize c)"

text \<open>\<open>rttStats.update\<close>, on durations in nanoseconds.\<close>

definition rtt_update :: "int \<Rightarrow> rttStats \<Rightarrow> rttStats" where
  "rtt_update rtt s =
     (let s = s\<lparr>rtt_latest := rtt\<rparr>;
          s = (if rtt_min s = 0 \<or> rtt < rtt_min s then s\<lparr>rtt_min := rtt\<rparr> else s)
      in if rtt_smoothed s = 0 then s\<lparr>rtt_smoothed := rtt, rtt_deviation := rtt sdiv 2\<rparr>
         else s\<lparr>rtt_deviation := (3 * rtt_deviation s + abs (rtt_smoothed s - rtt)) sdiv 4,
                rtt_smoothed := (7 * rtt_smoothed s + rtt) sdiv 8\<rparr>)"

definition handlePingLocked :: "int \<Rightarrow> bool \<Rightarrow> u64 \<Rightarrow> Conn \<Rightarrow> go_error option \<times> Conn" where
  "handlePingLocked now response seqn c =
     (if response
      then if seqn \<ge> c_nextPing c
           then (Some (protocolViolation ''QX_PING response to a request that was not sent''), c)
           else if seqn = c_nextPing c - 1
           then (None, c\<lparr>c_rtt := rtt_update (now - c_pingSentAt c) (c_rtt c), c_pingUnanswered := False\<rparr>)
           else (None, c)
      else if c_peerPinged c \<and> seqn \<le> c_peerPingLast c
      then (Some (protocolViolation ''QX_PING sequence number did not increase''), c)
      else (None, wakeWriter (c\<lparr>c_peerPinged := True, c_peerPingLast := seqn, c_pongPending := True,
              c_pongSequence := seqn\<rparr>)))"

definition handleDatagramLocked :: "bytes \<Rightarrow> Conn \<Rightarrow> go_error option \<times> Conn" where
  "handleDatagramLocked d c =
     (if of_nat (1 + length d) > cf_MaxDatagramFrameSize (c_config c)
      then (Some (protocolViolation ''DATAGRAM frame larger than max_datagram_frame_size''), c)
      else if length (c_datagrams c) < datagramQueueSize
      then (None, c\<lparr>c_datagrams := c_datagrams c @ [d]\<rparr>)
      else (None, c))"

definition peer_idle :: "u64 \<Rightarrow> int \<Rightarrow> int" where
  "peer_idle t idle =
     (if t > 0 \<and> t \<le> of_int (maxIdleTimeout sdiv millisecond)
      then let peerIdle = int (unat t) * millisecond
           in if idle = 0 \<or> peerIdle < idle then peerIdle else idle
      else idle)"

definition handleParametersLocked :: "Parameters \<Rightarrow> Conn \<Rightarrow> Conn" where
  "handleParametersLocked p c =
     (let c = c\<lparr>c_peer := p, c_ready := True, c_sendMax := InitialMaxData p\<rparr>;
          c = upd_out dirBidi (\<lambda>out. out\<lparr>o_max := InitialMaxStreamsBidi p\<rparr>) c;
          c = upd_out dirUni (\<lambda>out. out\<lparr>o_max := InitialMaxStreamsUni p\<rparr>) c;
          c = c\<lparr>c_idleTimeout := peer_idle (MaxIdleTimeout p) (c_idleTimeout c)\<rparr>;
          c = c\<lparr>c_handshake := Suc (c_handshake c)\<rparr>;
          c = send_broadcast c
      in out_broadcast dirUni (out_broadcast dirBidi c))"

text \<open>The \<open>switch\<close> of \<open>handleFrameLocked\<close>.\<close>

definition handle_StopSending :: "u64 \<Rightarrow> u64 \<Rightarrow> Conn \<Rightarrow> go_error option \<times> Conn" where
  "handle_StopSending sid code c =
     (case streamLocked sid False c of
        (Inl e, c) \<Rightarrow> (Some e, c)
      | (Inr None, c) \<Rightarrow> (None, c)
      | (Inr (Some i), c) \<Rightarrow> (None, stopSendingLocked i code c))"

definition handle_MaxStreamData :: "u64 \<Rightarrow> u64 \<Rightarrow> Conn \<Rightarrow> go_error option \<times> Conn" where
  "handle_MaxStreamData sid m c =
     (case streamLocked sid False c of
        (Inl e, c) \<Rightarrow> (Some e, c)
      | (Inr None, c) \<Rightarrow> (None, c)
      | (Inr (Some i), c) \<Rightarrow>
        (None, if m > s_sendMax (obj c i)
               then write_broadcast i (upd_obj i (\<lambda>s. s\<lparr>s_sendMax := m\<rparr>) c) else c))"

definition handle_MaxData :: "u64 \<Rightarrow> Conn \<Rightarrow> Conn" where
  "handle_MaxData m c =
     (if m > c_sendMax c then send_broadcast (c\<lparr>c_sendMax := m\<rparr>) else c)"

definition handle_MaxStreams :: "bool \<Rightarrow> u64 \<Rightarrow> Conn \<Rightarrow> Conn" where
  "handle_MaxStreams uni m c =
     (let d = (if uni then dirUni else dirBidi)
      in if m > o_max (c_out c d)
         then out_broadcast d (upd_out d (\<lambda>out. out\<lparr>o_max := m\<rparr>) c) else c)"

fun handle_switch ::
  "(nat \<Rightarrow> nat \<Rightarrow> nat) \<Rightarrow> int \<Rightarrow> any_frame \<Rightarrow> Conn \<Rightarrow> go_error option \<times> Conn" where
  "handle_switch grow now (Frame (Stream sid off d fin)) c = handleStreamLocked grow sid off d fin c"
| "handle_switch grow now (Frame (ResetStream sid code n)) c = handleResetStreamLocked sid code n c"
| "handle_switch grow now (Frame (StopSending sid code)) c = handle_StopSending sid code c"
| "handle_switch grow now (Frame (MaxStreamData sid m)) c = handle_MaxStreamData sid m c"
| "handle_switch grow now (Frame (MaxData m)) c = (None, handle_MaxData m c)"
| "handle_switch grow now (Frame (MaxStreams uni m)) c = (None, handle_MaxStreams uni m c)"
| "handle_switch grow now (Frame (Ping response n)) c = handlePingLocked now response n c"
| "handle_switch grow now (Frame (Datagram d)) c = handleDatagramLocked d c"
| "handle_switch grow now (Frame (ConnectionClose app code ft reason)) c =
     (Some (if app then ApplicationError True code reason else TransportError True code ft reason), c)"
| "handle_switch grow now Blocked c = (None, c)"
| "handle_switch grow now (Frame (TransportParameters p)) c = (None, c)"

definition handleFrameLocked ::
  "(nat \<Rightarrow> nat \<Rightarrow> nat) \<Rightarrow> int \<Rightarrow> any_frame \<Rightarrow> Conn \<Rightarrow> go_error option \<times> Conn" where
  "handleFrameLocked grow now f c =
     (let params = (case f of Frame (TransportParameters p) \<Rightarrow> Some p | _ \<Rightarrow> None)
      in if (params \<noteq> None) \<noteq> (\<not> c_ready c)
         then (Some (protocolViolation
                ''QX_TRANSPORT_PARAMETERS must be the first frame, and only the first''), c)
         else case params of
           Some p \<Rightarrow> (None, handleParametersLocked p c)
         | None \<Rightarrow> handle_switch grow now f c)"

text \<open>\<open>handleRecord\<close>; \<open>None\<close> only where \<open>Parse\<close> does not return, which it always does.\<close>

partial_function (option) handleRecord ::
  "codec \<Rightarrow> (nat \<Rightarrow> nat \<Rightarrow> nat) \<Rightarrow> int \<Rightarrow> bytes \<Rightarrow> Conn \<Rightarrow> (go_error option \<times> Conn) option"
where
  "handleRecord q grow now rec c =
     (if rec = [] \<or> c_closeErr c \<noteq> None then Some (None, c)
      else case Parse q rec of
        None \<Rightarrow> None
      | Some (Inl e) \<Rightarrow> Some (Some (WireError e), c)
      | Some (Inr (None, rest)) \<Rightarrow> Some (None, c)
      | Some (Inr (Some f, rest)) \<Rightarrow>
        (case handleFrameLocked grow now f c of
           (Some e, c) \<Rightarrow> Some (Some e, c)
         | (None, c) \<Rightarrow> handleRecord q grow now rest c))"

end
