(* ===== verification/Conn_API.thy ===== *)
theory Conn_API
  imports Conn_Handlers
begin

text \<open>The operations of the application on a connection and the goroutines a connection runs
  (\<open>conn.go\<close>, \<open>qmux.go\<close>): opening and accepting streams, datagrams, pings, the rounds of the loops,
  the start of a connection.\<close>

section \<open>Opening and accepting streams\<close>

text \<open>An attempt returns the stream, a channel to wait on, or an error.\<close>

datatype try_stream = Got ptr | StreamWait nat | StreamFails go_error

definition tryOpen :: "dir \<Rightarrow> Conn \<Rightarrow> try_stream \<times> Conn" where
  "tryOpen d c =
     (case c_closeErr c of Some e \<Rightarrow> (StreamFails e, c)
      | None \<Rightarrow>
        if o_next (c_out c d) \<ge> o_max (c_out c d)
        then let (ch, c) = out_wait d c in (StreamWait ch, c)
        else let (p, c) = newStreamLocked (streamID_of c (o_next (c_out c d)) d True) c;
                 c = upd_obj p (\<lambda>s. s\<lparr>s_accepted := True\<rparr>) c;
                 c = upd_out d (\<lambda>out. out\<lparr>o_next := o_next out + 1\<rparr>) c
             in (Got p, c))"

definition openNow :: "dir \<Rightarrow> Conn \<Rightarrow> (go_error + ptr) \<times> Conn" where
  "openNow d c =
     (case tryOpen d c of
        (Got p, c) \<Rightarrow> (Inr p, c)
      | (StreamFails e, c) \<Rightarrow> (Inl e, c)
      | (StreamWait _, c) \<Rightarrow> (Inl StreamLimitReachedError, c))"

text \<open>The loops of \<open>open\<close> and \<open>accept\<close>. A round that is expired is one in which the caller's context
  ends first, with the error \<open>ctxErr\<close>.\<close>

fun open_sync :: "go_error \<Rightarrow> dir \<Rightarrow> round list \<Rightarrow> Conn \<Rightarrow> ((go_error + ptr) \<times> Conn) option" where
  "open_sync ctxErr d rs c =
     (case tryOpen d c of
        (Got p, c) \<Rightarrow> Some (Inr p, c)
      | (StreamFails e, c) \<Rightarrow> Some (Inl e, c)
      | (StreamWait _, c) \<Rightarrow>
        (case rs of [] \<Rightarrow> None
         | r # rs \<Rightarrow> if r_expired r then Some (Inl ctxErr, c) else open_sync ctxErr d rs (r_change r c)))"

definition tryAccept :: "dir \<Rightarrow> Conn \<Rightarrow> try_stream \<times> Conn" where
  "tryAccept d c =
     (case c_closeErr c of Some e \<Rightarrow> (StreamFails e, c)
      | None \<Rightarrow>
        (case i_queue (c_in c d) of
           [] \<Rightarrow> let (ch, c) = in_wait d c in (StreamWait ch, c)
         | p # ps \<Rightarrow>
           let c = upd_in d (\<lambda>inc. inc\<lparr>i_queue := ps\<rparr>) c;
               c = upd_obj p (\<lambda>s. s\<lparr>s_accepted := True\<rparr>) c
           in (Got p, completeLocked p c)))"

fun accept :: "go_error \<Rightarrow> dir \<Rightarrow> round list \<Rightarrow> Conn \<Rightarrow> ((go_error + ptr) \<times> Conn) option" where
  "accept ctxErr d rs c =
     (case tryAccept d c of
        (Got p, c) \<Rightarrow> Some (Inr p, c)
      | (StreamFails e, c) \<Rightarrow> Some (Inl e, c)
      | (StreamWait _, c) \<Rightarrow>
        (case rs of [] \<Rightarrow> None
         | r # rs \<Rightarrow> if r_expired r then Some (Inl ctxErr, c) else accept ctxErr d rs (r_change r c)))"

section \<open>Datagrams\<close>

definition datagramLimit :: "Conn \<Rightarrow> u64" where
  "datagramLimit c = min (MaxDatagramFrameSize (c_peer c)) (MaxRecordSize (c_peer c))"

text \<open>\<open>int64(payload)\<close> of a \<open>uint64\<close> is its two's complement value.\<close>

definition SendDatagram ::
  "codec \<Rightarrow> write_outcome \<Rightarrow> int \<Rightarrow> bytes \<Rightarrow> Conn \<Rightarrow> (go_error option \<times> Conn) option" where
  "SendDatagram q tw now p c =
     (let limit = datagramLimit c
      in if limit = 0 then Some (Some ErrDatagramsNotSupported, c)
         else if of_nat (Datagram_Len q p) > limit
         then let payload = limit - 1 - of_nat (vlen q limit)
              in Some (Some (DatagramTooLargeError (sint payload)), c)
         else case c_cause c of
           Some e \<Rightarrow> Some (Some e, c)
         | None \<Rightarrow> do {
             (err, c) \<leftarrow> writeFramesLocked q tw now [Datagram p] c;
             Some (case err of
                     Some e \<Rightarrow> let c = abort (write_failed e) c in (c_cause c, c)
                   | None \<Rightarrow> (None, c))
           })"

text \<open>\<open>ReceiveDatagram\<close>: a \<open>select\<close> among the channels that are ready. \<open>pick\<close> tells which case Go takes
  where several are; \<open>None\<close> while the call waits.\<close>

datatype receive_case = FromQueue | ConnDone | CallerDone

definition ReceiveDatagram ::
  "receive_case \<Rightarrow> go_error option \<Rightarrow> Conn \<Rightarrow> ((go_error + bytes) \<times> Conn) option" where
  "ReceiveDatagram pick ctxErr c =
     (case pick of
        FromQueue \<Rightarrow> (case c_datagrams c of [] \<Rightarrow> None
                      | p # ps \<Rightarrow> Some (Inr p, c\<lparr>c_datagrams := ps\<rparr>))
      | ConnDone \<Rightarrow> (case c_cause c of None \<Rightarrow> None | Some e \<Rightarrow> Some (Inl e, c))
      | CallerDone \<Rightarrow> (case ctxErr of None \<Rightarrow> None | Some e \<Rightarrow> Some (Inl e, c)))"

section \<open>The connection's goroutines\<close>

definition requestPing :: "int \<Rightarrow> Conn \<Rightarrow> bool \<times> Conn" where
  "requestPing now c =
     (if c_pingUnanswered c \<and> c_idleTimeout c > 0 \<and> now - c_pingUnansweredAt c \<ge> c_idleTimeout c
      then (False, c)
      else (True, wakeWriter (c\<lparr>c_pingPending := True\<rparr>)))"

text \<open>A tick of \<open>keepAliveLoop\<close>, with whether the loop goes on.\<close>

definition keepAlive_tick ::
  "codec \<Rightarrow> write_outcome \<Rightarrow> bool \<Rightarrow> int \<Rightarrow> Conn \<Rightarrow> (bool \<times> Conn) option" where
  "keepAlive_tick q tw cw now c =
     (case requestPing now c of
        (True, c) \<Rightarrow> Some (True, c)
      | (False, c) \<Rightarrow> do {
          c \<leftarrow> closeGracefully q tw cw now IdleTimeoutError None c;
          Some (False, c)
        })"

definition currentIdleTimeout :: "Conn \<Rightarrow> int" where
  "currentIdleTimeout c = c_idleTimeout c"

text \<open>A round of the loop in \<open>idleLoop\<close>: the time left, if there is a timeout, or the close of an idle
  connection.\<close>

datatype idle_result = IdleClosed | IdleWait "int option"

definition idle_round ::
  "codec \<Rightarrow> write_outcome \<Rightarrow> bool \<Rightarrow> int \<Rightarrow> Conn \<Rightarrow> (idle_result \<times> Conn) option" where
  "idle_round q tw cw now c =
     (let timeout = currentIdleTimeout c
      in if timeout > 0
         then let remaining = timeout - (now - c_lastActivity c)
              in if remaining \<le> 0
                 then do {
                   c \<leftarrow> closeGracefully q tw cw now IdleTimeoutError None c;
                   Some (IdleClosed, c)
                 }
                 else Some (IdleWait (Some remaining), c)
         else Some (IdleWait None, c))"

definition handshake_timeout ::
  "codec \<Rightarrow> write_outcome \<Rightarrow> bool \<Rightarrow> int \<Rightarrow> Conn \<Rightarrow> Conn option" where
  "handshake_timeout q tw cw now c = closeGracefully q tw cw now HandshakeTimeoutError None c"

text \<open>A round of \<open>writeLoop\<close> once it was woken: it receives from \<open>controlWake\<close> and flushes. \<open>False\<close> tells
  that the loop has ended, with the connection aborted.\<close>

definition writeLoop_round ::
  "codec \<Rightarrow> write_outcome \<Rightarrow> int \<Rightarrow> Conn \<Rightarrow> (bool \<times> Conn) option" where
  "writeLoop_round q tw now c = do {
     (err, c) \<leftarrow> flushControl q tw now (c\<lparr>c_controlWake := False\<rparr>);
     Some (case err of
             None \<Rightarrow> (True, c)
           | Some e \<Rightarrow> (False, abort (write_failed e) c))
   }"

text \<open>A round of \<open>readLoop\<close>: what \<open>readRecord\<close> returned, an error or a record. \<open>False\<close> tells that the
  loop has ended and closed the transport.\<close>

definition readLoop_round ::
  "codec \<Rightarrow> (nat \<Rightarrow> nat \<Rightarrow> nat) \<Rightarrow> write_outcome \<Rightarrow> bool \<Rightarrow> int \<Rightarrow> go_error + bytes \<Rightarrow> Conn \<Rightarrow>
   (bool \<times> Conn) option" where
  "readLoop_round q grow tw cw now res c =
     (case res of
        Inl (WireError e) \<Rightarrow> do {
          c \<leftarrow> closeWithTransportError q tw cw now e c;
          Some (True, c)
        }
      | Inl e \<Rightarrow> Some (False, tr_close (abort (Errorf ''qmux: transport closed: '' (Some e)) c))
      | Inr rec \<Rightarrow>
        let c = c\<lparr>c_bytesReceived := c_bytesReceived c + u64_len rec\<rparr>;
            c = c\<lparr>c_recordsReceived := c_recordsReceived c + 1\<rparr>;
            c = touch now c
        in do {
          (err, c) \<leftarrow> handleRecord q grow now rec c;
          (case err of
             None \<Rightarrow> Some (True, c)
           | Some (WireError e) \<Rightarrow> do {
               c \<leftarrow> closeWithTransportError q tw cw now e c;
               Some (True, c)
             }
           | Some e \<Rightarrow> Some (False, tr_close (abort e c)))
        })"

section \<open>The start of a connection\<close>

definition new_transport :: transport where
  "new_transport = \<lparr>tr_written = [], tr_expire = None, tr_forced = None, tr_closedWrite = False,
     tr_closed = False\<rparr>"

definition new_outgoing :: outgoing where
  "new_outgoing = \<lparr>o_next = 0, o_max = 0, o_signal = None\<rparr>"

definition new_incoming :: "u64 \<Rightarrow> incoming" where
  "new_incoming m = \<lparr>i_next = 0, i_max = m, i_pending = False, i_queue = [], i_signal = None\<rparr>"

definition newConn :: "Config \<Rightarrow> bool \<Rightarrow> int \<Rightarrow> Conn" where
  "newConn config isServer now =
     \<lparr>c_tr = new_transport, c_config = config, c_isServer = isServer, c_cause = None,
      c_handshake = 0, c_closeErr = None, c_peer = zero_Parameters, c_ready = False,
      c_streams = Map.empty, c_objs = [], c_out = (\<lambda>d. new_outgoing),
      c_in = (\<lambda>d. case d of dirBidi \<Rightarrow> new_incoming (of_int (cf_MaxIncomingStreams config))
                  | dirUni \<Rightarrow> new_incoming (of_int (cf_MaxIncomingUniStreams config))),
      c_sendMax = 0, c_sent = 0, c_sendSignal = None,
      c_recvMax = cf_InitialConnectionReceiveWindow config, c_received = 0, c_consumed = 0,
      c_control = [], c_maxDataPending = False, c_pongPending = False, c_pongSequence = 0,
      c_pingPending = False, c_controlWake = False, c_idleTimeout = cf_MaxIdleTimeout config,
      c_nextPing = 0, c_pingSentAt = 0, c_pingUnanswered = False, c_pingUnansweredAt = 0,
      c_peerPinged = False, c_peerPingLast = 0,
      c_rtt = \<lparr>rtt_min = 0, rtt_latest = 0, rtt_smoothed = 0, rtt_deviation = 0\<rparr>,
      c_datagrams = [], c_lastActivity = now, c_bytesSent = 0, c_bytesReceived = 0,
      c_recordsSent = 0, c_recordsReceived = 0, c_chan = 0, c_closed = {}\<rparr>"

text \<open>The \<open>select\<close> of \<open>start\<close>: the handshake, unless the caller's context ends first, with its cause.
  \<open>None\<close> while it waits.\<close>

definition start_select :: "go_error option \<Rightarrow> Conn \<Rightarrow> ((go_error option) \<times> Conn) option" where
  "start_select ctxCause c =
     (case ctxCause of
        Some e \<Rightarrow> Some (Some e, abort e c)
      | None \<Rightarrow> if c_handshake c > 0 then Some (c_cause c, c) else None)"

section \<open>What a connection reports\<close>

record ConnectionStats =
  MinRTT :: int
  LatestRTT :: int
  SmoothedRTT :: int
  MeanDeviation :: int
  BytesSent :: u64
  PacketsSent :: u64
  BytesReceived :: u64
  PacketsReceived :: u64

definition connection_stats :: "Conn \<Rightarrow> ConnectionStats" where
  "connection_stats c =
     \<lparr>MinRTT = rtt_min (c_rtt c), LatestRTT = rtt_latest (c_rtt c), SmoothedRTT = rtt_smoothed (c_rtt c),
      MeanDeviation = rtt_deviation (c_rtt c), BytesSent = c_bytesSent c, PacketsSent = c_recordsSent c,
      BytesReceived = c_bytesReceived c, PacketsReceived = c_recordsReceived c\<rparr>"

text \<open>The datagram support that \<open>ConnectionState\<close> reports, of this endpoint and of the peer.\<close>

definition supportsDatagrams :: "Conn \<Rightarrow> bool \<times> bool" where
  "supportsDatagrams c = (cf_EnableDatagrams (c_config c), MaxDatagramFrameSize (c_peer c) > 0)"

end
