(* ===== verification/Conn_Lemmas.thy ===== *)
theory Conn_Lemmas
  imports Conn_API
begin

text \<open>What the shared operations do to each part of the state, as rewrite rules: the lemmas that the
  invariants of the connection are proved with.\<close>

section \<open>Signals change nothing but signals\<close>

lemma signal_broadcast_eq: "signal_broadcast g c = c\<lparr>c_closed := set_option g \<union> c_closed c\<rparr>"
  by (cases g) (simp_all add: signal_broadcast_def)

lemma signal_wait_eq:
  "signal_wait g c = (case g of Some ch \<Rightarrow> ch | None \<Rightarrow> c_chan c,
     c\<lparr>c_chan := (case g of Some ch \<Rightarrow> c_chan c | None \<Rightarrow> Suc (c_chan c))\<rparr>)"
  by (cases g) (simp_all add: signal_wait_def)

lemmas upd_defs = upd_obj_def upd_in_def upd_out_def

lemmas broadcast_defs =
  read_broadcast_def write_broadcast_def send_broadcast_def out_broadcast_def in_broadcast_def
  signal_broadcast_eq

lemmas wait_defs =
  read_wait_def write_wait_def send_wait_def out_wait_def in_wait_def signal_wait_eq

text \<open>A view of the streams that an update does not touch stays the same.\<close>

lemma map_update_same: "g (f (xs ! i)) = g (xs ! i) \<Longrightarrow> map g (xs[i := f (xs ! i)]) = map g xs"
  by (simp add: map_update) (metis list_update_beyond list_update_id map_update not_le nth_map length_map)

lemma map_view_update: "g t = g (xs ! i) \<Longrightarrow> map g (xs[i := t]) = map g xs"
  using map_update_same [of g "\<lambda>_. t"] by simp

lemma sum_update:
  "i < length ss \<Longrightarrow> (\<Sum>s\<leftarrow>ss[i := t]. f s) + f (ss ! i) = (\<Sum>s\<leftarrow>ss. f s) + (f t :: nat)"
proof -
  assume "i < length ss"
  then have "sum_list ((map f ss)[i := f t]) = sum_list (map f ss) + f t - map f ss ! i"
    by (intro sum_list_update) simp
  moreover have "map f ss ! i \<le> sum_list (map f ss)"
    using \<open>i < length ss\<close> by (intro elem_le_sum_list) simp
  ultimately show ?thesis using \<open>i < length ss\<close> by (simp add: map_update)
qed

section \<open>Flow control accounting\<close>

text \<open>Whether \<open>consumeLocked\<close> extends the limit.\<close>

definition window_low :: "u64 \<Rightarrow> Conn \<Rightarrow> bool" where
  "window_low n c \<longleftrightarrow>
     c_recvMax c - (c_consumed c + n) < cf_InitialConnectionReceiveWindow (c_config c) div 2"

lemma consumeLocked_eq:
  "consumeLocked n c = c\<lparr>c_consumed := c_consumed c + n,
     c_recvMax := (if window_low n c
       then c_consumed c + n + cf_InitialConnectionReceiveWindow (c_config c) else c_recvMax c),
     c_maxDataPending := (window_low n c \<or> c_maxDataPending c),
     c_controlWake := (window_low n c \<or> c_controlWake c)\<rparr>"
  by (simp add: consumeLocked_def window_low_def wakeWriter_def Let_def)

lemma receivedLocked_None:
  "receivedLocked n c = (None, c') \<longleftrightarrow>
   c_received c + n \<le> c_recvMax c \<and> c' = c\<lparr>c_received := c_received c + n\<rparr>"
  by (auto simp: receivedLocked_def)

lemma receivedLocked_Some: "receivedLocked n c = (Some e, c') \<Longrightarrow> c' = c"
  by (auto simp: receivedLocked_def split: if_splits)

section \<open>Completion\<close>

definition completes :: "stream \<Rightarrow> bool" where
  "completes s \<longleftrightarrow> \<not> s_done s \<and> s_accepted s \<and> recvDone s \<and> sendDone s"

definition complete_obj :: "stream \<Rightarrow> stream" where
  "complete_obj s = (if completes s then s\<lparr>s_done := True, s_rbuf := [], s_cap := 0\<rparr> else s)"

text \<open>Whether the completion of the stream lets the peer open another of the kind.\<close>

definition frees :: "Conn \<Rightarrow> stream \<Rightarrow> dir \<Rightarrow> bool" where
  "frees c s d \<longleftrightarrow> completes s \<and> \<not> initiatedLocally c (s_id s) \<and> streamDir (s_id s) = d"

lemma completeLocked_eq:
  "completeLocked i c = c\<lparr>c_objs := (c_objs c)[i := complete_obj (obj c i)],
     c_streams := (if completes (obj c i) then (c_streams c)(s_id (obj c i) := None) else c_streams c),
     c_in := (\<lambda>d. if frees c (obj c i) d
       then (c_in c d)\<lparr>i_max := i_max (c_in c d) + 1, i_pending := True\<rparr> else c_in c d),
     c_controlWake := (frees c (obj c i) (streamDir (s_id (obj c i))) \<or> c_controlWake c)\<rparr>"
proof (cases "completes (obj c i)")
  case False
  then have "completeLocked i c = c" by (auto simp: completeLocked_def completes_def Let_def)
  with False show ?thesis by (simp add: complete_obj_def frees_def)
next
  case True
  then have guard: "\<not> (s_done (obj c i) \<or> \<not> s_accepted (obj c i) \<or> \<not> recvDone (obj c i) \<or> \<not> sendDone (obj c i))"
    by (simp add: completes_def)
  show ?thesis
  proof (cases "initiatedLocally c (s_id (obj c i))")
    case local: True
    then have "completeLocked i c = c\<lparr>c_objs := (c_objs c)[i := complete_obj (obj c i)],
        c_streams := (c_streams c)(s_id (obj c i) := None)\<rparr>"
      unfolding completeLocked_def Let_def if_not_P [OF guard] using True
      by (simp add: upd_obj_def complete_obj_def initiatedLocally_def)
    with True local show ?thesis by (simp add: frees_def)
  next
    case remote: False
    have f: "(c_in c)(d := g (c_in c d)) = (\<lambda>d'. if d = d' then g (c_in c d') else c_in c d')" for d g
      by (simp add: fun_eq_iff)
    have "completeLocked i c = c\<lparr>c_objs := (c_objs c)[i := complete_obj (obj c i)],
        c_streams := (c_streams c)(s_id (obj c i) := None),
        c_in := (c_in c)(streamDir (s_id (obj c i)) := (\<lambda>inc. inc\<lparr>i_max := i_max inc + 1, i_pending := True\<rparr>)
          (c_in c (streamDir (s_id (obj c i))))), c_controlWake := True\<rparr>"
      unfolding completeLocked_def Let_def if_not_P [OF guard] using True remote
      by (simp add: upd_obj_def upd_in_def wakeWriter_def complete_obj_def initiatedLocally_def)
    with True remote show ?thesis by (simp add: frees_def f [of _ "\<lambda>inc. inc\<lparr>i_max := i_max inc + 1, i_pending := True\<rparr>", simplified])
  qed
qed

lemma complete_obj_simps [simp]:
  "s_id (complete_obj s) = s_id s" "s_accepted (complete_obj s) = s_accepted s"
  "s_canRecv (complete_obj s) = s_canRecv s" "s_roff (complete_obj s) = s_roff s"
  "s_recvOffset (complete_obj s) = s_recvOffset s" "s_recvMax (complete_obj s) = s_recvMax s"
  "s_readOffset (complete_obj s) = s_readOffset s" "s_finRecv (complete_obj s) = s_finRecv s"
  "s_recvReset (complete_obj s) = s_recvReset s"
  "s_readCancelled (complete_obj s) = s_readCancelled s"
  "s_recvErr (complete_obj s) = s_recvErr s" "s_canSend (complete_obj s) = s_canSend s"
  "s_sendOffset (complete_obj s) = s_sendOffset s" "s_sendMax (complete_obj s) = s_sendMax s"
  "s_finSent (complete_obj s) = s_finSent s" "s_sendErr (complete_obj s) = s_sendErr s"
  "s_readSignal (complete_obj s) = s_readSignal s" "s_writeSignal (complete_obj s) = s_writeSignal s"
  "s_cause (complete_obj s) = s_cause s"
  by (simp_all add: complete_obj_def)

section \<open>Ending the connection\<close>

text \<open>The wake-up of every stream changes only signals.\<close>

definition silent :: "stream \<Rightarrow> stream" where
  "silent s = s\<lparr>s_readSignal := None, s_writeSignal := None\<rparr>"

lemma wake_streams:
  defines "w \<equiv> fold (\<lambda>i c. write_broadcast i (read_broadcast i c))"
  shows "\<exists>xs K. w is c = c\<lparr>c_objs := xs, c_closed := K\<rparr> \<and> map silent xs = map silent (c_objs c)"
proof (induction "is" arbitrary: c)
  case Nil
  then show ?case by (intro exI [of _ "c_objs c"] exI [of _ "c_closed c"]) (simp add: w_def)
next
  case (Cons i "is")
  let ?c = "write_broadcast i (read_broadcast i c)"
  have c: "?c = c\<lparr>c_objs := c_objs ?c, c_closed := c_closed ?c\<rparr>"
    by (simp add: broadcast_defs upd_defs)
  have s: "map silent (c_objs ?c) = map silent (c_objs c)"
    by (cases "i < length (c_objs c)")
      (simp_all add: broadcast_defs upd_defs list_update_beyond,
        subst map_update_same [of _ "\<lambda>s. s\<lparr>s_readSignal := None, s_writeSignal := None\<rparr>"], simp_all add: silent_def)
  obtain xs K where "w is ?c = ?c\<lparr>c_objs := xs, c_closed := K\<rparr>" "map silent xs = map silent (c_objs ?c)"
    using Cons by blast
  then have "w (i # is) c = ?c\<lparr>c_objs := xs, c_closed := K\<rparr>" by (simp add: w_def)
  also have "\<dots> = c\<lparr>c_objs := xs, c_closed := K\<rparr>" by (subst c) simp
  finally show ?case using s \<open>map silent xs = map silent (c_objs ?c)\<close> by auto
qed

lemma map_silent:
  assumes "map silent xs = map silent ys" "\<And>s. g (silent s) = g s"
  shows "map g xs = map g ys"
proof -
  have "map g xs = map g (map silent xs)" "map g ys = map g (map silent ys)"
    using assms(2) by simp_all
  then show ?thesis using assms(1) by simp
qed

lemma terminate_True:
  assumes "terminate err c = (True, c')"
  shows "c_closeErr c = None" "c_closeErr c' = Some err" "c_streams c' = Map.empty"
    "map silent (c_objs c') = map silent (c_objs c)"
    "c_cause c' = (if c_cause c = None then Some err else c_cause c)"
    "c_handshake c' = c_handshake c + (if c_ready c then 0 else 1)"
    "c_tr c' = c_tr c" "c_config c' = c_config c" "c_isServer c' = c_isServer c"
    "c_peer c' = c_peer c" "c_ready c' = c_ready c"
    "c_sendMax c' = c_sendMax c" "c_sent c' = c_sent c"
    "c_recvMax c' = c_recvMax c" "c_received c' = c_received c" "c_consumed c' = c_consumed c"
    "c_control c' = c_control c" "c_datagrams c' = c_datagrams c"
    "i_next (c_in c' d) = i_next (c_in c d)" "i_max (c_in c' d) = i_max (c_in c d)"
    "i_pending (c_in c' d) = i_pending (c_in c d)" "i_queue (c_in c' d) = i_queue (c_in c d)"
    "o_next (c_out c' d) = o_next (c_out c d)" "o_max (c_out c' d) = o_max (c_out c d)"
    "c_maxDataPending c' = c_maxDataPending c" "c_pongPending c' = c_pongPending c"
    "c_pingPending c' = c_pingPending c" "c_controlWake c' = c_controlWake c"
    "c_pongSequence c' = c_pongSequence c" "c_nextPing c' = c_nextPing c"
    "c_peerPinged c' = c_peerPinged c" "c_peerPingLast c' = c_peerPingLast c"
proof -
  define c0 where "c0 = in_broadcast dirUni (out_broadcast dirUni (in_broadcast dirBidi (out_broadcast dirBidi
    (send_broadcast (c\<lparr>c_closeErr := Some err, c_cause := (if c_cause c = None then Some err else c_cause c),
       c_handshake := c_handshake c + (if c_ready c then 0 else 1)\<rparr>)))))"
  have none: "c_closeErr c = None" using assms by (auto simp: terminate_def split: if_splits)
  then have c': "c' = (fold (\<lambda>i c. write_broadcast i (read_broadcast i c)) (open_ptrs c0) c0)\<lparr>c_streams := Map.empty\<rparr>"
    using assms by (auto simp: terminate_def Let_def c0_def cong: if_cong)
  obtain xs K where xs: "fold (\<lambda>i c. write_broadcast i (read_broadcast i c)) (open_ptrs c0) c0 =
      c0\<lparr>c_objs := xs, c_closed := K\<rparr>" "map silent xs = map silent (c_objs c0)"
    using wake_streams by blast
  have eq: "c' = c0\<lparr>c_objs := xs, c_closed := K, c_streams := Map.empty\<rparr>"
    unfolding c' xs(1) by simp
  note d = eq c0_def broadcast_defs upd_defs
  show "c_closeErr c = None" by (rule none)
  show "map silent (c_objs c') = map silent (c_objs c)" using xs(2) unfolding eq by (simp add: c0_def broadcast_defs upd_defs)
  show "c_closeErr c' = Some err" "c_streams c' = Map.empty"
    "c_cause c' = (if c_cause c = None then Some err else c_cause c)"
    "c_handshake c' = c_handshake c + (if c_ready c then 0 else 1)"
    "c_tr c' = c_tr c" "c_config c' = c_config c" "c_isServer c' = c_isServer c"
    "c_peer c' = c_peer c" "c_ready c' = c_ready c"
    "c_sendMax c' = c_sendMax c" "c_sent c' = c_sent c"
    "c_recvMax c' = c_recvMax c" "c_received c' = c_received c" "c_consumed c' = c_consumed c"
    "c_control c' = c_control c" "c_datagrams c' = c_datagrams c"
    "c_maxDataPending c' = c_maxDataPending c" "c_pongPending c' = c_pongPending c"
    "c_pingPending c' = c_pingPending c" "c_controlWake c' = c_controlWake c"
    "c_pongSequence c' = c_pongSequence c" "c_nextPing c' = c_nextPing c"
    "c_peerPinged c' = c_peerPinged c" "c_peerPingLast c' = c_peerPingLast c"
    by (simp_all add: d)
  show "i_next (c_in c' d) = i_next (c_in c d)" "i_max (c_in c' d) = i_max (c_in c d)"
    "i_pending (c_in c' d) = i_pending (c_in c d)" "i_queue (c_in c' d) = i_queue (c_in c d)"
    "o_next (c_out c' d) = o_next (c_out c d)" "o_max (c_out c' d) = o_max (c_out c d)"
    by (cases d; simp add: d)+
qed

lemma terminate_False: "terminate err c = (False, c') \<Longrightarrow> c' = c \<and> c_closeErr c \<noteq> None"
  by (auto simp: terminate_def Let_def split: if_splits)

section \<open>Operations in closed form\<close>

text \<open>What \<open>receive_data\<close>, \<open>receive_reset\<close> and \<open>cancelRead\<close> do before the stream completes, as one
  update of the state: the new stream, the bytes received and the bytes consumed.\<close>

lemma bufferLocked_simps [simp]:
  "s_id (bufferLocked g d s) = s_id s" "s_accepted (bufferLocked g d s) = s_accepted s"
  "s_done (bufferLocked g d s) = s_done s" "s_cause (bufferLocked g d s) = s_cause s"
  "s_canRecv (bufferLocked g d s) = s_canRecv s" "s_recvOffset (bufferLocked g d s) = s_recvOffset s"
  "s_recvMax (bufferLocked g d s) = s_recvMax s" "s_readOffset (bufferLocked g d s) = s_readOffset s"
  "s_finRecv (bufferLocked g d s) = s_finRecv s" "s_recvReset (bufferLocked g d s) = s_recvReset s"
  "s_readCancelled (bufferLocked g d s) = s_readCancelled s" "s_recvErr (bufferLocked g d s) = s_recvErr s"
  "s_canSend (bufferLocked g d s) = s_canSend s" "s_sendOffset (bufferLocked g d s) = s_sendOffset s"
  "s_sendMax (bufferLocked g d s) = s_sendMax s" "s_finSent (bufferLocked g d s) = s_finSent s"
  "s_sendErr (bufferLocked g d s) = s_sendErr s" "s_readSignal (bufferLocked g d s) = s_readSignal s"
  "s_writeSignal (bufferLocked g d s) = s_writeSignal s"
  by (simp_all add: bufferLocked_def Let_def)

definition data_obj :: "(nat \<Rightarrow> nat \<Rightarrow> nat) \<Rightarrow> bytes \<Rightarrow> bool \<Rightarrow> stream \<Rightarrow> stream" where
  "data_obj grow d fin s =
     (let t = s\<lparr>s_recvOffset := s_recvOffset s + u64_len d, s_finRecv := fin\<rparr>
      in (if s_readCancelled s then t else bufferLocked grow d t)\<lparr>s_readSignal := None\<rparr>)"

definition reset_obj :: "u64 \<Rightarrow> u64 \<Rightarrow> stream \<Rightarrow> stream" where
  "reset_obj code finalSize s = s\<lparr>s_recvOffset := finalSize, s_recvReset := True, s_rbuf := [], s_cap := 0,
     s_roff := 0, s_recvErr := (if s_recvErr s = None then Some (StreamError (s_id s) code True) else s_recvErr s),
     s_readSignal := None\<rparr>"

definition cancel_obj :: "u64 \<Rightarrow> stream \<Rightarrow> stream" where
  "cancel_obj code s = s\<lparr>s_readCancelled := True, s_recvErr := Some (StreamError (s_id s) code False),
     s_rbuf := [], s_cap := 0, s_roff := 0, s_readSignal := None\<rparr>"

definition recv_update :: "ptr \<Rightarrow> stream \<Rightarrow> u64 \<Rightarrow> Conn \<Rightarrow> Conn" where
  "recv_update i s r c = c\<lparr>c_objs := (c_objs c)[i := s], c_received := c_received c + r,
     c_closed := set_option (s_readSignal (obj c i)) \<union> c_closed c\<rparr>"

definition data_accepted :: "ptr \<Rightarrow> u64 \<Rightarrow> bytes \<Rightarrow> Conn \<Rightarrow> bool" where
  "data_accepted i off d c \<longleftrightarrow>
     (let s = obj c i
      in off = s_recvOffset s \<and> \<not> s_finRecv s \<and> \<not> s_recvReset s \<and>
         s_recvOffset s + u64_len d \<le> s_recvMax s \<and> c_received c + u64_len d \<le> c_recvMax c)"

lemmas recv_closed_form =
  recv_update_def read_broadcast_def signal_broadcast_eq upd_obj_def consumeLocked_eq window_low_def

lemma receive_data_snd:
  assumes "i < length (c_objs c)"
  shows "snd (receive_data grow i sid off d fin c) =
    (if data_accepted i off d c
     then completeLocked i ((if s_readCancelled (obj c i) then consumeLocked (u64_len d) else id)
       (recv_update i (data_obj grow d fin (obj c i)) (u64_len d) c))
     else c)"
proof (cases "data_accepted i off d c")
  case True
  let ?s = "obj c i"
  have g: "off = s_recvOffset ?s" "\<not> (s_finRecv ?s \<or> s_recvReset ?s)"
    "\<not> s_recvOffset ?s + u64_len d > s_recvMax ?s" "\<not> c_received c + u64_len d > c_recvMax c"
    using True by (auto simp: data_accepted_def Let_def not_less)
  define c1 where "c1 = upd_obj i (\<lambda>s. s\<lparr>s_recvOffset := s_recvOffset s + u64_len d, s_finRecv := fin\<rparr>)
    (c\<lparr>c_received := c_received c + u64_len d\<rparr>)"
  have "read_broadcast i (if s_readCancelled ?s then consumeLocked (u64_len d) c1
      else upd_obj i (bufferLocked grow d) c1) =
    (if s_readCancelled ?s then consumeLocked (u64_len d) else id)
       (recv_update i (data_obj grow d fin ?s) (u64_len d) c)"
    by (rule Conn.equality) (use assms in \<open>simp_all add: c1_def recv_closed_form data_obj_def\<close>)
  then show ?thesis
    using True g by (cases "s_readCancelled ?s")
      (simp_all add: receive_data_def receivedLocked_def Let_def c1_def)
next
  case False
  then show ?thesis
    by (auto simp: receive_data_def receivedLocked_def data_accepted_def Let_def not_less)
qed

definition reset_accepted :: "ptr \<Rightarrow> u64 \<Rightarrow> Conn \<Rightarrow> bool" where
  "reset_accepted i finalSize c \<longleftrightarrow>
     (let s = obj c i
      in s_recvOffset s \<le> finalSize \<and> \<not> s_recvReset s \<and> (s_finRecv s \<longrightarrow> finalSize = s_recvOffset s) \<and>
         finalSize \<le> s_recvMax s \<and> c_received c + (finalSize - s_recvOffset s) \<le> c_recvMax c)"

lemma receive_reset_snd:
  assumes "i < length (c_objs c)"
  shows "snd (receive_reset i sid code finalSize c) =
    (if reset_accepted i finalSize c
     then completeLocked i (consumeLocked
       (finalSize - s_recvOffset (obj c i) + of_nat (length (s_rbuf (obj c i)) - s_roff (obj c i)))
       (recv_update i (reset_obj code finalSize (obj c i)) (finalSize - s_recvOffset (obj c i)) c))
     else c)"
proof (cases "reset_accepted i finalSize c")
  case True
  let ?s = "obj c i"
  have g: "\<not> (finalSize < s_recvOffset ?s \<or> ((s_finRecv ?s \<or> s_recvReset ?s) \<and> finalSize \<noteq> s_recvOffset ?s))"
    "\<not> s_recvReset ?s" "\<not> finalSize > s_recvMax ?s"
    "\<not> c_received c + (finalSize - s_recvOffset ?s) > c_recvMax c"
    using True by (auto simp: reset_accepted_def Let_def not_less)
  let ?n = "finalSize - s_recvOffset ?s + of_nat (length (s_rbuf ?s) - s_roff ?s)"
  have "read_broadcast i (upd_obj i (\<lambda>s. s\<lparr>s_recvOffset := finalSize, s_recvReset := True,
      s_rbuf := [], s_cap := 0, s_roff := 0,
      s_recvErr := (if s_recvErr s = None then Some (StreamError (s_id s) code True) else s_recvErr s)\<rparr>)
      (consumeLocked ?n (c\<lparr>c_received := c_received c + (finalSize - s_recvOffset ?s)\<rparr>))) =
    consumeLocked ?n (recv_update i (reset_obj code finalSize ?s) (finalSize - s_recvOffset ?s) c)"
    by (rule Conn.equality) (use assms in \<open>simp_all add: recv_closed_form reset_obj_def\<close>)
  then show ?thesis
    unfolding receive_reset_def receivedLocked_def Let_def if_not_P [OF g(1)] if_not_P [OF g(2)]
      if_not_P [OF g(3)] if_not_P [OF g(4)] if_P [OF True] prod.case option.case snd_conv
    by (rule arg_cong)
next
  case False
  have guards: "snd (if A then (x, c) else if B then (y, c) else if C then (z, c)
      else case if D then (Some w, c) else (None, c') of (Some e, c) \<Rightarrow> (Some e, c) | (None, c) \<Rightarrow> (v, F c)) = c"
    if "A \<or> B \<or> C \<or> D" for A B C D w and v x y z :: "go_error option" and c' and F :: "Conn \<Rightarrow> Conn"
    using that by auto
  show ?thesis
    unfolding receive_reset_def receivedLocked_def Let_def if_not_P [OF False]
    by (rule guards) (use False in \<open>auto simp: reset_accepted_def Let_def not_less\<close>)
qed

definition cancel_accepted :: "ptr \<Rightarrow> Conn \<Rightarrow> bool" where
  "cancel_accepted i c \<longleftrightarrow> c_closeErr c = None \<and> s_recvErr (obj c i) = None \<and> \<not> recvDone (obj c i)"

lemma cancelRead_eq:
  assumes "i < length (c_objs c)"
  shows "cancelRead i code c =
    (if cancel_accepted i c
     then completeLocked i
       ((if s_finRecv (obj c i) then id else queueLocked (StopSending (s_id (obj c i)) code))
        (consumeLocked (of_nat (length (s_rbuf (obj c i)) - s_roff (obj c i)))
          (recv_update i (cancel_obj code (obj c i)) 0 c)))
     else c)"
proof (cases "cancel_accepted i c")
  case True
  let ?s = "obj c i" and ?n = "of_nat (length (s_rbuf (obj c i)) - s_roff (obj c i))"
  define c1 where "c1 = upd_obj i (\<lambda>s. s\<lparr>s_rbuf := [], s_cap := 0, s_roff := 0\<rparr>) (consumeLocked ?n
    (upd_obj i (\<lambda>s. s\<lparr>s_readCancelled := True, s_recvErr := Some (StreamError (s_id s) code False)\<rparr>) c))"
  have "read_broadcast i (if \<not> s_finRecv ?s then queueLocked (StopSending (s_id ?s) code) c1 else c1) =
    (if s_finRecv ?s then id else queueLocked (StopSending (s_id ?s) code))
      (consumeLocked ?n (recv_update i (cancel_obj code ?s) 0 c))"
    by (rule Conn.equality)
      (use assms in \<open>simp_all add: c1_def recv_closed_form cancel_obj_def queueLocked_def wakeWriter_def\<close>)
  then show ?thesis
    using True by (cases "s_finRecv ?s") (simp_all add: cancelRead_def cancel_accepted_def Let_def c1_def)
next
  case False
  then show ?thesis
    by (auto simp: cancelRead_def cancel_accepted_def Let_def)
qed

subsection \<open>Reading\<close>

abbreviation stream_window :: "Conn \<Rightarrow> u64" where
  "stream_window c \<equiv> cf_InitialStreamReceiveWindow (c_config c)"

abbreviation conn_window :: "Conn \<Rightarrow> u64" where
  "conn_window c \<equiv> cf_InitialConnectionReceiveWindow (c_config c)"

text \<open>The stream behind \<open>readLocked\<close>.\<close>

definition read_obj :: "u64 \<Rightarrow> u64 \<Rightarrow> stream \<Rightarrow> stream" where
  "read_obj w n s =
     (let s = s\<lparr>s_readOffset := s_readOffset s + n\<rparr>
      in if \<not> s_finRecv s \<and> s_recvMax s - s_readOffset s < w div 2
         then s\<lparr>s_recvMax := s_readOffset s + w\<rparr> else s)"

lemma readLocked_eq:
  assumes "i < length (c_objs c)"
  shows "c_objs (readLocked i n c) = (c_objs c)[i := read_obj (stream_window c) n (obj c i)]"
    and "c_config (readLocked i n c) = c_config c"
    and "c_recvMax (readLocked i n c) = c_recvMax (consumeLocked n c)"
    and "c_received (readLocked i n c) = c_received c"
    and "c_consumed (readLocked i n c) = c_consumed c + n"
  using assms
  by (simp_all add: readLocked_def read_obj_def Let_def upd_obj_def consumeLocked_eq window_low_def
      queueLocked_def wakeWriter_def)

subsection \<open>Sending\<close>

text \<open>A change of a stream's sending side, with the wake-up of its writers.\<close>

definition send_update :: "ptr \<Rightarrow> stream \<Rightarrow> Conn \<Rightarrow> Conn" where
  "send_update i s c = c\<lparr>c_objs := (c_objs c)[i := s\<lparr>s_writeSignal := None\<rparr>],
     c_closed := set_option (s_writeSignal (obj c i)) \<union> c_closed c\<rparr>"

definition finish_obj :: "stream \<Rightarrow> stream" where
  "finish_obj s = stream_cancel None (s\<lparr>s_finSent := True\<rparr>)"

definition stop_obj :: "u64 \<Rightarrow> bool \<Rightarrow> stream \<Rightarrow> stream" where
  "stop_obj code remote s =
     stream_cancel (Some (StreamError (s_id s) code remote)) (s\<lparr>s_sendErr := Some (StreamError (s_id s) code remote)\<rparr>)"

lemma send_objs_simps [simp]:
  "s_id (finish_obj s) = s_id s" "s_accepted (finish_obj s) = s_accepted s" "s_done (finish_obj s) = s_done s"
  "s_canRecv (finish_obj s) = s_canRecv s" "s_rbuf (finish_obj s) = s_rbuf s" "s_roff (finish_obj s) = s_roff s"
  "s_recvOffset (finish_obj s) = s_recvOffset s" "s_recvMax (finish_obj s) = s_recvMax s"
  "s_readOffset (finish_obj s) = s_readOffset s" "s_finRecv (finish_obj s) = s_finRecv s"
  "s_recvReset (finish_obj s) = s_recvReset s" "s_readCancelled (finish_obj s) = s_readCancelled s"
  "s_recvErr (finish_obj s) = s_recvErr s" "s_readSignal (finish_obj s) = s_readSignal s"
  "s_canSend (finish_obj s) = s_canSend s" "s_sendOffset (finish_obj s) = s_sendOffset s"
  "s_sendMax (finish_obj s) = s_sendMax s" "s_finSent (finish_obj s)" "s_sendErr (finish_obj s) = s_sendErr s"
  "s_id (stop_obj code r s) = s_id s" "s_accepted (stop_obj code r s) = s_accepted s"
  "s_done (stop_obj code r s) = s_done s"
  "s_canRecv (stop_obj code r s) = s_canRecv s" "s_rbuf (stop_obj code r s) = s_rbuf s"
  "s_roff (stop_obj code r s) = s_roff s"
  "s_recvOffset (stop_obj code r s) = s_recvOffset s" "s_recvMax (stop_obj code r s) = s_recvMax s"
  "s_readOffset (stop_obj code r s) = s_readOffset s" "s_finRecv (stop_obj code r s) = s_finRecv s"
  "s_recvReset (stop_obj code r s) = s_recvReset s" "s_readCancelled (stop_obj code r s) = s_readCancelled s"
  "s_recvErr (stop_obj code r s) = s_recvErr s" "s_readSignal (stop_obj code r s) = s_readSignal s"
  "s_canSend (stop_obj code r s) = s_canSend s" "s_sendOffset (stop_obj code r s) = s_sendOffset s"
  "s_sendMax (stop_obj code r s) = s_sendMax s" "s_finSent (stop_obj code r s) = s_finSent s"
  "s_sendErr (stop_obj code r s) = Some (StreamError (s_id s) code r)"
  by (simp_all add: finish_obj_def stop_obj_def stream_cancel_def)

lemma finish_snd:
  assumes "i < length (c_objs c)"
  shows "snd (finish i c) =
    (if c_closeErr c \<noteq> None \<or> s_finSent (obj c i) \<or> s_sendErr (obj c i) \<noteq> None then c
     else completeLocked i (send_update i (finish_obj (obj c i)) c))"
proof -
  have "write_broadcast i (upd_obj i finish_obj c) = send_update i (finish_obj (obj c i)) c"
    by (rule Conn.equality)
      (use assms in \<open>simp_all add: write_broadcast_def signal_broadcast_eq upd_obj_def send_update_def
        finish_obj_def stream_cancel_def\<close>)
  then show ?thesis by (auto simp: finish_def finish_obj_def [symmetric] Let_def split: option.splits)
qed

lemma resetSendLocked_eq:
  assumes "i < length (c_objs c)"
  shows "resetSendLocked i code remote c =
    (if sendDone (obj c i) then c
     else completeLocked i (queueLocked (ResetStream (s_id (obj c i)) code (s_sendOffset (obj c i)))
       (send_update i (stop_obj code remote (obj c i)) c)))"
proof -
  let ?f = "ResetStream (s_id (obj c i)) code (s_sendOffset (obj c i))"
  let ?r = "StreamError (s_id (obj c i)) code remote"
  have "write_broadcast i (queueLocked ?f
      (upd_obj i (\<lambda>s. stream_cancel (Some ?r) (s\<lparr>s_sendErr := Some ?r\<rparr>)) c)) =
    queueLocked ?f (send_update i (stop_obj code remote (obj c i)) c)"
    by (rule Conn.equality)
      (use assms in \<open>simp_all add: write_broadcast_def signal_broadcast_eq upd_obj_def send_update_def
        queueLocked_def wakeWriter_def stop_obj_def stream_cancel_def\<close>)
  then show ?thesis by (simp add: resetSendLocked_def Let_def)
qed

lemma max_stream_data_eq:
  assumes "i < length (c_objs c)"
  shows "write_broadcast i (upd_obj i (\<lambda>s. s\<lparr>s_sendMax := m\<rparr>) c) =
    send_update i ((obj c i)\<lparr>s_sendMax := m\<rparr>) c"
  by (rule Conn.equality)
    (use assms in \<open>simp_all add: write_broadcast_def signal_broadcast_eq upd_obj_def send_update_def\<close>)

subsection \<open>Opening streams\<close>

lemma open_next_eq:
  "open_next d c =
     (let sid = streamID_of c (i_next (c_in c d)) d False
      in c\<lparr>c_objs := c_objs c @ [new_stream c sid], c_streams := (c_streams c)(sid \<mapsto> length (c_objs c)),
           c_in := (c_in c)(d := (c_in c d)\<lparr>i_queue := i_queue (c_in c d) @ [length (c_objs c)],
             i_next := i_next (c_in c d) + 1, i_signal := None\<rparr>),
           c_closed := set_option (i_signal (c_in c d)) \<union> c_closed c\<rparr>)"
  by (rule Conn.equality)
    (simp_all add: open_next_def newStreamLocked_def upd_in_def in_broadcast_def signal_broadcast_eq Let_def)

lemma tryOpen_snd:
  "snd (tryOpen d c) =
     (if c_closeErr c \<noteq> None then c
      else if o_max (c_out c d) \<le> o_next (c_out c d) then snd (out_wait d c)
      else let sid = streamID_of c (o_next (c_out c d)) d True
           in c\<lparr>c_objs := c_objs c @ [(new_stream c sid)\<lparr>s_accepted := True\<rparr>],
                c_streams := (c_streams c)(sid \<mapsto> length (c_objs c)),
                c_out := (c_out c)(d := (c_out c d)\<lparr>o_next := o_next (c_out c d) + 1\<rparr>)\<rparr>)"
  by (auto simp: tryOpen_def newStreamLocked_def upd_obj_def upd_out_def Let_def split: option.splits prod.splits)

lemma tryAccept_snd:
  "snd (tryAccept d c) =
     (if c_closeErr c \<noteq> None then c
      else case i_queue (c_in c d) of
          [] \<Rightarrow> snd (in_wait d c)
        | p # ps \<Rightarrow> completeLocked p (c\<lparr>c_in := (c_in c)(d := (c_in c d)\<lparr>i_queue := ps\<rparr>),
            c_objs := (c_objs c)[p := (obj c p)\<lparr>s_accepted := True\<rparr>]\<rparr>))"
  by (auto simp: tryAccept_def upd_obj_def upd_in_def Let_def split: option.splits prod.splits list.splits)

lemma handleParametersLocked_eq:
  "handleParametersLocked p c = c\<lparr>c_peer := p, c_ready := True, c_sendMax := InitialMaxData p,
     c_out := (\<lambda>d. (c_out c d)\<lparr>o_max := (case d of dirBidi \<Rightarrow> InitialMaxStreamsBidi p | dirUni \<Rightarrow> InitialMaxStreamsUni p),
       o_signal := None\<rparr>),
     c_idleTimeout := peer_idle (MaxIdleTimeout p) (c_idleTimeout c), c_handshake := Suc (c_handshake c),
     c_sendSignal := None,
     c_closed := set_option (o_signal (c_out c dirUni)) \<union> set_option (o_signal (c_out c dirBidi)) \<union>
       set_option (c_sendSignal c) \<union> c_closed c\<rparr>"
  by (rule Conn.equality)
    (auto simp: handleParametersLocked_def send_broadcast_def out_broadcast_def signal_broadcast_eq upd_out_def
      Let_def fun_eq_iff split: dir.splits)

end
