(* ===== verification/Conn_Steps.thy ===== *)
theory Conn_Steps
  imports Conn_Lemmas
begin

text \<open>A connection as a transition system. What the goroutines and the application do to a connection
  is a sequence of critical sections of its mutex; \<open>conn_op\<close> has one rule for each, with what the
  caller guarantees. The handler of a frame is the opening of the streams it implies, one by one,
  and then the effect on the stream it names, so it is a run of several rules; so are the calls of
  the application that take the mutex more than once. The reachable states are those that runs of
  \<open>conn_op\<close> and of the writer's rounds reach from a new connection.\<close>

section \<open>Steps\<close>

text \<open>A stream the application or a handler has in hand.\<close>

definition receiver :: "ptr \<Rightarrow> Conn \<Rightarrow> bool" where
  "receiver i c \<longleftrightarrow> i < length (c_objs c) \<and> s_canRecv (obj c i)"

definition sender :: "ptr \<Rightarrow> Conn \<Rightarrow> bool" where
  "sender i c \<longleftrightarrow> i < length (c_objs c) \<and> s_canSend (obj c i)"

text \<open>Frames as \<open>Parse\<close> delivers them.\<close>

fun frame_allowed :: "any_frame \<Rightarrow> bool" where
  "frame_allowed (Frame (Stream sid off d fin)) \<longleftrightarrow> length d < 2 ^ 62"
| "frame_allowed (Frame (MaxStreams uni m)) \<longleftrightarrow> unat m \<le> 2 ^ 60"
| "frame_allowed (Frame (TransportParameters p)) \<longleftrightarrow>
     unat (InitialMaxStreamsBidi p) \<le> 2 ^ 60 \<and> unat (InitialMaxStreamsUni p) \<le> 2 ^ 60"
| "frame_allowed _ \<longleftrightarrow> True"

inductive conn_op :: "(nat \<Rightarrow> nat \<Rightarrow> nat) \<Rightarrow> Conn \<Rightarrow> Conn \<Rightarrow> bool" for grow where
  op_open_next: "c_closeErr c = None \<Longrightarrow> c_ready c \<Longrightarrow> i_next (c_in c d) \<le> drop_bit 2 sid \<Longrightarrow>
    drop_bit 2 sid < i_max (c_in c d) \<Longrightarrow> conn_op grow c (open_next d c)"
| op_data: "c_closeErr c = None \<Longrightarrow> receiver i c \<Longrightarrow> length dat < 2 ^ 62 \<Longrightarrow>
    conn_op grow c (snd (receive_data grow i sid off dat fin c))"
| op_reset: "c_closeErr c = None \<Longrightarrow> receiver i c \<Longrightarrow> conn_op grow c (snd (receive_reset i sid code n c))"
| op_stop: "c_closeErr c = None \<Longrightarrow> sender i c \<Longrightarrow> conn_op grow c (resetSendLocked i code remote c)"
| op_max_stream_data: "c_closeErr c = None \<Longrightarrow> sender i c \<Longrightarrow> s_sendMax (obj c i) < m \<Longrightarrow>
    conn_op grow c (write_broadcast i (upd_obj i (\<lambda>s. s\<lparr>s_sendMax := m\<rparr>) c))"
| op_max_data: "c_closeErr c = None \<Longrightarrow> c_ready c \<Longrightarrow> conn_op grow c (handle_MaxData m c)"
| op_max_streams: "c_closeErr c = None \<Longrightarrow> c_ready c \<Longrightarrow> unat m \<le> 2 ^ 60 \<Longrightarrow>
    conn_op grow c (handle_MaxStreams uni m c)"
| op_params: "c_closeErr c = None \<Longrightarrow> \<not> c_ready c \<Longrightarrow> frame_allowed (Frame (TransportParameters p)) \<Longrightarrow>
    conn_op grow c (handleParametersLocked p c)"
| op_ping: "c_closeErr c = None \<Longrightarrow> conn_op grow c (snd (handlePingLocked now response n c))"
| op_datagram: "c_closeErr c = None \<Longrightarrow> conn_op grow c (snd (handleDatagramLocked dat c))"
| op_read: "receiver i c \<Longrightarrow> conn_op grow c (snd (tryRead i k c))"
| op_peek: "receiver i c \<Longrightarrow> conn_op grow c (snd (tryPeek i k c))"
| op_cancelRead: "receiver i c \<Longrightarrow> conn_op grow c (cancelRead i code c)"
| op_readDeadline: "i < length (c_objs c) \<Longrightarrow> conn_op grow c (setReadDeadline i t c)"
| op_writeDeadline: "i < length (c_objs c) \<Longrightarrow> conn_op grow c (setWriteDeadline i t c)"
| op_priority: "i < length (c_objs c) \<Longrightarrow> conn_op grow c (setPriority i urg inc c)"
| op_trySend: "sender i c \<Longrightarrow> conn_op grow c (snd (trySend now i c))"
| op_reserve: "sender i c \<Longrightarrow> conn_op grow c (snd (reserve i n c))"
| op_finish: "sender i c \<Longrightarrow> conn_op grow c (snd (finish i c))"
| op_open: "conn_op grow c (snd (tryOpen d c))"
| op_accept: "conn_op grow c (snd (tryAccept d c))"
| op_receiveDatagram: "c_datagrams c = dat # ds \<Longrightarrow> conn_op grow c (c\<lparr>c_datagrams := ds\<rparr>)"
| op_requestPing: "conn_op grow c (snd (requestPing now c))"
| op_terminate: "conn_op grow c (snd (terminate err c))"
| op_writeRecord: "conn_op grow c (snd (writeRecordLocked tw now buf c))"
| op_transport: "conn_op grow c (c\<lparr>c_tr := tr\<rparr>)"
| op_received: "conn_op grow c (touch now (c\<lparr>c_bytesReceived := nb, c_recordsReceived := nr\<rparr>))"

text \<open>The writer sleeps until \<open>controlWake\<close> has a token; it takes the token, and then what is queued.\<close>

inductive conn_step :: "(nat \<Rightarrow> nat \<Rightarrow> nat) \<Rightarrow> bool \<times> Conn \<Rightarrow> bool \<times> Conn \<Rightarrow> bool" for grow where
  step_op: "conn_op grow c c' \<Longrightarrow> conn_step grow (w, c) (w, c')"
| step_wake: "c_controlWake c \<Longrightarrow> conn_step grow (False, c) (True, c\<lparr>c_controlWake := False\<rparr>)"
| step_take: "conn_step grow (True, c) (False, snd (takeControl now c))"

definition conn_start :: "codec \<Rightarrow> bool \<times> Conn \<Rightarrow> bool" where
  "conn_start q s \<longleftrightarrow> (\<exists>config isServer now. (\<forall>cf. config = Some cf \<longrightarrow> config_int64 cf) \<and>
     s = (False, newConn (normalized q config) isServer now))"

abbreviation conn_run :: "(nat \<Rightarrow> nat \<Rightarrow> nat) \<Rightarrow> bool \<times> Conn \<Rightarrow> bool \<times> Conn \<Rightarrow> bool" where
  "conn_run grow \<equiv> (conn_step grow)\<^sup>*\<^sup>*"

section \<open>Invariants\<close>

text \<open>What holds at the start and is kept by every step holds in every reachable state. A second
  property may rely on the first.\<close>

locale invariant =
  fixes init :: "'s \<Rightarrow> bool" and step :: "'s \<Rightarrow> 's \<Rightarrow> bool" and I :: "'s \<Rightarrow> bool"
  assumes base: "init s \<Longrightarrow> I s"
    and keep: "I s \<Longrightarrow> step s t \<Longrightarrow> I t"
begin

lemma run: "step\<^sup>*\<^sup>* s t \<Longrightarrow> I s \<Longrightarrow> I t"
  by (induction rule: rtranclp_induct) (auto intro: keep)

lemma reachable: "init s \<Longrightarrow> step\<^sup>*\<^sup>* s t \<Longrightarrow> I t"
  using run base by blast

text \<open>What the steps keep from a state on.\<close>

lemma stable:
  assumes "step\<^sup>*\<^sup>* s t" "I s" "P s" "\<And>s t. I s \<Longrightarrow> P s \<Longrightarrow> step s t \<Longrightarrow> P t"
  shows "P t"
proof -
  have "I t \<and> P t" using assms(1-3) by (induction rule: rtranclp_induct) (use keep assms(4) in blast)+
  then show ?thesis by simp
qed

end

locale relative_invariant = invariant init step I
  for init :: "'s \<Rightarrow> bool" and step :: "'s \<Rightarrow> 's \<Rightarrow> bool" and I :: "'s \<Rightarrow> bool" +
  fixes J :: "'s \<Rightarrow> bool"
  assumes base_rel: "init s \<Longrightarrow> J s"
    and keep_rel: "I s \<Longrightarrow> J s \<Longrightarrow> step s t \<Longrightarrow> J t"

sublocale relative_invariant \<subseteq> both: invariant init step "\<lambda>s. I s \<and> J s"
  by unfold_locales (use base base_rel keep keep_rel in blast)+

section \<open>An example\<close>

text \<open>A server with the default configuration, whose client has sent its parameters and opened a
  bidirectional stream.\<close>

definition example_params :: Parameters where
  "example_params = zero_Parameters\<lparr>InitialMaxData := 1000, InitialMaxStreamDataBidiLocal := 100,
     InitialMaxStreamDataBidiRemote := 100, InitialMaxStreamDataUni := 100, InitialMaxStreamsBidi := 4,
     InitialMaxStreamsUni := 4, MaxRecordSize := 16382\<rparr>"

definition example_start :: Conn where
  "example_start = newConn (normalized rfc9000 None) True 0"

definition example_conn :: Conn where
  "example_conn = open_next dirBidi (handleParametersLocked example_params example_start)"

lemma conn_start_example: "conn_start rfc9000 (False, example_start)"
  by (auto simp: conn_start_def example_start_def)

lemma example_start_fields:
  "c_closeErr example_start = None" "\<not> c_ready example_start" "c_objs example_start = []"
  "c_isServer example_start" "i_next (c_in example_start d) = 0" "i_max (c_in example_start d) = 100"
  "i_queue (c_in example_start d) = []" "i_signal (c_in example_start d) = None"
  "c_streams example_start = Map.empty" "c_config example_start = normalized rfc9000 None"
  "c_received example_start = 0" "c_consumed example_start = 0"
  "c_recvMax example_start = cf_InitialConnectionReceiveWindow (normalized rfc9000 None)"
  "c_sent example_start = 0"
  by (cases d; simp add: example_start_def newConn_def new_incoming_def normalized_fields(1,2) [OF refl]
      zero_Config_def streamLimit_def config_defaults)+

lemma conn_run_op: "conn_run grow s (w, c) \<Longrightarrow> conn_op grow c c' \<Longrightarrow> conn_run grow s (w, c')"
  by (meson rtranclp.rtrancl_into_rtrancl step_op)

lemma example_run: "conn_run grow (False, example_start) (False, example_conn)"
proof -
  have "conn_run grow (False, example_start) (False, example_start)" by simp
  then have "conn_run grow (False, example_start) (False, handleParametersLocked example_params example_start)"
    by (rule conn_run_op, intro op_params) (simp_all add: example_start_fields example_params_def)
  then show ?thesis
    unfolding example_conn_def
    by (rule conn_run_op, intro op_open_next [where sid = 0])
      (simp_all add: handleParametersLocked_eq example_start_fields)
qed

end
