(* ===== verification/Stream_Table.thy ===== *)
theory Stream_Table
  imports Conn_Steps
begin

text \<open>The streams of a connection as a table: identifiers and pointers agree, every stream that has
  not ended is in the table until the connection ends, the streams the peer opens stay within the
  configured limit, the accept queue holds exactly the peer's streams the application has not
  accepted; and every operation keeps this.\<close>

section \<open>Stream identifiers\<close>

lemma and_1_iff: "(i :: u64) AND 0x1 = 0x1 \<longleftrightarrow> bit i 0"
  by (simp add: and_one_eq bit_0 odd_iff_mod_2_eq_one)

lemma and_2_iff: "(i :: u64) AND 0x2 \<noteq> 0 \<longleftrightarrow> bit i 1"
proof -
  have b: "bit (0x2 :: u64) n \<longleftrightarrow> n = 1" for n
  proof -
    have "(0x2 :: u64) = push_bit 1 1" by simp
    then show ?thesis by (simp only: bit_push_bit_iff bit_1_iff) auto
  qed
  show ?thesis unfolding bit_eq_iff [of "i AND 0x2"] bit_and_iff b by auto
qed

lemma bit_streamID_of:
  "bit (streamID_of c index d local) n \<longleftrightarrow> n < 64 \<and>
     (if n = 0 then local = c_isServer c else if n = 1 then d = dirUni else bit index (n - 2))"
proof -
  have two: "(0x2 :: u64) = push_bit 1 1" by simp
  have one: "(0x1 :: u64) = push_bit 0 1" by simp
  show ?thesis
    unfolding streamID_of_def two
    by (cases "n = 0"; cases "n = 1") (auto simp: bit_simps Let_def bit_1_iff)
qed

lemma streamID_of_local: "initiatedLocally c (streamID_of c index d local) = local"
  unfolding initiatedLocally_def and_1_iff by (auto simp: bit_streamID_of)

lemma streamID_of_dir: "streamDir (streamID_of c index d local) = d"
  unfolding streamDir_def and_2_iff by (cases d) (simp_all add: bit_streamID_of)

lemma streamID_of_index: "unat index < 2 ^ 62 \<Longrightarrow> drop_bit 2 (streamID_of c index d local) = index"
proof -
  assume "unat index < 2 ^ 62"
  then have "unat (take_bit 62 index) = unat index"
    by (simp add: unsigned_take_bit_eq take_bit_nat_eq_self)
  then have "index = take_bit 62 index" by (metis unsigned_word_eqI)
  then have "bit index n \<longleftrightarrow> n < 62 \<and> bit index n" for n by (metis bit_take_bit_iff)
  then show ?thesis by (intro bit_word_eqI) (auto simp: bit_simps bit_streamID_of)
qed

lemma streamID_of_parts:
  "streamID_of c (drop_bit 2 i) (streamDir i) (initiatedLocally c i) = i"
proof (rule bit_word_eqI)
  fix n assume n: "n < LENGTH(64)"
  have "n \<noteq> 0 \<Longrightarrow> n \<noteq> 1 \<Longrightarrow> 2 + (n - 2) = n" by simp
  then have "bit (streamID_of c (drop_bit 2 i) (streamDir i) (initiatedLocally c i)) n \<longleftrightarrow>
      (if n = 0 then bit i 0 else if n = 1 then bit i 1 else bit i n)"
    using n unfolding bit_streamID_of streamDir_def and_2_iff initiatedLocally_def and_1_iff
    by (cases "n = 0"; cases "n = 1") (auto simp: bit_drop_bit_eq add_ac)
  then show "bit (streamID_of c (drop_bit 2 i) (streamDir i) (initiatedLocally c i)) n = bit i n" by simp
qed

section \<open>The abstract table\<close>

text \<open>What the table of streams is about: of every stream its identifier, whether the application
  holds it, whether it has ended, and its directions; the map from identifiers to streams, the
  counters and the accept queues. \<open>tb_limit\<close> is the configured number of streams.\<close>

record entry =
  e_id :: StreamID
  e_accepted :: bool
  e_done :: bool
  e_canRecv :: bool
  e_canSend :: bool

record table =
  tb_server :: bool
  tb_limit :: "dir \<Rightarrow> nat"
  tb_ended :: bool
  tb_ready :: bool
  tb_streams :: "StreamID \<Rightarrow> ptr option"
  tb_objs :: "entry list"
  tb_onext :: "dir \<Rightarrow> u64"
  tb_omax :: "dir \<Rightarrow> u64"
  tb_inext :: "dir \<Rightarrow> u64"
  tb_imax :: "dir \<Rightarrow> u64"
  tb_queue :: "dir \<Rightarrow> ptr list"

definition entry_of :: "stream \<Rightarrow> entry" where
  "entry_of s = \<lparr>e_id = s_id s, e_accepted = s_accepted s, e_done = s_done s,
     e_canRecv = s_canRecv s, e_canSend = s_canSend s\<rparr>"

definition stream_limit :: "Config \<Rightarrow> dir \<Rightarrow> nat" where
  "stream_limit cf d = nat (case d of dirBidi \<Rightarrow> cf_MaxIncomingStreams cf | dirUni \<Rightarrow> cf_MaxIncomingUniStreams cf)"

definition table_of :: "Conn \<Rightarrow> table" where
  "table_of c = \<lparr>tb_server = c_isServer c, tb_limit = stream_limit (c_config c),
     tb_ended = (c_closeErr c \<noteq> None), tb_ready = c_ready c, tb_streams = c_streams c,
     tb_objs = map entry_of (c_objs c),
     tb_onext = (\<lambda>d. o_next (c_out c d)), tb_omax = (\<lambda>d. o_max (c_out c d)),
     tb_inext = (\<lambda>d. i_next (c_in c d)), tb_imax = (\<lambda>d. i_max (c_in c d)),
     tb_queue = (\<lambda>d. i_queue (c_in c d))\<rparr>"

definition tb_local :: "table \<Rightarrow> StreamID \<Rightarrow> bool" where
  "tb_local t i \<longleftrightarrow> (i AND 0x1 = 0x1) = tb_server t"

definition tb_peer :: "table \<Rightarrow> dir \<Rightarrow> entry \<Rightarrow> bool" where
  "tb_peer t d e \<longleftrightarrow> \<not> tb_local t (e_id e) \<and> streamDir (e_id e) = d"

definition entry_ok :: "table \<Rightarrow> entry \<Rightarrow> bool" where
  "entry_ok t e \<longleftrightarrow>
     (let local = tb_local t (e_id e); d = streamDir (e_id e)
      in e_canRecv e = (d \<noteq> dirUni \<or> \<not> local) \<and> e_canSend e = (d \<noteq> dirUni \<or> local) \<and>
         (local \<longrightarrow> e_accepted e) \<and> (e_done e \<longrightarrow> e_accepted e) \<and>
         drop_bit 2 (e_id e) < (if local then tb_onext t d else tb_inext t d))"

definition peer_ok :: "table \<Rightarrow> dir \<Rightarrow> bool" where
  "peer_ok t d \<longleftrightarrow>
     length (filter (tb_peer t d) (tb_objs t)) = unat (tb_inext t d) \<and>
     unat (tb_imax t d) = tb_limit t d + length (filter (\<lambda>e. tb_peer t d e \<and> e_done e) (tb_objs t)) \<and>
     tb_inext t d \<le> tb_imax t d \<and> unat (tb_inext t d) \<le> 2 ^ 62 \<and> tb_limit t d \<le> 2 ^ 60 \<and>
     distinct (tb_queue t d) \<and>
     set (tb_queue t d) =
       {p. p < length (tb_objs t) \<and> tb_peer t d (tb_objs t ! p) \<and> \<not> e_accepted (tb_objs t ! p)}"

definition table_inv :: "table \<Rightarrow> bool" where
  "table_inv t \<longleftrightarrow>
     (\<forall>e \<in> set (tb_objs t). entry_ok t e) \<and> distinct (map e_id (tb_objs t)) \<and>
     (\<forall>i p. tb_streams t i = Some p \<longrightarrow>
        p < length (tb_objs t) \<and> e_id (tb_objs t ! p) = i \<and> \<not> e_done (tb_objs t ! p)) \<and>
     (\<not> tb_ended t \<longrightarrow> (\<forall>p < length (tb_objs t). \<not> e_done (tb_objs t ! p) \<longrightarrow>
        tb_streams t (e_id (tb_objs t ! p)) = Some p)) \<and>
     (\<forall>d. peer_ok t d) \<and> (\<forall>d. tb_onext t d \<le> tb_omax t d \<and> unat (tb_omax t d) \<le> 2 ^ 60) \<and>
     (\<not> tb_ready t \<longrightarrow> tb_objs t = [] \<and> (\<forall>d. tb_omax t d = 0))"

definition table_ok :: "Conn \<Rightarrow> bool" where
  "table_ok c \<longleftrightarrow> table_inv (table_of c)"

subsection \<open>Abstract operations\<close>

definition tb_new :: "StreamID \<Rightarrow> bool \<Rightarrow> table \<Rightarrow> table" where
  "tb_new i local t = t
     \<lparr>tb_objs := tb_objs t @ [\<lparr>e_id = i, e_accepted = local, e_done = False,
        e_canRecv = (streamDir i \<noteq> dirUni \<or> \<not> local), e_canSend = (streamDir i \<noteq> dirUni \<or> local)\<rparr>],
      tb_streams := (tb_streams t)(i \<mapsto> length (tb_objs t))\<rparr>"

definition tb_open_peer :: "StreamID \<Rightarrow> dir \<Rightarrow> table \<Rightarrow> table" where
  "tb_open_peer i d t = (tb_new i False t)
     \<lparr>tb_inext := (tb_inext t)(d := tb_inext t d + 1),
      tb_queue := (tb_queue t)(d := tb_queue t d @ [length (tb_objs t)])\<rparr>"

definition tb_open_local :: "StreamID \<Rightarrow> dir \<Rightarrow> table \<Rightarrow> table" where
  "tb_open_local i d t = (tb_new i True t)\<lparr>tb_onext := (tb_onext t)(d := tb_onext t d + 1)\<rparr>"

definition tb_accept :: "dir \<Rightarrow> table \<Rightarrow> table" where
  "tb_accept d t = t
     \<lparr>tb_objs := (tb_objs t)[hd (tb_queue t d) := (tb_objs t ! hd (tb_queue t d))\<lparr>e_accepted := True\<rparr>],
      tb_queue := (tb_queue t)(d := tl (tb_queue t d))\<rparr>"

definition tb_complete :: "ptr \<Rightarrow> table \<Rightarrow> table" where
  "tb_complete p t =
     (let e = tb_objs t ! p; d = streamDir (e_id e)
      in t\<lparr>tb_objs := (tb_objs t)[p := e\<lparr>e_done := True\<rparr>],
           tb_streams := (tb_streams t)(e_id e := None),
           tb_imax := (if tb_local t (e_id e) then tb_imax t else (tb_imax t)(d := tb_imax t d + 1))\<rparr>)"

definition tb_end :: "table \<Rightarrow> table" where
  "tb_end t = t\<lparr>tb_ended := True, tb_streams := Map.empty\<rparr>"

subsection \<open>The abstract operations keep the invariant\<close>

lemma entry_ok_mono:
  assumes "entry_ok t e" "tb_server t' = tb_server t" "\<And>d. tb_onext t d \<le> tb_onext t' d"
    "\<And>d. tb_inext t d \<le> tb_inext t' d"
  shows "entry_ok t' e"
proof -
  have l: "tb_local t' = tb_local t" using assms(2) by (simp add: tb_local_def fun_eq_iff)
  show ?thesis
    using assms(1) order.strict_trans2 [OF _ assms(3)] order.strict_trans2 [OF _ assms(4)]
    unfolding entry_ok_def l Let_def by (cases "tb_local t (e_id e)") simp_all
qed

lemma entry_ok_change:
  assumes "entry_ok t e" "e_id e' = e_id e" "e_canRecv e' = e_canRecv e" "e_canSend e' = e_canSend e"
    "e_accepted e \<longrightarrow> e_accepted e'" "e_done e' \<longrightarrow> e_accepted e'"
  shows "entry_ok t e'"
  using assms unfolding entry_ok_def Let_def by (cases "tb_local t (e_id e)") simp_all

lemma next_u64: "(n :: u64) < m \<Longrightarrow> unat (n + 1) = Suc (unat n) \<and> n + 1 \<le> m \<and> n \<le> n + 1"
proof -
  assume "n < m"
  then have "unat n < unat m" by (simp add: word_less_nat_alt)
  moreover have "unat m < 2 ^ 64" using unat_lt_u64 [of m] by simp
  ultimately have "unat (n + 1) = Suc (unat n)" by (simp add: unat_add_u64)
  then show ?thesis using \<open>unat n < unat m\<close> by (simp add: word_le_nat_alt)
qed

text \<open>A stream that is opened has an identifier that no stream has.\<close>

lemma table_inv_fresh:
  assumes "table_inv t" "drop_bit 2 i = (if tb_local t i then tb_onext t (streamDir i) else tb_inext t (streamDir i))"
  shows "i \<notin> e_id ` set (tb_objs t)"
proof
  assume "i \<in> e_id ` set (tb_objs t)"
  then obtain e where "e \<in> set (tb_objs t)" "e_id e = i" by blast
  then have "entry_ok t e" using assms(1) by (simp add: table_inv_def)
  with \<open>e_id e = i\<close> assms(2) show False by (simp add: entry_ok_def Let_def split: if_splits)
qed

lemma table_inv_new:
  assumes inv: "table_inv t" and i: "i \<notin> e_id ` set (tb_objs t)" and t': "t' = tb_new i local t"
  shows "distinct (map e_id (tb_objs t'))"
    "\<forall>j p. tb_streams t' j = Some p \<longrightarrow>
        p < length (tb_objs t') \<and> e_id (tb_objs t' ! p) = j \<and> \<not> e_done (tb_objs t' ! p)"
    "\<not> tb_ended t' \<longrightarrow> (\<forall>p < length (tb_objs t'). \<not> e_done (tb_objs t' ! p) \<longrightarrow>
        tb_streams t' (e_id (tb_objs t' ! p)) = Some p)"
proof -
  show "distinct (map e_id (tb_objs t'))"
    using inv i by (simp add: t' tb_new_def table_inv_def)
  show "\<forall>j p. tb_streams t' j = Some p \<longrightarrow>
        p < length (tb_objs t') \<and> e_id (tb_objs t' ! p) = j \<and> \<not> e_done (tb_objs t' ! p)"
    using inv by (auto simp: t' tb_new_def table_inv_def nth_append less_SucI split: if_splits)
  show "\<not> tb_ended t' \<longrightarrow> (\<forall>p < length (tb_objs t'). \<not> e_done (tb_objs t' ! p) \<longrightarrow>
        tb_streams t' (e_id (tb_objs t' ! p)) = Some p)"
  proof (intro impI allI)
    fix p assume p: "\<not> tb_ended t'" "p < length (tb_objs t')" "\<not> e_done (tb_objs t' ! p)"
    show "tb_streams t' (e_id (tb_objs t' ! p)) = Some p"
    proof (cases "p < length (tb_objs t)")
      case True
      then have "e_id (tb_objs t ! p) \<noteq> i" using i by (metis image_eqI nth_mem)
      then show ?thesis using True p inv by (simp add: t' tb_new_def table_inv_def nth_append)
    next
      case False
      then show ?thesis using p by (simp add: t' tb_new_def nth_append less_Suc_eq)
    qed
  qed
qed

lemma tb_open_peer_inv:
  assumes inv: "table_inv t" and i: "\<not> tb_local t i" "streamDir i = d" "drop_bit 2 i = tb_inext t d"
    and lt: "tb_inext t d < tb_imax t d" "unat (tb_inext t d) < 2 ^ 62" and rdy: "tb_ready t"
  shows "table_inv (tb_open_peer i d t)"
proof -
  let ?t = "tb_open_peer i d t" and ?n = "tb_new i False t"
  have fresh: "i \<notin> e_id ` set (tb_objs t)" using table_inv_fresh [OF inv, of i] i by simp
  note new = table_inv_new [OF inv fresh refl, of False]
  have nx: "unat (tb_inext t d + 1) = Suc (unat (tb_inext t d))" "tb_inext t d + 1 \<le> tb_imax t d"
    "tb_inext t d \<le> tb_inext t d + 1"
    using next_u64 [OF lt(1)] by blast+
  have loc: "tb_local ?t = tb_local t" by (simp add: tb_local_def tb_open_peer_def tb_new_def fun_eq_iff)
  have peer: "tb_peer ?t = tb_peer t" by (simp add: tb_peer_def loc fun_eq_iff)
  have ents: "\<forall>e \<in> set (tb_objs ?t). entry_ok ?t e"
  proof
    fix e assume "e \<in> set (tb_objs ?t)"
    then consider "e \<in> set (tb_objs t)" | "e = last (tb_objs ?n)" by (auto simp: tb_open_peer_def tb_new_def)
    then show "entry_ok ?t e"
    proof cases
      case 1
      then have "entry_ok t e" using inv by (simp add: table_inv_def)
      then show ?thesis by (rule entry_ok_mono) (use nx in \<open>simp_all add: tb_open_peer_def tb_new_def\<close>)
    next
      case 2
      then show ?thesis using i lt nx(1)
        by (simp add: entry_ok_def loc Let_def tb_new_def word_less_nat_alt) (simp add: tb_open_peer_def nx(1))
    qed
  qed
  have pr: "peer_ok ?t d'" for d'
  proof -
    let ?e = "last (tb_objs ?n)"
    have p: "peer_ok t d'" using inv by (simp add: table_inv_def)
    have e: "tb_peer t d' ?e = (d' = d)" "\<not> e_done ?e" "\<not> e_accepted ?e"
      using i by (auto simp: tb_peer_def tb_new_def)
    have o: "tb_objs ?t = tb_objs t @ [?e]" by (simp add: tb_open_peer_def tb_new_def)
    have q: "{p. p < length (tb_objs ?t) \<and> tb_peer t d' (tb_objs ?t ! p) \<and> \<not> e_accepted (tb_objs ?t ! p)} =
       {p. p < length (tb_objs t) \<and> tb_peer t d' (tb_objs t ! p) \<and> \<not> e_accepted (tb_objs t ! p)} \<union>
       (if d' = d then {length (tb_objs t)} else {})"
      unfolding o using e by (auto simp: nth_append less_Suc_eq)
    show ?thesis
      using p e nx lt unfolding peer_ok_def peer q
      by (cases "d' = d") (simp_all add: o, simp_all add: tb_open_peer_def tb_new_def)
  qed
  have f: "tb_objs ?t = tb_objs ?n" "tb_streams ?t = tb_streams ?n" "tb_ended ?t = tb_ended ?n"
    "tb_onext ?t = tb_onext t" "tb_omax ?t = tb_omax t" "tb_ready ?t = tb_ready t"
    by (simp_all add: tb_open_peer_def tb_new_def)
  show ?thesis
    unfolding table_inv_def
  proof (intro conjI)
    show "\<forall>d. tb_onext ?t d \<le> tb_omax ?t d \<and> unat (tb_omax ?t d) \<le> 2 ^ 60"
      using inv by (simp add: f table_inv_def)
  qed (use ents pr new rdy in \<open>unfold f, blast+\<close>)
qed

lemma tb_open_local_inv:
  assumes inv: "table_inv t" and i: "tb_local t i" "streamDir i = d" "drop_bit 2 i = tb_onext t d"
    and lt: "tb_onext t d < tb_omax t d"
  shows "table_inv (tb_open_local i d t)"
proof -
  let ?t = "tb_open_local i d t" and ?n = "tb_new i True t"
  have rdy: "tb_ready t" using inv lt by (auto simp: table_inv_def)
  have fresh: "i \<notin> e_id ` set (tb_objs t)" using table_inv_fresh [OF inv, of i] i by simp
  note new = table_inv_new [OF inv fresh refl, of True]
  have nx: "unat (tb_onext t d + 1) = Suc (unat (tb_onext t d))" "tb_onext t d + 1 \<le> tb_omax t d"
    "tb_onext t d \<le> tb_onext t d + 1"
    using next_u64 [OF lt] by blast+
  have loc: "tb_local ?t = tb_local t" by (simp add: tb_local_def tb_open_local_def tb_new_def fun_eq_iff)
  have peer: "tb_peer ?t = tb_peer t" by (simp add: tb_peer_def loc fun_eq_iff)
  let ?e = "last (tb_objs ?n)"
  have o: "tb_objs ?t = tb_objs t @ [?e]" by (simp add: tb_open_local_def tb_new_def)
  have ents: "\<forall>e \<in> set (tb_objs ?t). entry_ok ?t e"
  proof
    fix e assume "e \<in> set (tb_objs ?t)"
    then consider "e \<in> set (tb_objs t)" | "e = ?e" by (auto simp: o)
    then show "entry_ok ?t e"
    proof cases
      case 1
      then have "entry_ok t e" using inv by (simp add: table_inv_def)
      then show ?thesis by (rule entry_ok_mono) (use nx in \<open>simp_all add: tb_open_local_def tb_new_def\<close>)
    next
      case 2
      then show ?thesis using i lt nx(1)
        by (simp add: entry_ok_def loc Let_def tb_new_def word_less_nat_alt) (simp add: tb_open_local_def nx(1))
    qed
  qed
  have pr: "peer_ok ?t d'" for d'
  proof -
    have p: "peer_ok t d'" using inv by (simp add: table_inv_def)
    have e: "\<not> tb_peer t d' ?e" using i by (simp add: tb_peer_def tb_new_def)
    have q: "{p. p < length (tb_objs ?t) \<and> tb_peer t d' (tb_objs ?t ! p) \<and> \<not> e_accepted (tb_objs ?t ! p)} =
       {p. p < length (tb_objs t) \<and> tb_peer t d' (tb_objs t ! p) \<and> \<not> e_accepted (tb_objs t ! p)}"
      unfolding o using e by (auto simp: nth_append less_Suc_eq)
    show ?thesis
      using p e unfolding peer_ok_def peer q by (simp add: o) (simp add: tb_open_local_def tb_new_def)
  qed
  have f: "tb_objs ?t = tb_objs ?n" "tb_streams ?t = tb_streams ?n" "tb_ended ?t = tb_ended ?n"
    "tb_omax ?t = tb_omax t" "tb_ready ?t = tb_ready t"
    by (simp_all add: tb_open_local_def tb_new_def)
  show ?thesis
    unfolding table_inv_def
  proof (intro conjI)
    show "\<forall>d. tb_onext ?t d \<le> tb_omax ?t d \<and> unat (tb_omax ?t d) \<le> 2 ^ 60"
      using inv nx(2) by (simp add: f table_inv_def) (simp add: tb_open_local_def)
  qed (use ents pr new rdy in \<open>unfold f, blast+\<close>)
qed

text \<open>A change of one entry that keeps its identifier and directions.\<close>

lemma filter_update:
  assumes "p < length xs"
  shows "length (filter P (xs[p := y])) + (if P (xs ! p) then 1 else 0) = length (filter P xs) + (if P y then 1 else 0)"
proof -
  have "xs = take p xs @ xs ! p # drop (Suc p) xs" using assms by (rule id_take_nth_drop)
  then have "length (filter P xs) = length (filter P (take p xs @ xs ! p # drop (Suc p) xs))" by (rule arg_cong)
  also have "\<dots> = length (filter P (take p xs)) + (if P (xs ! p) then 1 else 0) + length (filter P (drop (Suc p) xs))"
    by (simp only: filter_append length_append filter.simps(2)) simp
  finally have "length (filter P xs) = \<dots>" .
  moreover have "xs[p := y] = take p xs @ y # drop (Suc p) xs" using assms by (rule upd_conv_take_nth_drop)
  ultimately show ?thesis by simp
qed

lemma tb_accept_inv:
  assumes inv: "table_inv t" and q: "tb_queue t d \<noteq> []"
  shows "table_inv (tb_accept d t)"
proof -
  let ?t = "tb_accept d t" and ?p = "hd (tb_queue t d)"
  let ?e = "(tb_objs t ! ?p)\<lparr>e_accepted := True\<rparr>"
  have pk: "peer_ok t d'" for d' using inv by (simp add: table_inv_def)
  have "?p \<in> set (tb_queue t d)" using q by simp
  then have p: "?p < length (tb_objs t)" "tb_peer t d (tb_objs t ! ?p)" "\<not> e_accepted (tb_objs t ! ?p)"
    using pk [of d] by (auto simp: peer_ok_def)
  have loc: "tb_local ?t = tb_local t" by (simp add: tb_local_def tb_accept_def fun_eq_iff)
  have peer: "tb_peer ?t = tb_peer t" by (simp add: tb_peer_def loc fun_eq_iff)
  have o: "tb_objs ?t = (tb_objs t)[?p := ?e]" by (simp add: tb_accept_def)
  have nth: "tb_objs ?t ! p' = (if p' = ?p then ?e else tb_objs t ! p')" if "p' < length (tb_objs t)" for p'
    using that by (simp add: o nth_list_update)
  have len: "length (tb_objs ?t) = length (tb_objs t)" by (simp add: o)
  have ids: "map e_id (tb_objs ?t) = map e_id (tb_objs t)" unfolding o using p(1)
    by (simp add: map_update) (metis list_update_id nth_map)
  have ents: "\<forall>e \<in> set (tb_objs ?t). entry_ok ?t e"
  proof
    fix e assume "e \<in> set (tb_objs ?t)"
    then have "e = ?e \<or> e \<in> set (tb_objs t)" by (auto simp: o dest: set_update_subset_insert [THEN subsetD])
    moreover have "entry_ok t (tb_objs t ! ?p)" using p(1) inv by (simp add: table_inv_def)
    then have "entry_ok t ?e" by (rule entry_ok_change) simp_all
    ultimately have "entry_ok t e" using inv by (auto simp: table_inv_def)
    then show "entry_ok ?t e" by (rule entry_ok_mono) (simp_all add: tb_accept_def)
  qed
  have pr: "peer_ok ?t d'" for d'
  proof -
    have te: "tb_peer t d' ?e = tb_peer t d' (tb_objs t ! ?p)" by (simp add: tb_peer_def)
    have dn: "e_done ?e = e_done (tb_objs t ! ?p)" by simp
    have q': "{p. p < length (tb_objs ?t) \<and> tb_peer t d' (tb_objs ?t ! p) \<and> \<not> e_accepted (tb_objs ?t ! p)} =
       {p. p < length (tb_objs t) \<and> tb_peer t d' (tb_objs t ! p) \<and> \<not> e_accepted (tb_objs t ! p)} - {?p}"
      using p nth len by (auto split: if_splits)
    have qs: "set (tb_queue ?t d') = set (tb_queue t d') - {?p}" "distinct (tb_queue ?t d')"
    proof -
      have dq: "distinct (tb_queue t d')" using pk by (simp add: peer_ok_def)
      have "d' \<noteq> d \<Longrightarrow> ?p \<notin> set (tb_queue t d')" using pk [of d'] p by (auto simp: peer_ok_def tb_peer_def)
      then show "set (tb_queue ?t d') = set (tb_queue t d') - {?p}"
        using dq q by (cases "d' = d"; cases "tb_queue t d") (auto simp: tb_accept_def)
      show "distinct (tb_queue ?t d')" using dq by (auto simp: tb_accept_def distinct_tl)
    qed
    have n: "length (filter (tb_peer t d') (tb_objs ?t)) = length (filter (tb_peer t d') (tb_objs t))"
      "length (filter (\<lambda>e. tb_peer t d' e \<and> e_done e) (tb_objs ?t)) = length (filter (\<lambda>e. tb_peer t d' e \<and> e_done e) (tb_objs t))"
      using filter_update [OF p(1), of "tb_peer t d'" ?e] filter_update [OF p(1), of "\<lambda>e. tb_peer t d' e \<and> e_done e" ?e]
      unfolding o te dn by simp_all
    have same: "tb_inext ?t = tb_inext t" "tb_imax ?t = tb_imax t" "tb_limit ?t = tb_limit t"
      by (simp_all add: tb_accept_def)
    show ?thesis using pk [of d'] unfolding peer_ok_def peer q' qs(1) n same using qs(2) by simp
  qed
  have f: "tb_streams ?t = tb_streams t" "tb_ended ?t = tb_ended t" "tb_onext ?t = tb_onext t"
    "tb_omax ?t = tb_omax t" "tb_ready ?t = tb_ready t"
    by (simp_all add: tb_accept_def)
  have idp: "e_id (tb_objs ?t ! p') = e_id (tb_objs t ! p')" "e_done (tb_objs ?t ! p') = e_done (tb_objs t ! p')"
    if "p' < length (tb_objs t)" for p' using nth [OF that] by simp_all
  show ?thesis
    unfolding table_inv_def f ids len
  proof (intro conjI)
    show "\<forall>i p. tb_streams t i = Some p \<longrightarrow> p < length (tb_objs t) \<and> e_id (tb_objs ?t ! p) = i \<and> \<not> e_done (tb_objs ?t ! p)"
      using inv idp by (simp add: table_inv_def)
    show "\<not> tb_ended t \<longrightarrow> (\<forall>p < length (tb_objs t). \<not> e_done (tb_objs ?t ! p) \<longrightarrow> tb_streams t (e_id (tb_objs ?t ! p)) = Some p)"
      using inv idp by (simp add: table_inv_def)
    show "\<not> tb_ready t \<longrightarrow> tb_objs ?t = [] \<and> (\<forall>d. tb_omax t d = 0)" using inv p(1) by (auto simp: table_inv_def)
  qed (use ents pr inv in \<open>auto simp: table_inv_def\<close>)
qed

lemma tb_complete_inv:
  assumes inv: "table_inv t" and p: "p < length (tb_objs t)"
    and e: "\<not> e_done (tb_objs t ! p)" "e_accepted (tb_objs t ! p)"
  shows "table_inv (tb_complete p t)"
proof -
  let ?t = "tb_complete p t" and ?o = "tb_objs t ! p"
  let ?e = "?o\<lparr>e_done := True\<rparr>" and ?d = "streamDir (e_id (tb_objs t ! p))"
  have pk: "peer_ok t d'" for d' using inv by (simp add: table_inv_def)
  have loc: "tb_local ?t = tb_local t" by (simp add: tb_local_def tb_complete_def Let_def fun_eq_iff)
  have peer: "tb_peer ?t = tb_peer t" by (simp add: tb_peer_def loc fun_eq_iff)
  have o: "tb_objs ?t = (tb_objs t)[p := ?e]" by (simp add: tb_complete_def Let_def)
  have nth: "tb_objs ?t ! p' = (if p' = p then ?e else tb_objs t ! p')" if "p' < length (tb_objs t)" for p'
    using that by (simp add: o nth_list_update)
  have len: "length (tb_objs ?t) = length (tb_objs t)" by (simp add: o)
  have ids: "map e_id (tb_objs ?t) = map e_id (tb_objs t)" unfolding o using p
    by (simp add: map_update) (metis list_update_id nth_map)
  have same: "tb_inext ?t = tb_inext t" "tb_limit ?t = tb_limit t" "tb_queue ?t = tb_queue t"
    "tb_ended ?t = tb_ended t" "tb_onext ?t = tb_onext t" "tb_omax ?t = tb_omax t" "tb_ready ?t = tb_ready t"
    "tb_streams ?t = (tb_streams t)(e_id ?o := None)"
    by (simp_all add: tb_complete_def Let_def)
  have ents: "\<forall>e \<in> set (tb_objs ?t). entry_ok ?t e"
  proof
    fix e' assume "e' \<in> set (tb_objs ?t)"
    then have "e' = ?e \<or> e' \<in> set (tb_objs t)" by (auto simp: o dest: set_update_subset_insert [THEN subsetD])
    moreover have "entry_ok t ?o" using p inv by (simp add: table_inv_def)
    then have "entry_ok t ?e" by (rule entry_ok_change) (use e in simp_all)
    ultimately have "entry_ok t e'" using inv by (auto simp: table_inv_def)
    then show "entry_ok ?t e'" by (rule entry_ok_mono) (simp_all add: same, simp add: tb_complete_def Let_def)
  qed
  have pr: "peer_ok ?t d'" for d'
  proof -
    have te: "tb_peer t d' ?e = tb_peer t d' ?o" by (simp add: tb_peer_def)
    have q': "{p. p < length (tb_objs ?t) \<and> tb_peer t d' (tb_objs ?t ! p) \<and> \<not> e_accepted (tb_objs ?t ! p)} =
       {p. p < length (tb_objs t) \<and> tb_peer t d' (tb_objs t ! p) \<and> \<not> e_accepted (tb_objs t ! p)}"
      using p e nth len by (auto simp: tb_peer_def split: if_splits)
    let ?D = "\<lambda>e. tb_peer t d' e \<and> e_done e"
    have n: "length (filter (tb_peer t d') (tb_objs ?t)) = length (filter (tb_peer t d') (tb_objs t))"
      using filter_update [OF p, of "tb_peer t d'" ?e] unfolding o te by simp
    have nd: "length (filter ?D (tb_objs ?t)) = length (filter ?D (tb_objs t)) + (if tb_peer t d' ?o then 1 else 0)"
      using filter_update [OF p, of ?D ?e] e te unfolding o by simp
    have "length (filter ?D xs) \<le> length (filter (tb_peer t d') xs)" for xs
      by (induction xs) (auto intro: le_SucI)
    then have "length (filter ?D (tb_objs t)) \<le> length (filter (tb_peer t d') (tb_objs t))" .
    then have "unat (tb_imax t d') \<le> 2 ^ 60 + 2 ^ 62" using pk [of d'] by (simp add: peer_ok_def)
    then have mx: "unat (tb_imax t d' + 1) = Suc (unat (tb_imax t d'))" by (simp add: unat_add_u64)
    have im: "tb_imax ?t d' = tb_imax t d' + (if tb_peer t d' ?o then 1 else 0)"
      by (auto simp: tb_complete_def tb_peer_def Let_def)
    have "tb_imax t d' \<le> tb_imax ?t d'" using mx by (simp add: im word_le_nat_alt)
    moreover have "tb_inext t d' \<le> tb_imax t d'" using pk [of d'] by (simp add: peer_ok_def)
    ultimately have "tb_inext t d' \<le> tb_imax ?t d'" by (meson order_trans)
    then show ?thesis
      using pk [of d'] mx unfolding peer_ok_def peer q' n nd same by (simp add: im)
  qed
  have dist: "distinct (map e_id (tb_objs t))" using inv by (simp add: table_inv_def)
  have inj: "p' = p" if "p' < length (tb_objs t)" "e_id (tb_objs t ! p') = e_id ?o" for p'
    using that dist p nth_eq_iff_index_eq [of "map e_id (tb_objs t)" p' p] by simp
  show ?thesis
    unfolding table_inv_def ids len same
  proof (intro conjI)
    show "\<forall>i p'. ((tb_streams t)(e_id ?o := None)) i = Some p' \<longrightarrow>
        p' < length (tb_objs t) \<and> e_id (tb_objs ?t ! p') = i \<and> \<not> e_done (tb_objs ?t ! p')"
      using inv nth by (auto simp: table_inv_def)
    show "\<not> tb_ended t \<longrightarrow> (\<forall>p' < length (tb_objs t). \<not> e_done (tb_objs ?t ! p') \<longrightarrow>
        ((tb_streams t)(e_id ?o := None)) (e_id (tb_objs ?t ! p')) = Some p')"
    proof (intro impI allI)
      fix p' assume a: "\<not> tb_ended t" "p' < length (tb_objs t)" "\<not> e_done (tb_objs ?t ! p')"
      then have "p' \<noteq> p" using nth by auto
      then have "e_id (tb_objs t ! p') \<noteq> e_id ?o" using inj a(2) by blast
      then show "((tb_streams t)(e_id ?o := None)) (e_id (tb_objs ?t ! p')) = Some p'"
        using a \<open>p' \<noteq> p\<close> nth inv by (simp add: table_inv_def)
    qed
    show "\<not> tb_ready t \<longrightarrow> tb_objs ?t = [] \<and> (\<forall>d. tb_omax t d = 0)" using inv p by (auto simp: table_inv_def)
  qed (use ents pr inv in \<open>auto simp: table_inv_def\<close>)
qed

lemma tb_end_inv: "table_inv t \<Longrightarrow> table_inv (tb_end t)"
proof -
  assume inv: "table_inv t"
  let ?t = "tb_end t"
  have loc: "tb_local ?t = tb_local t" by (simp add: tb_local_def tb_end_def fun_eq_iff)
  have peer: "tb_peer ?t = tb_peer t" by (simp add: tb_peer_def loc fun_eq_iff)
  have "entry_ok ?t e = entry_ok t e" "peer_ok ?t d = peer_ok t d" for e d
    unfolding entry_ok_def peer_ok_def peer loc by (simp_all add: tb_end_def)
  then show ?thesis using inv by (simp add: table_inv_def) (simp add: tb_end_def)
qed

text \<open>The peer's parameters and its MAX\_STREAMS frames raise the limits of the streams this endpoint
  opens.\<close>

definition tb_allow :: "(dir \<Rightarrow> u64) \<Rightarrow> table \<Rightarrow> table" where
  "tb_allow m t = t\<lparr>tb_omax := m, tb_ready := True\<rparr>"

lemma tb_allow_inv:
  assumes inv: "table_inv t" and m: "\<And>d. tb_omax t d \<le> m d" "\<And>d. unat (m d) \<le> 2 ^ 60"
  shows "table_inv (tb_allow m t)"
proof -
  let ?t = "tb_allow m t"
  have loc: "tb_local ?t = tb_local t" by (simp add: tb_local_def tb_allow_def fun_eq_iff)
  have peer: "tb_peer ?t = tb_peer t" by (simp add: tb_peer_def loc fun_eq_iff)
  have "entry_ok ?t e = entry_ok t e" "peer_ok ?t d = peer_ok t d" for e d
    unfolding entry_ok_def peer_ok_def peer loc by (simp_all add: tb_allow_def)
  moreover have "tb_onext t d \<le> m d" for d
    using inv m(1) [of d] order_trans [of "tb_onext t d" "tb_omax t d" "m d"] by (simp add: table_inv_def)
  ultimately show ?thesis using inv m by (simp add: table_inv_def) (simp add: tb_allow_def)
qed

text \<open>The streams of the peer that have not ended, and those that wait to be accepted, are within the
  configured limit.\<close>

lemma table_inv_limit:
  assumes "table_inv t"
  shows "length (filter (\<lambda>e. tb_peer t d e \<and> \<not> e_done e) (tb_objs t)) \<le> tb_limit t d"
    "length (tb_queue t d) \<le> tb_limit t d"
proof -
  have pk: "peer_ok t d" using assms by (simp add: table_inv_def)
  let ?P = "\<lambda>e. tb_peer t d e \<and> \<not> e_done e"
  have "length (filter (tb_peer t d) xs) = length (filter ?P xs) + length (filter (\<lambda>e. tb_peer t d e \<and> e_done e) xs)" for xs
    by (induction xs) auto
  moreover have "unat (tb_inext t d) \<le> unat (tb_imax t d)" using pk by (simp add: peer_ok_def word_le_nat_alt)
  ultimately show lim: "length (filter ?P (tb_objs t)) \<le> tb_limit t d"
    using pk by (simp add: peer_ok_def)
  have "set (tb_queue t d) \<subseteq> {p. p < length (tb_objs t) \<and> ?P (tb_objs t ! p)}"
  proof
    fix p assume "p \<in> set (tb_queue t d)"
    then have p: "p < length (tb_objs t)" "tb_peer t d (tb_objs t ! p)" "\<not> e_accepted (tb_objs t ! p)"
      using pk by (auto simp: peer_ok_def)
    then have "entry_ok t (tb_objs t ! p)" using assms by (simp add: table_inv_def)
    then show "p \<in> {p. p < length (tb_objs t) \<and> ?P (tb_objs t ! p)}"
      using p by (auto simp: entry_ok_def Let_def)
  qed
  then have "card (set (tb_queue t d)) \<le> card {p. p < length (tb_objs t) \<and> ?P (tb_objs t ! p)}"
    by (intro card_mono) auto
  also have "\<dots> = length (filter ?P (tb_objs t))" by (simp add: length_filter_conv_card)
  finally have "card (set (tb_queue t d)) \<le> tb_limit t d" using lim by (rule order_trans)
  moreover have "distinct (tb_queue t d)" using pk by (simp add: peer_ok_def)
  ultimately show "length (tb_queue t d) \<le> tb_limit t d" by (simp only: distinct_card)
qed

text \<open>The steps of the table.\<close>

inductive table_step :: "table \<Rightarrow> table \<Rightarrow> bool" where
  table_open_peer: "\<not> tb_ended t \<Longrightarrow> tb_ready t \<Longrightarrow> \<not> tb_local t i \<Longrightarrow> streamDir i = d \<Longrightarrow>
    drop_bit 2 i = tb_inext t d \<Longrightarrow> tb_inext t d < tb_imax t d \<Longrightarrow> unat (tb_inext t d) < 2 ^ 62 \<Longrightarrow>
    table_step t (tb_open_peer i d t)"
| table_open_local: "\<not> tb_ended t \<Longrightarrow> tb_local t i \<Longrightarrow> streamDir i = d \<Longrightarrow>
    drop_bit 2 i = tb_onext t d \<Longrightarrow> tb_onext t d < tb_omax t d \<Longrightarrow> table_step t (tb_open_local i d t)"
| table_accept: "\<not> tb_ended t \<Longrightarrow> tb_queue t d \<noteq> [] \<Longrightarrow> table_step t (tb_accept d t)"
| table_complete: "p < length (tb_objs t) \<Longrightarrow> \<not> e_done (tb_objs t ! p) \<Longrightarrow> e_accepted (tb_objs t ! p) \<Longrightarrow>
    table_step t (tb_complete p t)"
| table_end: "\<not> tb_ended t \<Longrightarrow> table_step t (tb_end t)"
| table_allow: "\<not> tb_ended t \<Longrightarrow> (\<And>d. tb_omax t d \<le> m d) \<Longrightarrow> (\<And>d. unat (m d) \<le> 2 ^ 60) \<Longrightarrow>
    table_step t (tb_allow m t)"

lemma table_step_inv: "table_step t t' \<Longrightarrow> table_inv t \<Longrightarrow> table_inv t'"
  by (induction rule: table_step.induct)
    (simp_all add: tb_open_peer_inv tb_open_local_inv tb_accept_inv tb_complete_inv tb_end_inv tb_allow_inv)

lemma table_steps_inv: "table_step\<^sup>*\<^sup>* t t' \<Longrightarrow> table_inv t \<Longrightarrow> table_inv t'"
  by (induction rule: rtranclp_induct) (auto intro: table_step_inv)

section \<open>Refinement\<close>

text \<open>The operations of the connection implement the abstract ones; all others leave the table.\<close>

lemma tb_local_table_of [simp]: "tb_local (table_of c) i = initiatedLocally c i"
  by (simp add: tb_local_def table_of_def initiatedLocally_def)

lemma table_of_signals:
  "i < length (c_objs c) \<Longrightarrow> table_of (read_broadcast i c) = table_of c"
  "i < length (c_objs c) \<Longrightarrow> table_of (write_broadcast i c) = table_of c"
  "table_of (send_broadcast c) = table_of c" "table_of (out_broadcast d c) = table_of c"
  "table_of (in_broadcast d c) = table_of c" "table_of (snd (read_wait i c)) = table_of c"
  "table_of (snd (write_wait i c)) = table_of c" "table_of (snd (send_wait c)) = table_of c"
  "table_of (snd (out_wait d c)) = table_of c" "table_of (snd (in_wait d c)) = table_of c"
  by (simp_all add: table_of_def broadcast_defs wait_defs upd_defs map_view_update entry_of_def fun_eq_iff)

lemma table_of_upd_obj:
  "entry_of (f (obj c i)) = entry_of (obj c i) \<Longrightarrow> table_of (upd_obj i f c) = table_of c"
  by (simp add: table_of_def upd_obj_def map_view_update)

lemma table_of_writer [simp]:
  "table_of (queueLocked f c) = table_of c" "table_of (wakeWriter c) = table_of c"
  "table_of (consumeLocked n c) = table_of c" "table_of (touch now c) = table_of c"
  "table_of (tr_close c) = table_of c"
  by (simp_all add: table_of_def queueLocked_def wakeWriter_def consumeLocked_eq touch_def tr_close_def)

lemma entry_of_new_stream:
  "entry_of (new_stream c i) = \<lparr>e_id = i, e_accepted = False, e_done = False,
     e_canRecv = (streamDir i \<noteq> dirUni \<or> \<not> initiatedLocally c i),
     e_canSend = (streamDir i \<noteq> dirUni \<or> initiatedLocally c i)\<rparr>"
  by (simp add: new_stream_def entry_of_def zero_stream_def Let_def)

lemma table_of_open_next:
  "table_of (open_next d c) = tb_open_peer (streamID_of c (i_next (c_in c d)) d False) d (table_of c)"
  by (simp add: open_next_def newStreamLocked_def Let_def table_of_signals)
    (simp add: table_of_def tb_open_peer_def tb_new_def upd_in_def entry_of_new_stream streamID_of_local
      streamID_of_dir fun_eq_iff)

lemma completeLocked_not: "\<not> completes (obj c i) \<Longrightarrow> completeLocked i c = c"
  by (auto simp: completeLocked_def completes_def Let_def)

lemma table_of_complete:
  assumes "i < length (c_objs c)"
  shows "table_of (completeLocked i c) = (if completes (obj c i) then tb_complete i (table_of c) else table_of c)"
proof (cases "completes (obj c i)")
  case True
  then show ?thesis using assms
    by (auto simp: completeLocked_eq table_of_def tb_complete_def complete_obj_def frees_def entry_of_def
        map_update tb_local_def initiatedLocally_def Let_def fun_eq_iff)
qed (simp add: completeLocked_not)

text \<open>A change outside the table, up to the completion of one stream.\<close>

lemma complete_refines:
  assumes "table_of c' = table_of c" "i < length (c_objs c)"
  shows "table_step\<^sup>*\<^sup>* (table_of c) (table_of (completeLocked i c'))"
proof -
  have "length (tb_objs (table_of c')) = length (tb_objs (table_of c))" by (simp add: assms(1))
  then have i: "i < length (c_objs c')" using assms(2) by (simp add: table_of_def)
  show ?thesis
  proof (cases "completes (obj c' i)")
    case True
    have "table_step (table_of c') (tb_complete i (table_of c'))"
      by (rule table_complete) (use True i in \<open>simp_all add: table_of_def entry_of_def completes_def\<close>)
    then show ?thesis using True i assms(1) by (simp add: table_of_complete)
  qed (use assms in \<open>simp add: completeLocked_not\<close>)
qed

lemma recv_objs_table [simp]:
  "entry_of (data_obj grow d fin s) = entry_of s" "entry_of (reset_obj code n s) = entry_of s"
  "entry_of (cancel_obj code s) = entry_of s" "entry_of (take_unread k s) = entry_of s"
  "entry_of (finish_obj s) = entry_of s" "entry_of (stop_obj code r s) = entry_of s"
  by (simp_all add: entry_of_def data_obj_def reset_obj_def cancel_obj_def take_unread_def Let_def)

lemma table_of_recv_update:
  "entry_of s = entry_of (obj c i) \<Longrightarrow> table_of (recv_update i s n c) = table_of c"
  by (simp add: table_of_def recv_update_def map_view_update)

lemma table_of_send_update:
  "entry_of s = entry_of (obj c i) \<Longrightarrow> table_of (send_update i s c) = table_of c"
  by (simp add: table_of_def send_update_def map_view_update) (simp add: entry_of_def map_view_update)

lemma table_of_readLocked: "i < length (c_objs c) \<Longrightarrow> table_of (readLocked i n c) = table_of c"
  by (simp add: readLocked_def Let_def table_of_upd_obj entry_of_def)

lemma tryRead_refines:
  assumes "i < length (c_objs c)"
  shows "table_step\<^sup>*\<^sup>* (table_of c) (table_of (snd (tryRead i k c)))"
proof -
  have "i < length (c_objs (upd_obj i (take_unread m) c))" for m using assms by (simp add: upd_obj_def)
  then have "table_of (readLocked i n (upd_obj i (take_unread m) c)) = table_of c" for n m
    by (simp add: table_of_readLocked table_of_upd_obj)
  then show ?thesis
    using assms table_of_signals(6) [of i c]
    by (auto simp: tryRead_def Let_def split: option.splits prod.splits intro: complete_refines)
qed

lemma open_next_refines:
  assumes le: "i_next (c_in c d) \<le> drop_bit 2 rawID" "drop_bit 2 rawID < i_max (c_in c d)"
    and rdy: "c_ready c" "c_closeErr c = None"
  shows "table_step (table_of c) (table_of (open_next d c))"
proof -
  have n: "unat (i_next (c_in c d)) < 2 ^ 62"
    using le(1) drop_bit_u64_lt [of rawID] by (simp add: word_le_nat_alt)
  have lt: "i_next (c_in c d) < i_max (c_in c d)" using le by simp
  show ?thesis
    unfolding table_of_open_next
    by (rule table_open_peer)
      (use rdy n lt in \<open>simp_all add: streamID_of_local streamID_of_dir streamID_of_index\<close>,
        use rdy n lt in \<open>simp_all add: table_of_def streamID_of_index\<close>)
qed

lemma tryOpen_refines: "table_ok c \<Longrightarrow> table_step\<^sup>*\<^sup>* (table_of c) (table_of (snd (tryOpen d c)))"
proof (cases "c_closeErr c = None \<and> o_next (c_out c d) < o_max (c_out c d)")
  case True
  assume "table_ok c"
  then have "unat (o_max (c_out c d)) \<le> 2 ^ 60" by (simp add: table_ok_def table_inv_def) (simp add: table_of_def)
  then have n: "unat (o_next (c_out c d)) < 2 ^ 62" using True by (simp add: word_less_nat_alt)
  let ?i = "streamID_of c (o_next (c_out c d)) d True"
  have "table_step (table_of c) (tb_open_local ?i d (table_of c))"
    by (rule table_open_local)
      (use True n in \<open>simp_all add: streamID_of_local streamID_of_dir\<close>,
        use True n in \<open>simp_all add: table_of_def streamID_of_index\<close>)
  moreover have "table_of (snd (tryOpen d c)) = tb_open_local ?i d (table_of c)"
    using True by (auto simp: tryOpen_snd Let_def table_of_def tb_open_local_def tb_new_def new_stream_def
        entry_of_def zero_stream_def streamID_of_local streamID_of_dir fun_eq_iff)
  ultimately show ?thesis by simp
qed (auto simp: tryOpen_snd table_of_signals)

lemma tryAccept_refines:
  assumes ok: "table_ok c"
  shows "table_step\<^sup>*\<^sup>* (table_of c) (table_of (snd (tryAccept d c)))"
proof (cases "i_queue (c_in c d)")
  case Nil
  then show ?thesis by (simp add: tryAccept_snd table_of_signals)
next
  case (Cons p ps)
  have "p \<in> set (tb_queue (table_of c) d)" by (simp add: table_of_def Cons)
  moreover have "peer_ok (table_of c) d" using ok by (simp add: table_ok_def table_inv_def)
  ultimately have "p < length (tb_objs (table_of c))" by (simp add: peer_ok_def)
  then have p: "p < length (c_objs c)" by (simp add: table_of_def)
  let ?c = "c\<lparr>c_in := (c_in c)(d := (c_in c d)\<lparr>i_queue := ps\<rparr>), c_objs := (c_objs c)[p := (obj c p)\<lparr>s_accepted := True\<rparr>]\<rparr>"
  have eq: "table_of ?c = tb_accept d (table_of c)"
    using p Cons by (simp add: table_of_def tb_accept_def map_update entry_of_def fun_eq_iff)
  show ?thesis
  proof (cases "c_closeErr c = None")
    case True
    then have "table_step (table_of c) (table_of ?c)"
      unfolding eq by (intro table_accept) (simp_all add: table_of_def Cons)
    also have "table_step\<^sup>*\<^sup>* (table_of ?c) (table_of (completeLocked p ?c))"
      by (rule complete_refines) (use p in simp_all)
    finally show ?thesis using True Cons by (simp add: tryAccept_snd)
  qed (simp add: tryAccept_snd)
qed

lemma terminate_refines: "table_step\<^sup>*\<^sup>* (table_of c) (table_of (snd (terminate err c)))"
proof (cases "terminate err c")
  case (Pair b c')
  show ?thesis
  proof (cases b)
    case True
    then have t0: "terminate err c = (True, c')" using Pair by simp
    note t = terminate_True [OF t0]
    have "map entry_of (c_objs c') = map entry_of (c_objs c)"
      using t(4) by (rule map_silent) (simp add: entry_of_def silent_def)
    then have "table_of c' = tb_end (table_of c)"
      using t by (simp add: table_of_def tb_end_def)
    moreover have "table_step (table_of c) (tb_end (table_of c))"
      by (rule table_end) (simp add: table_of_def t(1))
    ultimately show ?thesis by (simp add: Pair)
  next
    case False
    then show ?thesis using terminate_False [of err c c'] Pair by simp
  qed
qed

lemma params_refines:
  assumes "table_ok c" "\<not> c_ready c" "frame_allowed (Frame (TransportParameters p))" "c_closeErr c = None"
  shows "table_step (table_of c) (table_of (handleParametersLocked p c))"
proof -
  let ?m = "\<lambda>d. case d of dirBidi \<Rightarrow> InitialMaxStreamsBidi p | dirUni \<Rightarrow> InitialMaxStreamsUni p"
  have "tb_omax (table_of c) d = 0" for d
    using assms(1,2) by (simp add: table_ok_def table_inv_def) (simp add: table_of_def)
  moreover have "unat (?m d) \<le> 2 ^ 60" for d using assms(3) by (cases d) simp_all
  moreover have "table_of (handleParametersLocked p c) = tb_allow ?m (table_of c)"
    by (simp add: handleParametersLocked_eq table_of_def tb_allow_def fun_eq_iff)
  ultimately show ?thesis
    using assms(4) by (simp add: table_allow) (simp add: table_allow table_of_def)
qed

lemma max_streams_refines:
  assumes "table_ok c" "c_ready c" "unat m \<le> 2 ^ 60" "c_closeErr c = None"
  shows "table_step\<^sup>*\<^sup>* (table_of c) (table_of (handle_MaxStreams uni m c))"
proof -
  let ?d = "if uni then dirUni else dirBidi"
  let ?m = "(tb_omax (table_of c))(?d := m)"
  show ?thesis
  proof (cases "o_max (c_out c ?d) < m")
    case True
    have "table_step (table_of c) (tb_allow ?m (table_of c))"
    proof (rule table_allow)
      show "\<not> tb_ended (table_of c)" using assms(4) by (simp add: table_of_def)
      show "tb_omax (table_of c) d \<le> ?m d" for d using True by (cases uni) (auto simp: table_of_def less_imp_le)
      show "unat (?m d) \<le> 2 ^ 60" for d using assms(1,3) by (simp add: table_ok_def table_inv_def)
    qed
    moreover have "table_of (handle_MaxStreams uni m c) = tb_allow ?m (table_of c)"
      using True assms(2) by (simp add: handle_MaxStreams_def table_of_signals Let_def)
        (simp add: table_of_def tb_allow_def upd_out_def fun_eq_iff)
    ultimately show ?thesis by simp
  qed (simp add: handle_MaxStreams_def Let_def)
qed

text \<open>The other operations leave the table.\<close>

lemma others_refine:
  "table_of (handle_MaxData m c) = table_of c" "table_of (snd (handlePingLocked now response n c)) = table_of c"
  "table_of (snd (handleDatagramLocked dat c)) = table_of c" "table_of (snd (tryPeek i k c)) = table_of c"
  "table_of (snd (trySend now i c)) = table_of c" "table_of (snd (reserve i k c)) = table_of c"
  "table_of (setPriority i urg inc c) = table_of c" "table_of (snd (requestPing now c)) = table_of c"
  "table_of (snd (writeRecordLocked tw now buf c)) = table_of c" "table_of (snd (takeControl now c)) = table_of c"
  "i < length (c_objs c) \<Longrightarrow> table_of (setReadDeadline i dl c) = table_of c"
  "i < length (c_objs c) \<Longrightarrow> table_of (setWriteDeadline i dl c) = table_of c"
proof -
  show "table_of (handle_MaxData m c) = table_of c"
    by (simp add: handle_MaxData_def table_of_signals) (simp add: table_of_def)
  show "table_of (snd (handlePingLocked now response n c)) = table_of c"
    by (simp add: handlePingLocked_def) (simp add: table_of_def)
  show "table_of (snd (handleDatagramLocked dat c)) = table_of c"
    by (simp add: handleDatagramLocked_def) (simp add: table_of_def)
  show "table_of (snd (tryPeek i k c)) = table_of c"
    using table_of_signals(6) [of i c] by (auto simp: tryPeek_def Let_def split: option.splits prod.splits)
  show "table_of (snd (trySend now i c)) = table_of c"
    using table_of_signals(7) [of i c] table_of_signals(8)
    by (auto simp: trySend_def Let_def split: option.splits prod.splits) (metis snd_conv)+
  show "table_of (snd (reserve i k c)) = table_of c"
    by (auto simp: reserve_def Let_def table_of_def upd_obj_def map_view_update entry_of_def split: option.splits)
  show "table_of (setPriority i urg inc c) = table_of c"
    by (simp add: setPriority_def table_of_upd_obj entry_of_def)
  show "table_of (snd (requestPing now c)) = table_of c"
    by (simp add: requestPing_def) (simp add: table_of_def)
  show "table_of (snd (writeRecordLocked tw now buf c)) = table_of c"
    by (simp add: writeRecordLocked_def Let_def split: sum.split) (simp add: table_of_def)
  show "table_of (snd (takeControl now c)) = table_of c"
    by (simp add: takeControl_def Let_def table_of_def upd_in_def fun_eq_iff)
  show "table_of (setReadDeadline i dl c) = table_of c" if "i < length (c_objs c)"
    using that by (simp add: setReadDeadline_def table_of_signals table_of_upd_obj entry_of_def upd_obj_def)
      (simp add: table_of_def map_view_update entry_of_def)
  show "table_of (setWriteDeadline i dl c) = table_of c" if "i < length (c_objs c)"
    using that by (simp add: setWriteDeadline_def table_of_signals table_of_upd_obj entry_of_def upd_obj_def)
      (simp add: table_of_def map_view_update entry_of_def)
qed

theorem conn_op_refines:
  "conn_op grow c c' \<Longrightarrow> table_ok c \<Longrightarrow> table_step\<^sup>*\<^sup>* (table_of c) (table_of c')"
proof (induction rule: conn_op.induct)
  case (op_open_next c d sid)
  then show ?case using open_next_refines by blast
next
  case (op_data c i dat sid off fin)
  then show ?case by (auto simp: receiver_def receive_data_snd table_of_recv_update intro!: complete_refines)
next
  case (op_reset c i sid code n)
  then show ?case by (auto simp: receiver_def receive_reset_snd table_of_recv_update intro!: complete_refines)
next
  case (op_stop c i code remote)
  then show ?case by (auto simp: sender_def resetSendLocked_eq table_of_send_update intro!: complete_refines)
next
  case (op_max_stream_data c i m)
  then have "table_of (send_update i ((obj c i)\<lparr>s_sendMax := m\<rparr>) c) = table_of c"
    by (intro table_of_send_update) (simp add: entry_of_def)
  then show ?case using op_max_stream_data by (simp add: sender_def max_stream_data_eq)
next
  case (op_cancelRead i c code)
  then show ?case
    by (auto simp: receiver_def cancelRead_eq table_of_recv_update intro!: complete_refines)
next
  case (op_finish i c)
  then show ?case by (auto simp: sender_def finish_snd table_of_send_update intro!: complete_refines)
next
  case (op_read i c k)
  then show ?case by (simp add: receiver_def tryRead_refines)
next
  case (op_params c p)
  then show ?case using params_refines by blast
qed (simp_all add: others_refine max_streams_refines tryOpen_refines tryAccept_refines terminate_refines
    del: frame_allowed.simps, simp_all add: table_of_def touch_def)

lemma conn_op_table_ok: "conn_op grow c c' \<Longrightarrow> table_ok c \<Longrightarrow> table_ok c'"
  using conn_op_refines table_steps_inv unfolding table_ok_def by blast

section \<open>Streams the peer's frames refer to\<close>

lemma open_next_fields:
  "i_max (c_in (open_next d c) d') = i_max (c_in c d')" "c_ready (open_next d c) = c_ready c"
  "c_isServer (open_next d c) = c_isServer c" "c_closeErr (open_next d c) = c_closeErr c"
  "c_config (open_next d c) = c_config c"
  by (simp_all add: open_next_def newStreamLocked_def upd_in_def in_broadcast_def signal_broadcast_eq Let_def)

lemma open_incoming_table_ok:
  "table_ok c \<Longrightarrow> c_ready c \<Longrightarrow> c_closeErr c = None \<Longrightarrow> drop_bit 2 rawID < i_max (c_in c d) \<Longrightarrow> table_ok (open_incoming d rawID c)"
proof (induction d rawID c rule: open_incoming.induct)
  case (1 d rawID c)
  then show ?case
    using conn_op_table_ok [OF op_open_next [of c d rawID]] by (subst open_incoming.simps) (simp add: open_next_fields)
qed

lemma open_incoming_fields:
  "i_max (c_in (open_incoming d rawID c) d') = i_max (c_in c d')"
  "c_ready (open_incoming d rawID c) = c_ready c"
  "c_isServer (open_incoming d rawID c) = c_isServer c" "c_closeErr (open_incoming d rawID c) = c_closeErr c"
  "c_config (open_incoming d rawID c) = c_config c"
proof (induction d rawID c rule: open_incoming.induct)
  case (1 d rawID c)
  {
    case 1
    then show ?case using "1.IH"(1) by (subst open_incoming.simps) (simp add: open_next_fields)
  next
    case 2
    then show ?case using "1.IH"(2) by (subst open_incoming.simps) (simp add: open_next_fields)
  next
    case 3
    then show ?case using "1.IH"(3) by (subst open_incoming.simps) (simp add: open_next_fields)
  next
    case 4
    then show ?case using "1.IH"(4) by (subst open_incoming.simps) (simp add: open_next_fields)
  next
    case 5
    then show ?case using "1.IH"(5) by (subst open_incoming.simps) (simp add: open_next_fields)
  }
qed

lemma table_ok_entry:
  assumes "table_ok c" "p < length (c_objs c)"
  shows "s_canRecv (obj c p) = (streamDir (s_id (obj c p)) \<noteq> dirUni \<or> \<not> initiatedLocally c (s_id (obj c p)))"
    "s_canSend (obj c p) = (streamDir (s_id (obj c p)) \<noteq> dirUni \<or> initiatedLocally c (s_id (obj c p)))"
proof -
  have "entry_of (obj c p) \<in> set (tb_objs (table_of c))" using assms(2) by (simp add: table_of_def)
  then have "entry_ok (table_of c) (entry_of (obj c p))" using assms(1) by (simp add: table_ok_def table_inv_def)
  then show "s_canRecv (obj c p) = (streamDir (s_id (obj c p)) \<noteq> dirUni \<or> \<not> initiatedLocally c (s_id (obj c p)))"
    "s_canSend (obj c p) = (streamDir (s_id (obj c p)) \<noteq> dirUni \<or> initiatedLocally c (s_id (obj c p)))"
    by (simp_all add: entry_ok_def Let_def) (simp_all add: entry_of_def)
qed

lemma table_ok_lookup:
  assumes "table_ok c" "c_streams c i = Some p"
  shows "p < length (c_objs c)" "s_id (obj c p) = i" "\<not> s_done (obj c p)"
proof -
  have "tb_streams (table_of c) i = Some p" using assms(2) by (simp add: table_of_def)
  then have "p < length (tb_objs (table_of c)) \<and> e_id (tb_objs (table_of c) ! p) = i \<and> \<not> e_done (tb_objs (table_of c) ! p)"
    using assms(1) unfolding table_ok_def table_inv_def by blast
  then show "p < length (c_objs c)" "s_id (obj c p) = i" "\<not> s_done (obj c p)"
    by (auto simp: table_of_def entry_of_def)
qed

text \<open>What \<open>streamLocked\<close> promises its callers: the stream it returns is open, has the identifier
  asked for, and can receive (or send) as the frame requires.\<close>

lemma streamLocked_table:
  assumes ok: "table_ok c" and rdy: "c_ready c" "c_closeErr c = None" and res: "streamLocked rawID recv c = (res, c')"
  shows "table_ok c'" "c_ready c'" "c_closeErr c' = c_closeErr c" "c_config c' = c_config c"
    "c_isServer c' = c_isServer c"
    "res = Inr (Some p) \<Longrightarrow> p < length (c_objs c') \<and> s_id (obj c' p) = rawID \<and> \<not> s_done (obj c' p) \<and>
       (if recv then s_canRecv (obj c' p) else s_canSend (obj c' p))"
proof -
  let ?d = "streamDir rawID"
  have c': "c' = c \<or> c' = open_incoming ?d rawID c \<and> drop_bit 2 rawID < i_max (c_in c ?d)"
    using res by (auto simp: streamLocked_def Let_def not_le split: if_splits)
  then show t: "table_ok c'" using ok rdy open_incoming_table_ok by auto
  show "c_ready c'" "c_closeErr c' = c_closeErr c" "c_config c' = c_config c" and sv: "c_isServer c' = c_isServer c"
    using c' rdy by (auto simp: open_incoming_fields)
  assume "res = Inr (Some p)"
  then have p: "c_streams c' rawID = Some p" and g: "\<not> (?d = dirUni \<and> initiatedLocally c rawID = recv)"
    using res by (auto simp: streamLocked_def Let_def split: if_splits)
  have "initiatedLocally c' rawID = initiatedLocally c rawID" using sv by (simp add: initiatedLocally_def)
  then show "p < length (c_objs c') \<and> s_id (obj c' p) = rawID \<and> \<not> s_done (obj c' p) \<and>
       (if recv then s_canRecv (obj c' p) else s_canSend (obj c' p))"
    using table_ok_lookup [OF t p] table_ok_entry [OF t table_ok_lookup(1) [OF t p]] g by auto
qed

section \<open>Reachable states\<close>

lemma newConn_table_ok: "table_ok (newConn (normalized q config) isServer now)"
proof -
  let ?cf = "normalized q config"
  have r: "0 \<le> cf_MaxIncomingStreams ?cf \<and> cf_MaxIncomingStreams ?cf \<le> 2 ^ 60"
    "0 \<le> cf_MaxIncomingUniStreams ?cf \<and> cf_MaxIncomingUniStreams ?cf \<le> 2 ^ 60"
    unfolding normalized_fields(1,2) [OF refl] by (rule streamLimit_range; simp add: config_defaults)+
  have u: "unat (of_int k :: u64) = nat k" if "0 \<le> k \<and> k \<le> 2 ^ 60" for k
  proof -
    have "unat (of_nat (nat k) :: u64) = nat k" using that by (subst unat_of_nat_u64) auto
    then show ?thesis using that by simp
  qed
  have "unat (i_max (c_in (newConn ?cf isServer now) d)) = stream_limit ?cf d" "stream_limit ?cf d \<le> 2 ^ 60" for d
    using r u [OF r(1)] u [OF r(2)] by (cases d; simp add: newConn_def new_incoming_def stream_limit_def; linarith?)+
  moreover have "i_next (c_in (newConn ?cf isServer now) d) = 0" "i_queue (c_in (newConn ?cf isServer now) d) = []" for d
    by (cases d; simp add: newConn_def new_incoming_def)+
  ultimately show ?thesis
    by (simp add: table_ok_def table_inv_def peer_ok_def table_of_def)
      (simp add: newConn_def new_outgoing_def)
qed

lemma conn_step_refines:
  assumes "conn_step grow s t" "table_ok (snd s)"
  shows "table_step\<^sup>*\<^sup>* (table_of (snd s)) (table_of (snd t))"
  using assms(1)
proof cases
  case (step_op c c' w)
  then show ?thesis using conn_op_refines assms(2) by simp
next
  case (step_wake c)
  then show ?thesis by (simp add: table_of_def)
next
  case (step_take c now)
  then show ?thesis by (simp add: others_refine)
qed

interpretation table: invariant "conn_start q" "conn_step grow" "\<lambda>s. table_ok (snd s)" for q grow
proof
  fix s t :: "bool \<times> Conn"
  show "conn_start q s \<Longrightarrow> table_ok (snd s)" by (auto simp: conn_start_def newConn_table_ok)
  show "table_ok (snd s) \<Longrightarrow> conn_step grow s t \<Longrightarrow> table_ok (snd t)"
    using conn_step_refines table_steps_inv unfolding table_ok_def by blast
qed

section \<open>Properties\<close>

text \<open>C14. In every reachable state the streams that the peer has opened and that have not ended are no
  more than the configured number, and neither are those that wait in the accept queue, whatever
  frames the peer sends and in whatever order the application accepts, reads, cancels or closes.\<close>

theorem peer_streams_within_limit:
  assumes "conn_start q s" "conn_run grow s (w, c)"
  shows "length (filter (\<lambda>x. \<not> initiatedLocally c (s_id x) \<and> streamDir (s_id x) = d \<and> \<not> s_done x) (c_objs c))
      \<le> stream_limit (c_config c) d \<and>
    length (i_queue (c_in c d)) \<le> stream_limit (c_config c) d"
proof -
  have "table_inv (table_of c)" using table.reachable [OF assms] by (simp add: table_ok_def)
  note l = table_inv_limit [OF this, of d]
  have "length (filter (\<lambda>e. tb_peer (table_of c) d e \<and> \<not> e_done e) (tb_objs (table_of c))) =
      length (filter (\<lambda>x. \<not> initiatedLocally c (s_id x) \<and> streamDir (s_id x) = d \<and> \<not> s_done x) (c_objs c))"
    by (simp add: tb_peer_def) (simp add: table_of_def filter_map o_def entry_of_def)
  then show ?thesis using l by (simp add: table_of_def)
qed

theorem peer_streams_within_limit_witness:
  "length (filter (\<lambda>x. \<not> initiatedLocally example_conn (s_id x) \<and> streamDir (s_id x) = dirBidi \<and> \<not> s_done x)
      (c_objs example_conn)) \<le> stream_limit (c_config example_conn) dirBidi \<and>
    length (i_queue (c_in example_conn dirBidi)) \<le> stream_limit (c_config example_conn) dirBidi"
  by (rule peer_streams_within_limit [OF conn_start_example example_run])

text \<open>C15. The connection implements the abstract table of streams: every run of the program's critical
  sections is, seen through \<open>table_of\<close>, a run of the six steps of the table, which open the next stream
  of the peer or the next own stream, accept the first stream of a queue, complete an accepted stream
  (granting the peer another one in exchange for one of its own), raise the own limits, and end
  everything.\<close>

theorem conn_refines_table:
  assumes "conn_start q s" "conn_run grow s t"
  shows "table_step\<^sup>*\<^sup>* (table_of (snd s)) (table_of (snd t))"
  using assms(2)
proof (induction rule: rtranclp_induct)
  case (step t t')
  have "table_ok (snd t)" using table.reachable [OF assms(1) step(1)] .
  then show ?case using step(3) conn_step_refines [OF step(2)] by simp
qed simp

theorem conn_refines_table_witness:
  "table_step\<^sup>*\<^sup>* (table_of example_start) (table_of example_conn)"
  using conn_refines_table [OF conn_start_example example_run] by simp


lemma example_conn_fields:
  "c_ready example_conn" "c_closeErr example_conn = None" "c_isServer example_conn"
  "c_objs example_conn = [new_stream example_conn 0]" "c_streams example_conn = [0 \<mapsto> 0]"
  "i_next (c_in example_conn dirBidi) = 1" "i_max (c_in example_conn d) = 100"
  "i_queue (c_in example_conn dirBidi) = [0]" "c_peer example_conn = example_params"
  "c_config example_conn = normalized rfc9000 None"
  by (simp_all add: example_conn_def open_next_eq handleParametersLocked_eq example_start_fields Let_def
      streamID_of_def new_stream_def initiatedLocally_def)


text \<open>Stream identifiers: the identifier that the connection gives to its own or its peer's stream
  number \<open>index\<close> of a direction tells, by \<open>initiatedLocally\<close>, \<open>streamDir\<close> and its upper bits, exactly
  these three; and every 64-bit identifier is the one its parts give.\<close>

lemma streamID_roundtrip:
  "(unat index < 2 ^ 62 \<longrightarrow>
      initiatedLocally c (streamID_of c index d local) = local \<and> streamDir (streamID_of c index d local) = d \<and>
      drop_bit 2 (streamID_of c index d local) = index) \<and>
   streamID_of c (drop_bit 2 i) (streamDir i) (initiatedLocally c i) = i"
  by (simp add: streamID_of_local streamID_of_dir streamID_of_index streamID_of_parts)

end
