(* ===== verification/Recv_Flow.thy ===== *)
theory Recv_Flow
  imports Stream_Table
begin

text \<open>Flow control of the data an endpoint receives, per stream and across the connection: the
  invariant that ties the limits declared to the peer, the data received, the data the application
  has read or discarded, and the read buffers; and that every operation keeps it. The limits are
  64-bit values that the wire carries as integers below \<open>2 ^ 62\<close>, so the lemmas are about connections
  whose limits are below that (\<open>recv_bounds\<close>).\<close>

section \<open>The invariant\<close>

definition unread :: "stream \<Rightarrow> bytes" where
  "unread s = drop (s_roff s) (s_rbuf s)"

text \<open>One stream, with a window of \<open>w\<close> bytes. The limit is never more than a window ahead of what was
  read, and no less than half a window while the stream can grow.\<close>

definition recv_stream_ok :: "u64 \<Rightarrow> stream \<Rightarrow> bool" where
  "recv_stream_ok w s \<longleftrightarrow>
     s_roff s \<le> length (s_rbuf s) \<and> (s_roff s = length (s_rbuf s) \<longrightarrow> s_roff s = 0) \<and>
     unat (s_readOffset s) \<le> unat (s_recvOffset s) \<and> unat (s_recvOffset s) \<le> unat (s_recvMax s) \<and>
     unat (s_recvMax s) \<le> unat (s_readOffset s) + unat w \<and>
     (s_canRecv s \<and> \<not> s_finRecv s \<longrightarrow> unat (s_readOffset s) + unat w div 2 \<le> unat (s_recvMax s)) \<and>
     (if s_readCancelled s \<or> s_recvReset s then s_rbuf s = [] \<and> s_recvErr s \<noteq> None
      else unat (s_readOffset s) + length (unread s) = unat (s_recvOffset s)) \<and>
     (\<not> s_canRecv s \<longrightarrow> s_rbuf s = [] \<and> s_recvMax s = 0)"

text \<open>The connection: a window of \<open>W\<close> bytes, the limit \<open>M\<close>, \<open>R\<close> bytes received, \<open>C\<close> bytes consumed.\<close>

definition recv_inv :: "u64 \<Rightarrow> u64 \<Rightarrow> u64 \<Rightarrow> u64 \<Rightarrow> u64 \<Rightarrow> stream list \<Rightarrow> bool" where
  "recv_inv w W M R C ss \<longleftrightarrow>
     (\<forall>s \<in> set ss. recv_stream_ok w s) \<and>
     unat C + (\<Sum>s\<leftarrow>ss. length (unread s)) = unat R \<and> unat R \<le> unat M \<and>
     unat M \<le> unat C + unat W \<and> unat C + unat W div 2 \<le> unat M"

definition recv_ok :: "Conn \<Rightarrow> bool" where
  "recv_ok c \<longleftrightarrow>
     recv_inv (stream_window c) (conn_window c) (c_recvMax c) (c_received c) (c_consumed c) (c_objs c)"

definition recv_bounds :: "Conn \<Rightarrow> bool" where
  "recv_bounds c \<longleftrightarrow>
     unat (stream_window c) < 2 ^ 62 \<and> unat (conn_window c) < 2 ^ 62 \<and> unat (c_recvMax c) < 2 ^ 62 \<and>
     (\<forall>s \<in> set (c_objs c). unat (s_recvMax s) < 2 ^ 62)"

section \<open>Changes of one stream\<close>

text \<open>What the invariant reads of a stream.\<close>

definition recv_view :: "stream \<Rightarrow> bool \<times> bytes \<times> nat \<times> u64 \<times> u64 \<times> u64 \<times> bool \<times> bool \<times> bool \<times> go_error option" where
  "recv_view s = (s_canRecv s, s_rbuf s, s_roff s, s_recvOffset s, s_recvMax s, s_readOffset s,
     s_finRecv s, s_recvReset s, s_readCancelled s, s_recvErr s)"

lemma recv_view_ok: "recv_view s = recv_view t \<Longrightarrow> recv_stream_ok w s = recv_stream_ok w t"
  by (simp add: recv_view_def recv_stream_ok_def unread_def)

lemma recv_views:
  "map recv_view ss = map recv_view ts \<Longrightarrow>
   (\<forall>s \<in> set ss. recv_stream_ok w s) = (\<forall>s \<in> set ts. recv_stream_ok w s) \<and>
   (\<Sum>s\<leftarrow>ss. length (unread s)) = (\<Sum>s\<leftarrow>ts. length (unread s))"
proof (induction ss arbitrary: ts)
  case (Cons s ss)
  then obtain t ts' where t: "ts = t # ts'" "recv_view s = recv_view t" "map recv_view ss = map recv_view ts'"
    by (cases ts) auto
  have "unread s = unread t" using t(2) by (simp add: recv_view_def unread_def)
  then show ?case using Cons.IH [OF t(3)] recv_view_ok [OF t(2)] t(1) by simp
qed simp

lemma recv_inv_view:
  assumes "map recv_view ss = map recv_view ts"
  shows "recv_inv w W M R C ss = recv_inv w W M R C ts"
  using recv_views [OF assms] by (simp add: recv_inv_def)

lemma recv_view_silent: "recv_view (silent s) = recv_view s"
  by (simp add: recv_view_def silent_def)

lemma recv_inv_update:
  assumes "recv_inv w W M R C ss" "recv_stream_ok w t" "length (unread t) = length (unread (ss ! i))"
  shows "recv_inv w W M R C (ss[i := t])"
proof (cases "i < length ss")
  case True
  have "(\<Sum>s\<leftarrow>ss[i := t]. length (unread s)) = (\<Sum>s\<leftarrow>ss. length (unread s))"
    using sum_update [OF True, where t = t and f = "\<lambda>s. length (unread s)"] assms(3) by simp
  then show ?thesis using assms(1,2) by (auto simp: recv_inv_def dest: set_update_subset_insert [THEN subsetD])
next
  case False
  then show ?thesis using assms(1) by (simp add: list_update_beyond)
qed

text \<open>Consumption of \<open>n\<close> bytes that left the buffers.\<close>

lemma recv_inv_consume:
  assumes "\<forall>s \<in> set ss. recv_stream_ok w s"
    and "unat C + unat n + (\<Sum>s\<leftarrow>ss. length (unread s)) = unat R" "unat R \<le> unat M"
    and "unat M \<le> unat C + unat W" "unat M < 2 ^ 62" "unat W < 2 ^ 62"
  shows "recv_inv w W (if M - (C + n) < W div 2 then C + n + W else M) R (C + n) ss"
proof -
  have C: "unat (C + n) = unat C + unat n" using assms(2,3,5) by (subst unat_add_u64) simp_all
  have "unat (C + n) \<le> unat M" using assms(2,3) C by simp
  then have sub: "unat (M - (C + n)) = unat M - unat (C + n)" by (simp add: unat_sub_u64 word_le_nat_alt)
  have CW: "unat (C + n + W) = unat (C + n) + unat W"
    using \<open>unat (C + n) \<le> unat M\<close> assms(5,6) by (subst unat_add_u64) simp_all
  have low: "M - (C + n) < W div 2 \<longleftrightarrow> unat M - unat (C + n) < unat W div 2"
    by (simp add: word_less_nat_alt sub unat_div)
  show ?thesis using assms C CW unfolding recv_inv_def low by auto
qed

text \<open>The limit of the connection behind \<open>consumeLocked n\<close>.\<close>

definition next_max :: "u64 \<Rightarrow> u64 \<Rightarrow> u64 \<Rightarrow> u64 \<Rightarrow> u64" where
  "next_max W M C n = (if M - (C + n) < W div 2 then C + n + W else M)"

text \<open>The general step: \<open>r\<close> bytes are received on stream \<open>i\<close>, and \<open>n\<close> bytes of it are consumed.\<close>

lemma recv_inv_move:
  assumes inv: "recv_inv w W M R C ss" and i: "i < length ss" and t: "recv_stream_ok w t"
    and n: "length (unread t) + n = length (unread (ss ! i)) + r" and r: "unat R + r \<le> unat M"
    and b: "unat M < 2 ^ 62" "unat W < 2 ^ 62"
  shows "recv_inv w W (next_max W M C (of_nat n)) (R + of_nat r) (C + of_nat n) (ss[i := t])"
proof -
  have sum: "(\<Sum>s\<leftarrow>ss[i := t]. length (unread s)) + length (unread (ss ! i)) =
      (\<Sum>s\<leftarrow>ss. length (unread s)) + length (unread t)"
    using i by (rule sum_update)
  have "length (unread (ss ! i)) \<le> (\<Sum>s\<leftarrow>ss. length (unread s))"
    using i by (intro member_le_sum_list) auto
  then have "n < 2 ^ 62" using n inv b r by (auto simp: recv_inv_def)
  then have un: "unat (of_nat n :: u64) = n" by (simp add: unat_of_nat_u64)
  have "unat (of_nat r :: u64) = r" using r b by (simp add: unat_of_nat_u64)
  then have ur: "unat (R + of_nat r) = unat R + r" using r b by (subst unat_add_u64) simp_all
  show ?thesis
    unfolding next_max_def
  proof (rule recv_inv_consume)
    show "\<forall>s \<in> set (ss[i := t]). recv_stream_ok w s"
      using inv t by (auto simp: recv_inv_def dest: set_update_subset_insert [THEN subsetD])
    show "unat C + unat (of_nat n :: u64) + (\<Sum>s\<leftarrow>ss[i := t]. length (unread s)) = unat (R + of_nat r)"
      using inv sum n un ur by (simp add: recv_inv_def)
  qed (use inv b r ur in \<open>auto simp: recv_inv_def\<close>)
qed

lemma next_max_0:
  assumes "recv_inv w W M R C ss"
  shows "next_max W M C 0 = M"
proof -
  have "unat C \<le> unat M" "unat C + unat W div 2 \<le> unat M" using assms by (auto simp: recv_inv_def)
  then have "\<not> M - C < W div 2"
    by (simp add: word_less_nat_alt unat_sub_u64 word_le_nat_alt unat_div not_less)
  then show ?thesis by (simp add: next_max_def)
qed

lemma recv_inv_take:
  assumes "recv_inv w W M R C ss" "i < length ss" "recv_stream_ok w t"
    "length (unread t) + n = length (unread (ss ! i))" "unat M < 2 ^ 62" "unat W < 2 ^ 62"
  shows "recv_inv w W (next_max W M C (of_nat n)) R (C + of_nat n) (ss[i := t])"
  using recv_inv_move [OF assms(1-3), of n 0] assms by (simp add: recv_inv_def)

lemma complete_obj_recv:
  assumes "recv_stream_ok w s"
  shows "recv_stream_ok w (complete_obj s)" "length (unread (complete_obj s)) = length (unread s)"
proof -
  have "s_rbuf s = []" if "completes s"
  proof -
    have "\<not> s_canRecv s \<or> s_recvReset s \<or> s_readCancelled s \<or> s_roff s = length (s_rbuf s)"
      using that by (simp add: completes_def recvDone_def split: if_splits)
    then show ?thesis using assms by (elim disjE) (simp_all add: recv_stream_ok_def)
  qed
  then have "recv_view (complete_obj s) = recv_view s"
    by (cases "completes s") (simp_all add: recv_view_def, simp_all add: complete_obj_def)
  then show "recv_stream_ok w (complete_obj s)" "length (unread (complete_obj s)) = length (unread s)"
    using assms recv_view_ok [of "complete_obj s" s w] by (simp, simp add: recv_view_def unread_def)
qed

lemma complete_obj_unread:
  assumes "s_canRecv s" "\<not> s_recvReset s" "\<not> s_readCancelled s"
  shows "unread (complete_obj s) = unread s"
  using assms by (auto simp: complete_obj_def completes_def recvDone_def unread_def)

lemma recv_inv_complete:
  assumes "recv_inv w W M R C ss" "i < length ss"
  shows "recv_inv w W M R C (ss[i := complete_obj (ss ! i)])"
  using assms by (intro recv_inv_update complete_obj_recv) (auto simp: recv_inv_def)

section \<open>Operations that leave the receiving side alone\<close>

definition recv_same :: "Conn \<Rightarrow> Conn \<Rightarrow> bool" where
  "recv_same c c' \<longleftrightarrow> c_config c' = c_config c \<and> c_recvMax c' = c_recvMax c \<and>
     c_received c' = c_received c \<and> c_consumed c' = c_consumed c \<and>
     map recv_view (c_objs c') = map recv_view (c_objs c)"

lemma recv_same_refl [simp]: "recv_same c c"
  by (simp add: recv_same_def)

lemma recv_same_trans: "recv_same a b \<Longrightarrow> recv_same b c \<Longrightarrow> recv_same a c"
  by (simp add: recv_same_def)

lemma recv_same_ok:
  assumes "recv_same c c'"
  shows "recv_ok c' = recv_ok c"
proof -
  have v: "map recv_view (c_objs c') = map recv_view (c_objs c)" using assms by (simp add: recv_same_def)
  show ?thesis using assms unfolding recv_ok_def recv_inv_view [OF v] by (simp add: recv_same_def)
qed

lemma recv_same_bounds:
  assumes "recv_same c c'"
  shows "recv_bounds c' = recv_bounds c"
proof -
  have e: "s_recvMax ` set xs = (\<lambda>v. fst (snd (snd (snd (snd v))))) ` set (map recv_view xs)" for xs
    by (simp add: image_image recv_view_def)
  have v: "map recv_view (c_objs c') = map recv_view (c_objs c)" using assms by (simp add: recv_same_def)
  have "s_recvMax ` set (c_objs c') = s_recvMax ` set (c_objs c)" unfolding e v ..
  then have "(\<forall>m \<in> s_recvMax ` set (c_objs c'). unat m < 2 ^ 62) = (\<forall>m \<in> s_recvMax ` set (c_objs c). unat m < 2 ^ 62)"
    by simp
  then show ?thesis using assms by (simp add: recv_bounds_def recv_same_def)
qed

lemma recv_same_signals:
  "i < length (c_objs c) \<Longrightarrow> recv_same c (read_broadcast i c)"
  "i < length (c_objs c) \<Longrightarrow> recv_same c (write_broadcast i c)"
  "recv_same c (send_broadcast c)" "recv_same c (out_broadcast d c)" "recv_same c (in_broadcast d c)"
  "recv_same c (snd (read_wait i c))" "recv_same c (snd (write_wait i c))" "recv_same c (snd (send_wait c))"
  "recv_same c (snd (out_wait d c))" "recv_same c (snd (in_wait d c))"
  by (simp_all add: recv_same_def broadcast_defs wait_defs upd_defs map_view_update recv_view_def)

lemma recv_same_queue: "recv_same c (queueLocked f c)" "recv_same c (wakeWriter c)"
  by (simp_all add: recv_same_def queueLocked_def wakeWriter_def)

section \<open>Reading\<close>

lemma take_read_ok:
  assumes ok: "recv_stream_ok w s" and err: "s_recvErr s = None" and n: "n \<le> length (unread s)"
    and b: "unat (s_recvMax s) < 2 ^ 62" "unat w < 2 ^ 62" and cr: "s_canRecv s"
  defines "t \<equiv> read_obj w (of_nat n) (take_unread n s)"
  shows "recv_stream_ok w t" "length (unread t) + n = length (unread s)"
proof -
  have sum: "unat (s_readOffset s) + length (unread s) = unat (s_recvOffset s)"
    and le: "unat (s_recvOffset s) \<le> unat (s_recvMax s)" "unat (s_recvMax s) \<le> unat (s_readOffset s) + unat w"
    and nc: "\<not> s_readCancelled s" "\<not> s_recvReset s"
    using ok err by (auto simp: recv_stream_ok_def split: if_splits)
  have r: "s_roff s \<le> length (s_rbuf s)" using ok by (simp add: recv_stream_ok_def)
  let ?u = "take_unread n s"
  have u: "s_roff ?u \<le> length (s_rbuf ?u)" "s_roff ?u = length (s_rbuf ?u) \<longrightarrow> s_roff ?u = 0"
    "length (unread ?u) + n = length (unread s)"
    using n r by (auto simp: take_unread_def unread_def Let_def)
  have f: "s_readOffset ?u = s_readOffset s" "s_recvOffset ?u = s_recvOffset s" "s_recvMax ?u = s_recvMax s"
    "s_finRecv ?u = s_finRecv s" "s_canRecv ?u = s_canRecv s" "s_readCancelled ?u = s_readCancelled s"
    "s_recvReset ?u = s_recvReset s"
    by (simp_all add: take_unread_def Let_def)
  have un: "unat (of_nat n :: u64) = n" using n sum le b by (subst unat_of_nat_u64) simp_all
  let ?o = "s_readOffset s + of_nat n"
  have o: "unat ?o = unat (s_readOffset s) + n" using un n sum le b by (subst unat_add_u64) simp_all
  have "?o \<le> s_recvMax s" using o n sum le by (simp add: word_le_nat_alt)
  then have sub: "unat (s_recvMax s - ?o) = unat (s_recvMax s) - unat ?o" by (simp add: unat_sub_u64)
  have ow: "unat (?o + w) = unat ?o + unat w" using o n sum le b by (subst unat_add_u64) simp_all
  have low: "s_recvMax s - ?o < w div 2 \<longleftrightarrow> unat (s_recvMax s) - unat ?o < unat w div 2"
    by (simp add: word_less_nat_alt sub unat_div)
  have t: "t = (if \<not> s_finRecv s \<and> unat (s_recvMax s) - unat ?o < unat w div 2
      then ?u\<lparr>s_readOffset := ?o, s_recvMax := ?o + w\<rparr> else ?u\<lparr>s_readOffset := ?o\<rparr>)"
    by (simp add: t_def read_obj_def Let_def f low)
  have ut: "unread t = unread ?u" by (simp add: t unread_def)
  then show "length (unread t) + n = length (unread s)" using u(3) by simp
  have "s_rbuf t = s_rbuf ?u" "s_roff t = s_roff ?u" "s_readOffset t = ?o" "s_recvOffset t = s_recvOffset s"
    "s_finRecv t = s_finRecv s" "s_canRecv t" "\<not> s_readCancelled t" "\<not> s_recvReset t"
    "s_recvMax t = (if \<not> s_finRecv s \<and> unat (s_recvMax s) - unat ?o < unat w div 2 then ?o + w else s_recvMax s)"
    using f nc cr by (simp_all add: t)
  then show "recv_stream_ok w t"
    using u o n sum le ow ut by (simp add: recv_stream_ok_def) linarith
qed

lemma recv_ok_parts:
  assumes "recv_ok c" "recv_bounds c" "i < length (c_objs c)"
  shows "recv_stream_ok (stream_window c) (obj c i)" "unat (s_recvMax (obj c i)) < 2 ^ 62"
    "unat (stream_window c) < 2 ^ 62" "unat (conn_window c) < 2 ^ 62" "unat (c_recvMax c) < 2 ^ 62"
    "recv_inv (stream_window c) (conn_window c) (c_recvMax c) (c_received c) (c_consumed c) (c_objs c)"
  using assms by (auto simp: recv_ok_def recv_inv_def recv_bounds_def)

lemma consumeLocked_recv:
  "c_recvMax (consumeLocked n c) = next_max (conn_window c) (c_recvMax c) (c_consumed c) n"
  by (simp add: consumeLocked_eq window_low_def next_max_def)

lemma tryRead_recv:
  assumes ok: "recv_ok c" and b: "recv_bounds c" and i: "i < length (c_objs c)" and cr: "s_canRecv (obj c i)"
  shows "recv_ok (snd (tryRead i k c))"
proof (cases "c_closeErr c = None \<and> s_recvErr (obj c i) = None \<and> s_roff (obj c i) < length (s_rbuf (obj c i))")
  case True
  let ?s = "obj c i" and ?w = "stream_window c" and ?W = "conn_window c"
  define n where "n = length (take k (drop (s_roff ?s) (s_rbuf ?s)))"
  define t where "t = read_obj ?w (of_nat n) (take_unread n ?s)"
  note p = recv_ok_parts [OF ok b i]
  have n: "n \<le> length (unread ?s)" by (simp add: n_def unread_def)
  have t: "recv_stream_ok ?w t" "length (unread t) + n = length (unread ?s)"
    unfolding t_def using take_read_ok [OF p(1) _ n p(2,3) cr] True by simp_all
  let ?ss = "(c_objs c)[i := t]"
  have "recv_inv ?w ?W (next_max ?W (c_recvMax c) (c_consumed c) (of_nat n))
      (c_received c) (c_consumed c + of_nat n) (?ss[i := complete_obj (?ss ! i)])"
    using recv_inv_take [OF p(6) i t p(5,4)] i by (intro recv_inv_complete) simp_all
  moreover have "snd (tryRead i k c) = completeLocked i (readLocked i (of_nat n) (upd_obj i (take_unread n) c))"
    using True by (simp add: tryRead_def Let_def n_def u64_len_def)
  ultimately show ?thesis
    using i by (simp add: recv_ok_def completeLocked_eq readLocked_eq upd_obj_def t_def consumeLocked_recv)
next
  case False
  then have "recv_same c (snd (tryRead i k c))"
    using recv_same_signals(6) [of c i]
    by (auto simp: tryRead_def Let_def split: option.splits prod.splits)
  then show ?thesis using ok recv_same_ok by blast
qed

lemma tryPeek_recv: "recv_same c (snd (tryPeek i k c))"
  using recv_same_signals(6) [of c i]
  by (auto simp: tryPeek_def Let_def split: option.splits prod.splits)

text \<open>The step that all operations on received data share: \<open>r\<close> bytes arrive, and \<open>n\<close> bytes leave the
  connection.\<close>

lemma recv_update_ok:
  assumes ok: "recv_ok c" and b: "recv_bounds c" and i: "i < length (c_objs c)"
    and t: "recv_stream_ok (stream_window c) t" "length (unread t) + n = length (unread (obj c i)) + r"
    and r: "unat (c_received c) + r \<le> unat (c_recvMax c)"
  shows "recv_ok (completeLocked i (consumeLocked (of_nat n) (recv_update i t (of_nat r) c)))"
    and "n = 0 \<Longrightarrow> recv_ok (completeLocked i (recv_update i t (of_nat r) c))"
proof -
  let ?ss = "(c_objs c)[i := t]" and ?W = "conn_window c"
  note p = recv_ok_parts [OF ok b i]
  have inv: "recv_inv (stream_window c) ?W (next_max ?W (c_recvMax c) (c_consumed c) (of_nat n))
      (c_received c + of_nat r) (c_consumed c + of_nat n) (?ss[i := complete_obj (?ss ! i)])"
    using recv_inv_move [OF p(6) i t r p(5,4)] i by (intro recv_inv_complete) simp_all
  then show "recv_ok (completeLocked i (consumeLocked (of_nat n) (recv_update i t (of_nat r) c)))"
    using i by (simp add: recv_ok_def completeLocked_eq consumeLocked_eq recv_update_def window_low_def next_max_def
        split: if_split_asm)
  assume "n = 0"
  moreover have "next_max ?W (c_recvMax c) (c_consumed c) 0 = c_recvMax c" using p(6) by (rule next_max_0)
  ultimately show "recv_ok (completeLocked i (recv_update i t (of_nat r) c))"
    using inv i by (simp add: recv_ok_def completeLocked_eq recv_update_def)
qed

lemma cancelRead_recv:
  assumes ok: "recv_ok c" and b: "recv_bounds c" and i: "i < length (c_objs c)"
  shows "recv_ok (cancelRead i code c)"
proof (cases "cancel_accepted i c")
  case True
  let ?s = "obj c i"
  let ?n = "length (s_rbuf ?s) - s_roff ?s" and ?t = "cancel_obj code ?s"
  note p = recv_ok_parts [OF ok b i]
  have t: "recv_stream_ok (stream_window c) ?t" "length (unread ?t) + ?n = length (unread ?s) + 0"
    using p(1) by (simp_all add: cancel_obj_def recv_stream_ok_def unread_def)
  define c1 where "c1 = consumeLocked (of_nat ?n) (recv_update i ?t 0 c)"
  have "recv_ok (completeLocked i c1)"
    using recv_update_ok(1) [OF ok b i t] p(6) by (simp add: recv_inv_def c1_def)
  moreover have "recv_same (completeLocked i c1) (completeLocked i (queueLocked f c1))" for f
    by (simp add: recv_same_def completeLocked_eq queueLocked_def wakeWriter_def)
  ultimately have "recv_ok (completeLocked i (queueLocked f c1))" for f using recv_same_ok by blast
  then show ?thesis using True i \<open>recv_ok (completeLocked i c1)\<close> by (simp add: cancelRead_eq c1_def)
qed (use ok i in \<open>simp add: cancelRead_eq\<close>)

section \<open>Receiving\<close>

text \<open>Whatever capacity the buffer has, \<open>bufferLocked\<close> appends to the unread data.\<close>

lemma bufferLocked_unread:
  "s_roff s \<le> length (s_rbuf s) \<Longrightarrow> unread (bufferLocked g d s) = unread s @ d"
  by (simp add: bufferLocked_def unread_def Let_def)

lemma bufferLocked_offset:
  "s_roff s \<le> length (s_rbuf s) \<Longrightarrow> s_roff s = length (s_rbuf s) \<longrightarrow> s_roff s = 0 \<Longrightarrow>
   s_roff (bufferLocked g d s) \<le> length (s_rbuf (bufferLocked g d s)) \<and>
   (s_roff (bufferLocked g d s) = length (s_rbuf (bufferLocked g d s)) \<longrightarrow> s_roff (bufferLocked g d s) = 0)"
  by (auto simp: bufferLocked_def Let_def)

lemma data_obj_ok:
  fixes grow :: "nat \<Rightarrow> nat \<Rightarrow> nat" and fin :: bool
  assumes ok: "recv_stream_ok w s" and d: "unat (s_recvOffset s) + length d \<le> unat (s_recvMax s)"
    and b: "unat (s_recvMax s) < 2 ^ 62" and live: "\<not> s_finRecv s" "\<not> s_recvReset s" and cr: "s_canRecv s"
  defines "t \<equiv> data_obj grow d fin s"
  shows "recv_stream_ok w t"
    "length (unread t) + (if s_readCancelled s then length d else 0) = length (unread s) + length d"
proof -
  have "unat (u64_len d) = length d" using d b by (simp add: unat_u64_len)
  then have o: "unat (s_recvOffset s + u64_len d) = unat (s_recvOffset s) + length d"
    using d b by (subst unat_add_u64) simp_all
  let ?s = "s\<lparr>s_recvOffset := s_recvOffset s + u64_len d, s_finRecv := fin\<rparr>"
  have r: "s_roff ?s \<le> length (s_rbuf ?s)" "s_roff ?s = length (s_rbuf ?s) \<longrightarrow> s_roff ?s = 0"
    using ok by (simp_all add: recv_stream_ok_def)
  have u: "unread ?s = unread s" by (simp add: unread_def)
  have f: "s_recvOffset t = s_recvOffset s + u64_len d" "s_finRecv t = fin" "s_recvMax t = s_recvMax s"
    "s_readOffset t = s_readOffset s" "s_recvReset t = s_recvReset s" "s_canRecv t = s_canRecv s"
    "s_readCancelled t = s_readCancelled s" "s_recvErr t = s_recvErr s"
    by (simp_all add: t_def data_obj_def Let_def)
  show len: "length (unread t) + (if s_readCancelled s then length d else 0) = length (unread s) + length d"
  proof (cases "s_readCancelled s")
    case True
    then show ?thesis using u by (simp add: t_def data_obj_def Let_def unread_def)
  next
    case False
    then have "unread t = unread (bufferLocked grow d ?s)" by (simp add: t_def data_obj_def Let_def unread_def)
    then show ?thesis using bufferLocked_unread [OF r(1), of grow d] u False by simp
  qed
  have q: "s_roff t \<le> length (s_rbuf t) \<and> (s_roff t = length (s_rbuf t) \<longrightarrow> s_roff t = 0)"
    using r bufferLocked_offset [OF r, of grow d] by (simp add: t_def data_obj_def Let_def)
  have c: "s_readCancelled s \<Longrightarrow> s_rbuf t = s_rbuf s" by (simp add: t_def data_obj_def Let_def)
  show "recv_stream_ok w t"
    using ok d o live cr q c len by (cases "s_readCancelled s") (simp_all add: recv_stream_ok_def f)
qed

lemma receive_data_recv:
  assumes ok: "recv_ok c" and b: "recv_bounds c" and i: "i < length (c_objs c)" and cr: "s_canRecv (obj c i)"
    and d: "length d < 2 ^ 62"
  shows "recv_ok (snd (receive_data grow i sid off d fin c))"
proof (cases "data_accepted i off d c")
  case True
  let ?s = "obj c i" and ?t = "data_obj grow d fin (obj c i)"
  note p = recv_ok_parts [OF ok b i]
  have ud: "unat (u64_len d) = length d" using d by (simp add: unat_u64_len)
  have so: "unat (s_recvOffset ?s) \<le> unat (s_recvMax ?s)" "unat (c_received c) \<le> unat (c_recvMax c)"
    using p(1,6) by (simp_all add: recv_stream_ok_def recv_inv_def)
  have "unat (s_recvOffset ?s + u64_len d) = unat (s_recvOffset ?s) + length d"
    "unat (c_received c + u64_len d) = unat (c_received c) + length d"
    using so p(2,5) ud d by (subst unat_add_u64, simp_all)+
  then have le: "unat (s_recvOffset ?s) + length d \<le> unat (s_recvMax ?s)"
    "unat (c_received c) + length d \<le> unat (c_recvMax c)" and live: "\<not> s_finRecv ?s" "\<not> s_recvReset ?s"
    using True by (simp_all add: data_accepted_def Let_def word_le_nat_alt)
  note t = data_obj_ok [OF p(1) le(1) p(2) live cr, of grow fin]
  show ?thesis
    using recv_update_ok [OF ok b i t le(2)] True i
    by (cases "s_readCancelled ?s") (simp_all add: receive_data_snd u64_len_def)
qed (use ok i in \<open>simp add: receive_data_snd\<close>)

lemma reset_obj_ok:
  assumes "recv_stream_ok w s" "unat (s_recvOffset s) \<le> unat finalSize" "unat finalSize \<le> unat (s_recvMax s)"
  shows "recv_stream_ok w (reset_obj code finalSize s)" "unread (reset_obj code finalSize s) = []"
  using assms by (auto simp: reset_obj_def recv_stream_ok_def unread_def)

lemma receive_reset_recv:
  assumes ok: "recv_ok c" and b: "recv_bounds c" and i: "i < length (c_objs c)"
  shows "recv_ok (snd (receive_reset i sid code finalSize c))"
proof (cases "reset_accepted i finalSize c")
  case True
  let ?s = "obj c i"
  note p = recv_ok_parts [OF ok b i]
  define r where "r = unat finalSize - unat (s_recvOffset ?s)"
  define n where "n = length (s_rbuf ?s) - s_roff ?s"
  have g: "s_recvOffset ?s \<le> finalSize" "finalSize \<le> s_recvMax ?s"
    "c_received c + (finalSize - s_recvOffset ?s) \<le> c_recvMax c"
    using True by (simp_all add: reset_accepted_def Let_def)
  then have le: "unat (s_recvOffset ?s) \<le> unat finalSize" "unat finalSize \<le> unat (s_recvMax ?s)"
    by (simp_all add: word_le_nat_alt)
  have sk: "finalSize - s_recvOffset ?s = of_nat r" using g(1) by (simp add: r_def unat_sub [symmetric])
  have "unat (of_nat r :: u64) = r" using le p(2) by (subst unat_of_nat_u64) (simp_all add: r_def)
  moreover have "unat (c_received c) \<le> unat (c_recvMax c)" using p(6) by (simp add: recv_inv_def)
  ultimately have "unat (c_received c + of_nat r) = unat (c_received c) + r"
    using le p(2,5) by (subst unat_add_u64) (simp_all add: r_def)
  then have rc: "unat (c_received c) + r \<le> unat (c_recvMax c)" using g(3) sk by (simp add: word_le_nat_alt)
  note t = reset_obj_ok [OF p(1) le, of code]
  have "length (unread (reset_obj code finalSize ?s)) + (r + n) = length (unread ?s) + r"
    unfolding t(2) by (simp add: n_def unread_def)
  from recv_update_ok(1) [OF ok b i t(1) this rc] show ?thesis
    using True i by (simp add: receive_reset_snd sk n_def)
qed (use ok i in \<open>simp add: receive_reset_snd\<close>)

section \<open>New streams\<close>

lemma new_stream_recv:
  "recv_stream_ok (stream_window c) (new_stream c i)" "unread (new_stream c i) = []"
  "s_recvMax (new_stream c i) = 0 \<or> s_recvMax (new_stream c i) = stream_window c"
  by (simp_all add: new_stream_def zero_stream_def recv_stream_ok_def unread_def Let_def)

lemma new_stream_recv_inv:
  assumes "recv_inv (stream_window c) W M R C ss"
  shows "recv_inv (stream_window c) W M R C (ss @ [new_stream c i])"
    and "recv_inv (stream_window c) W M R C (ss @ [(new_stream c i)\<lparr>s_accepted := b\<rparr>])"
proof -
  show n: "recv_inv (stream_window c) W M R C (ss @ [new_stream c i])"
    using assms new_stream_recv [of c i] by (simp add: recv_inv_def)
  have "map recv_view (ss @ [(new_stream c i)\<lparr>s_accepted := b\<rparr>]) = map recv_view (ss @ [new_stream c i])"
    by (simp add: recv_view_def)
  from recv_inv_view [OF this] n
  show "recv_inv (stream_window c) W M R C (ss @ [(new_stream c i)\<lparr>s_accepted := b\<rparr>])" by blast
qed

section \<open>Every operation\<close>

text \<open>Operations on the sending side and on the connection leave the receiving side alone, up to the
  completion of a stream.\<close>

lemma complete_recv_ok:
  assumes "recv_ok c" "recv_same c c'"
  shows "recv_ok (completeLocked i c')"
proof (cases "i < length (c_objs c')")
  case True
  have "recv_ok c'" using assms recv_same_ok by blast
  then show ?thesis using True recv_inv_complete by (simp add: recv_ok_def completeLocked_eq)
next
  case False
  have "recv_ok c'" using assms recv_same_ok by blast
  then show ?thesis using False by (simp add: recv_ok_def completeLocked_eq list_update_beyond)
qed

lemma recv_same_send_update:
  "recv_view s = recv_view (obj c i) \<Longrightarrow> recv_same c (send_update i s c)"
  by (simp add: recv_same_def send_update_def map_view_update) (simp add: recv_view_def map_view_update)

lemma recv_view_send [simp]:
  "recv_view (finish_obj s) = recv_view s" "recv_view (stop_obj code r s) = recv_view s"
  by (simp_all add: recv_view_def)

lemma terminate_recv: "recv_same c (snd (terminate err c))"
proof (cases "terminate err c")
  case (Pair b c')
  show ?thesis
  proof (cases b)
    case True
    then have t0: "terminate err c = (True, c')" using Pair by simp
    have "map recv_view (c_objs c') = map recv_view (c_objs c)"
      using terminate_True(4) [OF t0] recv_view_silent by (rule map_silent)
    then show ?thesis using terminate_True [OF t0] by (simp add: recv_same_def Pair)
  next
    case False
    then show ?thesis using terminate_False [of err c c'] Pair by simp
  qed
qed

lemma others_recv:
  "recv_same c (handle_MaxData m c)" "recv_same c (snd (handlePingLocked now response n c))"
  "recv_same c (handle_MaxStreams uni m c)" "recv_same c (handleParametersLocked p c)"
  "recv_same c (snd (handleDatagramLocked dat c))"
  "recv_same c (snd (trySend now i c))" "recv_same c (snd (reserve i k c))"
  "recv_same c (setPriority i urg inc c)" "recv_same c (snd (requestPing now c))"
  "recv_same c (snd (writeRecordLocked tw now buf c))" "recv_same c (snd (takeControl now c))"
  "i < length (c_objs c) \<Longrightarrow> recv_same c (setReadDeadline i dl c)"
  "i < length (c_objs c) \<Longrightarrow> recv_same c (setWriteDeadline i dl c)"
proof -
  note d = recv_same_def upd_defs broadcast_defs Let_def map_view_update recv_view_def
  show "recv_same c (handle_MaxData m c)" by (simp add: handle_MaxData_def d)
  show "recv_same c (snd (handlePingLocked now response n c))"
    by (simp add: handlePingLocked_def wakeWriter_def d)
  show "recv_same c (handle_MaxStreams uni m c)" by (simp add: handle_MaxStreams_def d)
  show "recv_same c (handleParametersLocked p c)" by (simp add: handleParametersLocked_eq recv_same_def)
  show "recv_same c (snd (handleDatagramLocked dat c))" by (simp add: handleDatagramLocked_def d)
  show "recv_same c (snd (trySend now i c))"
    using recv_same_trans [OF recv_same_signals(7) recv_same_signals(8), of c i]
    by (auto simp: trySend_def Let_def split: option.splits prod.splits)
  show "recv_same c (snd (reserve i k c))"
    by (simp add: reserve_def d split: option.split)
  show "recv_same c (setPriority i urg inc c)" by (simp add: setPriority_def d)
  show "recv_same c (snd (requestPing now c))" by (simp add: requestPing_def wakeWriter_def d)
  show "recv_same c (snd (writeRecordLocked tw now buf c))"
    by (simp add: writeRecordLocked_def touch_def d split: sum.split)
  show "recv_same c (snd (takeControl now c))" by (simp add: takeControl_def d)
  show "recv_same c (setReadDeadline i dl c)" if "i < length (c_objs c)"
    using that by (simp add: setReadDeadline_def d)
  show "recv_same c (setWriteDeadline i dl c)" if "i < length (c_objs c)"
    using that by (simp add: setWriteDeadline_def d)
qed

lemma conn_op_recv: "conn_op grow c c' \<Longrightarrow> recv_ok c \<Longrightarrow> recv_bounds c \<Longrightarrow> recv_ok c'"
proof (induction rule: conn_op.induct)
  case (op_open_next c d sid)
  then show ?case by (simp add: open_next_eq recv_ok_def Let_def new_stream_recv_inv)
next
  case (op_data c i dat sid off fin)
  then show ?case by (simp add: receiver_def receive_data_recv)
next
  case (op_reset c i sid code n)
  then show ?case by (simp add: receiver_def receive_reset_recv)
next
  case (op_stop c i code remote)
  have "recv_same c (queueLocked f (send_update i (stop_obj code remote (obj c i)) c))" for f
    by (rule recv_same_trans [OF recv_same_send_update recv_same_queue(1)]) simp
  then show ?case using op_stop complete_recv_ok by (simp add: sender_def resetSendLocked_eq)
next
  case (op_max_stream_data c i m)
  have "recv_same c (send_update i ((obj c i)\<lparr>s_sendMax := m\<rparr>) c)"
    by (rule recv_same_send_update) (simp add: recv_view_def)
  then show ?case using op_max_stream_data recv_same_ok by (simp add: sender_def max_stream_data_eq)
next
  case (op_finish i c)
  have "recv_same c (send_update i (finish_obj (obj c i)) c)" by (rule recv_same_send_update) simp
  then show ?case using op_finish complete_recv_ok by (simp add: sender_def finish_snd)
next
  case (op_read i c k)
  then show ?case by (simp add: receiver_def tryRead_recv)
next
  case (op_cancelRead i c code)
  then show ?case by (simp add: receiver_def cancelRead_recv)
next
  case (op_peek i c k)
  then show ?case using recv_same_ok [OF tryPeek_recv] by blast
next
  case (op_open c d)
  then show ?case using recv_same_ok [OF recv_same_signals(9)]
    by (simp add: tryOpen_snd Let_def) (simp add: recv_ok_def new_stream_recv_inv)
next
  case (op_accept c d)
  have "recv_same c (c\<lparr>c_in := f, c_objs := (c_objs c)[p := (obj c p)\<lparr>s_accepted := True\<rparr>]\<rparr>)" for f p
    by (simp add: recv_same_def map_view_update recv_view_def)
  then show ?case using op_accept complete_recv_ok recv_same_ok [OF recv_same_signals(10)]
    by (auto simp: tryAccept_snd split: list.split)
next
  case (op_terminate c err)
  then show ?case using recv_same_ok [OF terminate_recv] by blast
qed (use recv_same_ok [OF others_recv(1)] recv_same_ok [OF others_recv(2)] recv_same_ok [OF others_recv(3)]
    recv_same_ok [OF others_recv(4)] recv_same_ok [OF others_recv(5)] recv_same_ok [OF others_recv(6)]
    recv_same_ok [OF others_recv(7)] recv_same_ok [OF others_recv(8)] recv_same_ok [OF others_recv(9)]
    recv_same_ok [OF others_recv(10)] recv_same_ok [OF others_recv(12)] recv_same_ok [OF others_recv(13)]
    in \<open>simp_all\<close>, simp_all add: recv_ok_def touch_def)

section \<open>Reachable states\<close>

text \<open>A step from a state whose limits the wire can carry.\<close>

definition bounded_step :: "(nat \<Rightarrow> nat \<Rightarrow> nat) \<Rightarrow> bool \<times> Conn \<Rightarrow> bool \<times> Conn \<Rightarrow> bool" where
  "bounded_step grow s t \<longleftrightarrow> recv_bounds (snd s) \<and> conn_step grow s t"

lemma newConn_recv_ok: "recv_ok (newConn config isServer now)"
  by (simp add: recv_ok_def recv_inv_def newConn_def)

interpretation recv: relative_invariant "conn_start q" "bounded_step grow" "\<lambda>s. table_ok (snd s)"
  "\<lambda>s. recv_ok (snd s)" for q grow
proof
  fix s t :: "bool \<times> Conn"
  show "conn_start q s \<Longrightarrow> table_ok (snd s)" by (auto simp: conn_start_def newConn_table_ok)
  show "table_ok (snd s) \<Longrightarrow> bounded_step grow s t \<Longrightarrow> table_ok (snd t)"
    unfolding bounded_step_def using table.keep by blast
  show "conn_start q s \<Longrightarrow> recv_ok (snd s)" by (auto simp: conn_start_def newConn_recv_ok)
  assume ok: "recv_ok (snd s)" and "bounded_step grow s t"
  then have b: "recv_bounds (snd s)" and st: "conn_step grow s t" by (simp_all add: bounded_step_def)
  from st show "recv_ok (snd t)"
  proof cases
    case (step_op c c' w)
    then show ?thesis using conn_op_recv ok b by simp
  next
    case (step_wake c)
    then show ?thesis using ok by (simp add: recv_ok_def)
  next
    case (step_take c now)
    then show ?thesis using ok recv_same_ok [OF others_recv(11)] by simp
  qed
qed

section \<open>Properties\<close>

subsection \<open>An example\<close>

text \<open>The example connection, after the peer has sent three bytes on its stream.\<close>

definition example_grow :: "nat \<Rightarrow> nat \<Rightarrow> nat" where
  "example_grow k n = n"

definition example_data :: Conn where
  "example_data = snd (receive_data example_grow 0 0 0 [1, 2, 3] False example_conn)"

lemma default_windows:
  "stream_window example_start = 524288" "conn_window example_start = 1048576"
  by (simp_all add: example_start_fields normalized_fields(3,4) [OF refl] zero_Config_def config_defaults
      rfc9000_def)

lemma open_next_bounds: "recv_bounds c \<Longrightarrow> recv_bounds (open_next d c)"
proof -
  assume b: "recv_bounds c"
  then have "unat (s_recvMax (new_stream c i)) < 2 ^ 62" for i
    using new_stream_recv(3) [of c i] by (elim disjE) (simp_all add: recv_bounds_def)
  then show ?thesis using b by (simp add: open_next_eq Let_def recv_bounds_def)
qed

lemma example_conn_recv:
  "recv_bounds example_start" "recv_bounds (handleParametersLocked example_params example_start)"
  "recv_bounds example_conn" "receiver 0 example_conn"
proof -
  show "recv_bounds example_start"
    by (simp add: recv_bounds_def default_windows example_start_fields) (simp add: default_windows [unfolded example_start_fields])
  then show p: "recv_bounds (handleParametersLocked example_params example_start)"
    by (simp add: recv_bounds_def handleParametersLocked_eq)
  show "recv_bounds example_conn"
    unfolding example_conn_def using p by (rule open_next_bounds)
  show "receiver 0 example_conn"
    by (simp add: receiver_def example_conn_fields) (simp add: new_stream_def zero_stream_def streamDir_def Let_def)
qed

lemma bounded_run_op:
  "(bounded_step grow)\<^sup>*\<^sup>* s (w, c) \<Longrightarrow> conn_op grow c c' \<Longrightarrow> recv_bounds c \<Longrightarrow> (bounded_step grow)\<^sup>*\<^sup>* s (w, c')"
  unfolding bounded_step_def by (metis (mono_tags, lifting) rtranclp.rtrancl_into_rtrancl snd_conv step_op)

lemma example_data_run: "(bounded_step example_grow)\<^sup>*\<^sup>* (False, example_start) (False, example_data)"
proof -
  have "(bounded_step example_grow)\<^sup>*\<^sup>* (False, example_start) (False, example_start)" by simp
  then have "(bounded_step example_grow)\<^sup>*\<^sup>* (False, example_start) (False, handleParametersLocked example_params example_start)"
    by (rule bounded_run_op [OF _ op_params]) (simp_all add: example_start_fields example_params_def example_conn_recv)
  then have "(bounded_step example_grow)\<^sup>*\<^sup>* (False, example_start) (False, example_conn)"
    unfolding example_conn_def
    by (rule bounded_run_op [OF _ op_open_next [where sid = 0]])
      (simp_all add: handleParametersLocked_eq example_start_fields, simp add: example_conn_recv handleParametersLocked_eq [symmetric])
  then show ?thesis
    unfolding example_data_def
    by (rule bounded_run_op [OF _ op_data]) (simp_all add: example_conn_fields example_conn_recv)
qed

subsection \<open>Flow control\<close>




lemma example_conn_run: "(bounded_step grow)\<^sup>*\<^sup>* (False, example_start) (False, example_conn)"
proof -
  have "(bounded_step grow)\<^sup>*\<^sup>* (False, example_start) (False, example_start)" by simp
  then have "(bounded_step grow)\<^sup>*\<^sup>* (False, example_start) (False, handleParametersLocked example_params example_start)"
    by (rule bounded_run_op [OF _ op_params]) (simp_all add: example_start_fields example_params_def example_conn_recv)
  then show ?thesis
    unfolding example_conn_def
    by (rule bounded_run_op [OF _ op_open_next [where sid = 0]])
      (simp_all add: handleParametersLocked_eq example_start_fields, simp add: example_conn_recv handleParametersLocked_eq [symmetric])
qed


text \<open>The bytes of a stream arrive in the order they were sent. Data that a STREAM frame carries is
  appended to the unread bytes of its stream, whatever room the buffer has; a read returns the first of
  them, as many as the caller asks for, and leaves the rest; and neither touches another stream's.\<close>

lemma read_in_order:
  assumes "conn_start q s" "(bounded_step grow)\<^sup>*\<^sup>* s (w, c)" "recv_bounds c" "receiver i c"
  shows "(\<forall>d c'. tryRead i k c = (Copied d, c') \<longrightarrow>
      d = take k (unread (obj c i)) \<and> unread (obj c' i) = drop k (unread (obj c i)) \<and>
      (\<forall>j < length (c_objs c). j \<noteq> i \<longrightarrow> unread (obj c' j) = unread (obj c j))) \<and>
    (data_accepted i off dat c \<and> \<not> s_readCancelled (obj c i) \<longrightarrow>
      (\<exists>c'. receive_data grow i sid off dat fin c = (None, c') \<and>
        unread (obj c' i) = unread (obj c i) @ dat \<and>
        (\<forall>j < length (c_objs c). j \<noteq> i \<longrightarrow> unread (obj c' j) = unread (obj c j))))"
proof (intro conjI allI impI)
  have ok: "recv_ok c" using recv.both.reachable [OF assms(1,2)] by simp
  have i: "i < length (c_objs c)" "s_canRecv (obj c i)" using assms(4) by (simp_all add: receiver_def)
  let ?s = "obj c i"
  note p = recv_ok_parts [OF ok assms(3) i(1)]
  have r: "s_roff ?s \<le> length (s_rbuf ?s)" using p(1) by (simp add: recv_stream_ok_def)
  {
    fix d c' assume t: "tryRead i k c = (Copied d, c')"
    then have g: "c_closeErr c = None" "s_recvErr ?s = None" "s_roff ?s < length (s_rbuf ?s)"
      and d: "d = take k (unread ?s)"
      by (auto simp: tryRead_def Let_def unread_def split: option.splits prod.splits if_splits)
    show "d = take k (unread ?s)" by (rule d)
    let ?t = "read_obj (stream_window c) (of_nat (length d)) (take_unread (length d) ?s)"
    have c': "c' = completeLocked i (readLocked i (of_nat (length d)) (upd_obj i (take_unread (length d)) c))"
      using t g by (auto simp: tryRead_def Let_def u64_len_def)
    have u: "c_objs c' = (c_objs c)[i := complete_obj ?t]"
      using i(1) by (simp add: c' completeLocked_eq readLocked_eq upd_obj_def)
    have t': "unread ?t = drop (length d) (unread ?s)"
      by (simp add: read_obj_def take_unread_def unread_def Let_def add.commute)
    have "\<not> s_recvReset ?s" "\<not> s_readCancelled ?s" using p(1) g(2) by (auto simp: recv_stream_ok_def)
    then have "unread (complete_obj ?t) = unread ?t"
      using i(2) by (intro complete_obj_unread) (simp_all add: read_obj_def take_unread_def Let_def)
    then show "unread (obj c' i) = drop k (unread ?s)"
      using u i(1) t' d by (simp add: min_def)
    show "unread (obj c' j) = unread (obj c j)" if "j < length (c_objs c)" "j \<noteq> i" for j
      using u that by simp
  }
  assume a: "data_accepted i off dat c \<and> \<not> s_readCancelled ?s"
  let ?t = "data_obj grow dat fin ?s"
  have "receive_data grow i sid off dat fin c = (None, snd (receive_data grow i sid off dat fin c))"
    using a by (auto simp: receive_data_def data_accepted_def receivedLocked_def Let_def)
  moreover have o: "c_objs (snd (receive_data grow i sid off dat fin c)) = (c_objs c)[i := complete_obj ?t]"
    using a i(1) by (simp add: receive_data_snd completeLocked_eq recv_update_def)
  moreover have t: "unread ?t = unread ?s @ dat"
    using a r by (simp add: data_obj_def Let_def unread_def bufferLocked_def)
  moreover have "unread (complete_obj ?t) = unread ?t"
    by (rule complete_obj_unread) (use a i(2) in \<open>simp_all add: data_obj_def data_accepted_def Let_def\<close>)
  ultimately show "\<exists>c'. receive_data grow i sid off dat fin c = (None, c') \<and> unread (obj c' i) = unread ?s @ dat \<and>
      (\<forall>j < length (c_objs c). j \<noteq> i \<longrightarrow> unread (obj c' j) = unread (obj c j))"
    using i(1) by (intro exI [of _ "snd (receive_data grow i sid off dat fin c)"]) simp
qed

lemma example_data_fields:
  "c_objs example_data = [zero_stream\<lparr>s_canRecv := True, s_canSend := True, s_recvMax := 524288,
     s_urgency := defaultUrgency, s_incremental := True, s_sendMax := 100,
     s_recvOffset := 3, s_rbuf := [1, 2, 3], s_cap := 3\<rparr>]"
  "c_received example_data = 3" "c_recvMax example_data = 1048576" "c_closeErr example_data = None"
  "c_config example_data = normalized rfc9000 None"
proof -
  have s: "obj example_conn 0 = zero_stream\<lparr>s_canRecv := True, s_canSend := True, s_recvMax := 524288,
     s_urgency := defaultUrgency, s_incremental := True, s_sendMax := 100\<rparr>"
    using default_windows(1) by (simp add: example_conn_fields example_start_fields)
      (simp add: new_stream_def zero_stream_def streamDir_def initiatedLocally_def Let_def example_conn_fields
        example_params_def)
  have m: "c_recvMax example_conn = 1048576" "c_received example_conn = 0"
    using default_windows(2) by (simp_all add: example_conn_def open_next_eq handleParametersLocked_eq
      example_start_fields Let_def)
  have acc: "data_accepted 0 0 [1, 2, 3] example_conn"
    unfolding data_accepted_def s by (simp add: m zero_stream_def u64_len_def)
  have "0 < length (c_objs example_conn)" by (simp add: example_conn_fields)
  from receive_data_snd [OF this, of example_grow 0 0 "[1, 2, 3]" False] acc
  have e: "example_data = completeLocked 0 (recv_update 0
      (data_obj example_grow [1, 2, 3] False (obj example_conn 0)) 3 example_conn)"
    unfolding s example_data_def by (simp add: zero_stream_def u64_len_def)
  have t: "data_obj example_grow [1, 2, 3] False (obj example_conn 0) =
      zero_stream\<lparr>s_canRecv := True, s_canSend := True, s_recvMax := 524288,
       s_urgency := defaultUrgency, s_incremental := True, s_sendMax := 100,
       s_recvOffset := 3, s_rbuf := [1, 2, 3], s_cap := 3\<rparr>"
    unfolding s by (simp add: data_obj_def bufferLocked_def zero_stream_def example_grow_def u64_len_def Let_def)
  have n: "\<not> completes (zero_stream\<lparr>s_canRecv := True, s_canSend := True, s_recvMax := 524288,
       s_urgency := defaultUrgency, s_incremental := True, s_sendMax := 100,
       s_recvOffset := 3, s_rbuf := [1, 2, 3], s_cap := 3\<rparr>)"
    by (simp add: completes_def zero_stream_def)
  show "c_objs example_data = [zero_stream\<lparr>s_canRecv := True, s_canSend := True, s_recvMax := 524288,
     s_urgency := defaultUrgency, s_incremental := True, s_sendMax := 100,
     s_recvOffset := 3, s_rbuf := [1, 2, 3], s_cap := 3\<rparr>]"
    "c_received example_data = 3" "c_recvMax example_data = 1048576" "c_closeErr example_data = None"
    "c_config example_data = normalized rfc9000 None"
    unfolding e t
    by (simp_all add: completeLocked_eq recv_update_def example_conn_fields m complete_obj_def n)
qed

end
