(* ===== verification/Send_Flow.thy ===== *)
theory Send_Flow
  imports Stream_Table
begin

text \<open>Flow control of the data an endpoint sends: what is reserved on a stream and over the
  connection stays within the limits the peer has declared, and the chunks of a stream follow each
  other without gap or overlap.\<close>

section \<open>The invariant\<close>

text \<open>The limits \<open>M\<close> of the connection and of each stream, and the \<open>S\<close> bytes sent.\<close>

definition send_inv :: "u64 \<Rightarrow> u64 \<Rightarrow> stream list \<Rightarrow> bool" where
  "send_inv M S ss \<longleftrightarrow>
     (\<forall>s \<in> set ss. s_sendOffset s \<le> s_sendMax s) \<and> (\<Sum>s\<leftarrow>ss. unat (s_sendOffset s)) = unat S \<and> S \<le> M"

definition send_ok :: "Conn \<Rightarrow> bool" where
  "send_ok c \<longleftrightarrow> send_inv (c_sendMax c) (c_sent c) (c_objs c)"

definition send_view :: "stream \<Rightarrow> u64 \<times> u64" where
  "send_view s = (s_sendOffset s, s_sendMax s)"

definition send_same :: "Conn \<Rightarrow> Conn \<Rightarrow> bool" where
  "send_same c c' \<longleftrightarrow> c_sendMax c' = c_sendMax c \<and> c_sent c' = c_sent c \<and>
     map send_view (c_objs c') = map send_view (c_objs c)"

lemma send_inv_view:
  assumes "map send_view ss = map send_view ts"
  shows "send_inv M S ss = send_inv M S ts"
proof -
  have v: "(\<forall>s \<in> set xs. s_sendOffset s \<le> s_sendMax s) = (\<forall>v \<in> set (map send_view xs). fst v \<le> snd v)"
    "(\<Sum>s\<leftarrow>xs. unat (s_sendOffset s)) = (\<Sum>v\<leftarrow>map send_view xs. unat (fst v))" for xs
    by (simp_all add: send_view_def o_def)
  show ?thesis unfolding send_inv_def v assms ..
qed

lemma send_same_ok:
  assumes "send_same c c'" "send_ok c"
  shows "send_ok c'"
proof -
  have v: "map send_view (c_objs c') = map send_view (c_objs c)" using assms(1) by (simp add: send_same_def)
  show ?thesis using assms unfolding send_ok_def send_inv_view [OF v] by (simp add: send_same_def)
qed

lemma send_same_refl [simp]: "send_same c c"
  by (simp add: send_same_def)

lemma send_same_trans: "send_same a b \<Longrightarrow> send_same b c \<Longrightarrow> send_same a c"
  by (simp add: send_same_def)

section \<open>Reserving\<close>

lemma send_inv_reserve:
  assumes inv: "send_inv M S ss" and i: "i < length ss"
    and n: "n \<le> unat (s_sendMax (ss ! i)) - unat (s_sendOffset (ss ! i))" "n \<le> unat M - unat S"
  defines "t \<equiv> (ss ! i)\<lparr>s_sendOffset := s_sendOffset (ss ! i) + of_nat n\<rparr>"
  shows "send_inv M (S + of_nat n) (ss[i := t])"
    and "unat (s_sendOffset t) = unat (s_sendOffset (ss ! i)) + n"
proof -
  have le: "unat (s_sendOffset (ss ! i)) \<le> unat (s_sendMax (ss ! i))" "unat S \<le> unat M"
    using inv i by (simp_all add: send_inv_def word_le_nat_alt)
  have "n < 2 ^ 64" using n(2) unat_lt_u64 [of M] by simp
  then have un: "unat (of_nat n :: u64) = n" by (simp add: unat_of_nat_u64)
  show o: "unat (s_sendOffset t) = unat (s_sendOffset (ss ! i)) + n"
    using un n(1) le(1) unat_lt_u64 [of "s_sendMax (ss ! i)"] by (simp add: t_def unat_add_u64)
  have s: "unat (S + of_nat n) = unat S + n"
    using un n(2) le(2) unat_lt_u64 [of M] by (simp add: unat_add_u64)
  have "(\<Sum>s\<leftarrow>ss[i := t]. unat (s_sendOffset s)) + unat (s_sendOffset (ss ! i)) =
      (\<Sum>s\<leftarrow>ss. unat (s_sendOffset s)) + unat (s_sendOffset t)"
    using i by (rule sum_update)
  moreover have "s_sendOffset t \<le> s_sendMax t"
    using o n(1) le(1) by (simp add: word_le_nat_alt) (simp add: t_def)
  then have "\<forall>s \<in> set (ss[i := t]). s_sendOffset s \<le> s_sendMax s"
    using inv by (auto simp: send_inv_def dest: set_update_subset_insert [THEN subsetD])
  ultimately show "send_inv M (S + of_nat n) (ss[i := t])"
    using inv o s n(2) le(2) by (simp add: send_inv_def word_le_nat_alt)
qed

text \<open>What \<open>reserve\<close> grants: no more than it was asked for, than a chunk, and than the credit.\<close>

lemma sendCreditLocked_le:
  "unat (sendCreditLocked i c) \<le> unat (s_sendMax (obj c i)) - unat (s_sendOffset (obj c i)) \<and>
   unat (sendCreditLocked i c) \<le> unat (c_sendMax c) - unat (c_sent c)"
  by (auto simp: sendCreditLocked_def Let_def min_def not_le unat_sub_u64 word_le_nat_alt word_less_nat_alt)

definition granted :: "ptr \<Rightarrow> nat \<Rightarrow> Conn \<Rightarrow> nat" where
  "granted i n c = unat (min (min (of_nat n) (of_nat maxStreamData)) (sendCreditLocked i c))"

lemma granted_le:
  "granted i n c \<le> n" "granted i n c \<le> maxStreamData"
  "granted i n c \<le> unat (s_sendMax (obj c i)) - unat (s_sendOffset (obj c i))"
  "granted i n c \<le> unat (c_sendMax c) - unat (c_sent c)"
proof -
  have m: "unat (min a b) \<le> unat a" "unat (min a b) \<le> unat b" for a b :: u64
    by (auto simp: min_def word_le_nat_alt)
  have w: "unat (of_nat k :: u64) \<le> k" for k by (simp add: unat_of_nat take_bit_nat_less_eq_self)
  have g: "granted i n c \<le> unat (min (of_nat n :: u64) (of_nat maxStreamData))"
    "granted i n c \<le> unat (sendCreditLocked i c)"
    unfolding granted_def by (rule m)+
  show "granted i n c \<le> n" "granted i n c \<le> maxStreamData"
    using g(1) m [of "of_nat n" "of_nat maxStreamData"] w [of n] w [of maxStreamData] by linarith+
  show "granted i n c \<le> unat (s_sendMax (obj c i)) - unat (s_sendOffset (obj c i))"
    "granted i n c \<le> unat (c_sendMax c) - unat (c_sent c)"
    using g(2) sendCreditLocked_le [of i c] by linarith+
qed

lemma reserve_eq:
  "reserve i n c = (case sendErrLocked i c of Some e \<Rightarrow> (Inl e, c)
     | None \<Rightarrow> (Inr (s_sendOffset (obj c i), granted i n c),
         c\<lparr>c_objs := (c_objs c)[i := (obj c i)\<lparr>s_sendOffset := s_sendOffset (obj c i) + of_nat (granted i n c)\<rparr>],
           c_sent := c_sent c + of_nat (granted i n c)\<rparr>))"
  by (cases "sendErrLocked i c") (simp_all add: reserve_def upd_obj_def granted_def Let_def)

lemma reserve_send_ok:
  assumes "send_ok c" "i < length (c_objs c)"
  shows "send_ok (snd (reserve i n c))"
proof (cases "sendErrLocked i c")
  case None
  then show ?thesis
    using send_inv_reserve(1) [of "c_sendMax c" "c_sent c" "c_objs c" i "granted i n c"] assms granted_le [of i n c]
    by (simp add: reserve_eq send_ok_def)
qed (use assms in \<open>simp add: reserve_eq\<close>)

section \<open>Every operation\<close>

lemma send_view_objs [simp]:
  "send_view (data_obj grow d fin s) = send_view s" "send_view (reset_obj code n s) = send_view s"
  "send_view (cancel_obj code s) = send_view s" "send_view (take_unread k s) = send_view s"
  "send_view (finish_obj s) = send_view s" "send_view (stop_obj code r s) = send_view s"
  "send_view (complete_obj s) = send_view s" "send_view (silent s) = send_view s"
  by (simp_all add: send_view_def data_obj_def reset_obj_def cancel_obj_def take_unread_def silent_def Let_def)

lemma send_same_complete: "send_same c c' \<Longrightarrow> send_same c (completeLocked i c')"
  by (simp add: send_same_def completeLocked_eq map_view_update)

lemma send_same_updates:
  "send_view s = send_view (obj c i) \<Longrightarrow> send_same c (recv_update i s n c)"
  "send_view s = send_view (obj c i) \<Longrightarrow> send_same c (send_update i s c)"
  by (simp add: send_same_def recv_update_def map_view_update)
    (simp add: send_same_def send_update_def map_view_update, simp add: send_view_def map_view_update)

lemma send_same_consume:
  "send_same c c' \<Longrightarrow> send_same c (consumeLocked n c')" "send_same c c' \<Longrightarrow> send_same c (queueLocked f c')"
  by (simp_all add: send_same_def consumeLocked_eq queueLocked_def wakeWriter_def)

lemma send_same_waits:
  "send_same c (snd (read_wait i c))" "send_same c (snd (write_wait i c))" "send_same c (snd (send_wait c))"
  "send_same c (snd (out_wait d c))" "send_same c (snd (in_wait d c))"
  by (simp_all add: send_same_def wait_defs upd_defs map_view_update send_view_def)

lemma recv_ops_send:
  assumes "i < length (c_objs c)"
  shows "send_same c (snd (receive_data grow i sid off dat fin c))"
    "send_same c (snd (receive_reset i sid code n c))" "send_same c (cancelRead i code c)"
proof -
  show "send_same c (snd (receive_data grow i sid off dat fin c))"
    using assms send_same_updates(1) [of "data_obj grow dat fin (obj c i)" c i]
    by (auto simp: receive_data_snd intro!: send_same_complete send_same_consume)
  show "send_same c (snd (receive_reset i sid code n c))"
    using assms send_same_updates(1) [of "reset_obj code n (obj c i)" c i]
    by (auto simp: receive_reset_snd intro!: send_same_complete send_same_consume)
  show "send_same c (cancelRead i code c)"
    using assms send_same_updates(1) [of "cancel_obj code (obj c i)" c i]
    by (auto simp: cancelRead_eq intro!: send_same_complete send_same_consume)
qed

lemma tryRead_send: "i < length (c_objs c) \<Longrightarrow> send_same c (snd (tryRead i k c))"
proof -
  assume i: "i < length (c_objs c)"
  have "send_same c (readLocked i n (upd_obj i (take_unread m) c))" for n m
    using i by (simp add: send_same_def readLocked_def upd_obj_def consumeLocked_eq queueLocked_def wakeWriter_def
        Let_def map_view_update) (simp add: send_view_def take_unread_def map_view_update Let_def)
  then show ?thesis
    using send_same_waits(1) [of c i]
    by (auto simp: tryRead_def Let_def split: option.splits prod.splits intro: send_same_complete)
qed

lemma terminate_send: "send_same c (snd (terminate err c))"
proof (cases "terminate err c")
  case (Pair b c')
  show ?thesis
  proof (cases b)
    case True
    then have t0: "terminate err c = (True, c')" using Pair by simp
    have "map send_view (c_objs c') = map send_view (c_objs c)"
      using terminate_True(4) [OF t0] by (rule map_silent) simp
    then show ?thesis using terminate_True [OF t0] by (simp add: send_same_def Pair)
  next
    case False
    then show ?thesis using terminate_False [of err c c'] Pair by simp
  qed
qed

lemma others_send:
  "send_same c (snd (handlePingLocked now response n c))" "send_same c (handle_MaxStreams uni m c)"
  "send_same c (snd (handleDatagramLocked dat c))" "send_same c (snd (tryPeek i k c))"
  "send_same c (snd (trySend now i c))" "send_same c (setPriority i urg inc c)"
  "send_same c (snd (requestPing now c))" "send_same c (snd (writeRecordLocked tw now buf c))"
  "send_same c (snd (takeControl now c))" "send_same c (setReadDeadline i dl c)"
  "send_same c (setWriteDeadline i dl c)"
proof -
  note d = send_same_def upd_defs broadcast_defs Let_def map_view_update send_view_def
  show "send_same c (snd (handlePingLocked now response n c))"
    by (simp add: handlePingLocked_def wakeWriter_def d)
  show "send_same c (handle_MaxStreams uni m c)" by (simp add: handle_MaxStreams_def d)
  show "send_same c (snd (handleDatagramLocked dat c))" by (simp add: handleDatagramLocked_def d)
  show "send_same c (snd (tryPeek i k c))"
    using send_same_waits(1) [of c i] by (auto simp: tryPeek_def Let_def split: option.splits prod.splits)
  show "send_same c (snd (trySend now i c))"
    using send_same_trans [OF send_same_waits(2) send_same_waits(3), of c i]
    by (auto simp: trySend_def Let_def split: option.splits prod.splits)
  show "send_same c (setPriority i urg inc c)" by (simp add: setPriority_def d)
  show "send_same c (snd (requestPing now c))" by (simp add: requestPing_def wakeWriter_def d)
  show "send_same c (snd (writeRecordLocked tw now buf c))"
    by (simp add: writeRecordLocked_def touch_def d split: sum.split)
  show "send_same c (snd (takeControl now c))" by (simp add: takeControl_def d)
  show "send_same c (setReadDeadline i dl c)"
    by (cases "i < length (c_objs c)") (simp_all add: setReadDeadline_def d list_update_beyond)
  show "send_same c (setWriteDeadline i dl c)"
    by (cases "i < length (c_objs c)") (simp_all add: setWriteDeadline_def d list_update_beyond)
qed

lemma new_stream_send: "s_sendOffset (new_stream c i) = 0"
  by (simp add: new_stream_def zero_stream_def Let_def)

lemma conn_op_send: "conn_op grow c c' \<Longrightarrow> table_ok c \<Longrightarrow> send_ok c \<Longrightarrow> send_ok c'"
proof (induction rule: conn_op.induct)
  case (op_open_next c d sid)
  then show ?case by (simp add: open_next_eq send_ok_def send_inv_def Let_def new_stream_send)
next
  case (op_open c d)
  then show ?case using send_same_ok [OF send_same_waits(4)]
    by (simp add: tryOpen_snd Let_def) (simp add: send_ok_def send_inv_def new_stream_send)
next
  case (op_accept c d)
  have "send_same c (c\<lparr>c_in := f, c_objs := (c_objs c)[p := (obj c p)\<lparr>s_accepted := True\<rparr>]\<rparr>)" for f p
    by (simp add: send_same_def map_view_update send_view_def)
  then have "send_ok (completeLocked p (c\<lparr>c_in := f, c_objs := (c_objs c)[p := (obj c p)\<lparr>s_accepted := True\<rparr>]\<rparr>))" for f p
    using send_same_ok [OF send_same_complete] op_accept by blast
  then show ?case using op_accept send_same_ok [OF send_same_waits(5)]
    by (auto simp: tryAccept_snd split: list.split)
next
  case (op_data c i dat sid off fin)
  then show ?case using recv_ops_send(1) send_same_ok unfolding receiver_def by blast
next
  case (op_reset c i sid code n)
  then show ?case using recv_ops_send(2) send_same_ok unfolding receiver_def by blast
next
  case (op_cancelRead i c code)
  then show ?case using recv_ops_send(3) send_same_ok unfolding receiver_def by blast
next
  case (op_stop c i code remote)
  have "send_same c (queueLocked f (send_update i (stop_obj code remote (obj c i)) c))" for f
    by (rule send_same_consume(2) [OF send_same_updates(2)]) simp
  from send_same_ok [OF send_same_complete [OF this] op_stop.prems(2)]
  show ?case using op_stop by (simp add: sender_def resetSendLocked_eq)
next
  case (op_finish i c)
  have "send_same c (send_update i (finish_obj (obj c i)) c)" by (rule send_same_updates(2)) simp
  from send_same_ok [OF send_same_complete [OF this] op_finish.prems(2)]
  show ?case using op_finish by (simp add: sender_def finish_snd)
next
  case (op_max_stream_data c i m)
  then have "s_sendOffset (obj c i) \<le> s_sendMax (obj c i)" by (simp add: send_ok_def send_inv_def sender_def)
  then have "s_sendOffset (obj c i) \<le> m" using op_max_stream_data(3) by simp
  then show ?case
    using op_max_stream_data sum_update [of i "c_objs c" "\<lambda>s. unat (s_sendOffset s)" "(obj c i)\<lparr>s_sendMax := m, s_writeSignal := None\<rparr>"]
    by (auto simp: max_stream_data_eq sender_def send_update_def send_ok_def send_inv_def
        dest: set_update_subset_insert [THEN subsetD])
next
  case (op_max_data c m)
  then show ?case by (auto simp: handle_MaxData_def send_ok_def send_inv_def broadcast_defs)
next
  case (op_params c p)
  then have "c_objs c = []" by (simp add: table_ok_def table_inv_def) (simp add: table_of_def)
  then show ?case using op_params(4,5) by (simp add: handleParametersLocked_eq send_ok_def send_inv_def unat_eq_0)
next
  case (op_reserve i c n)
  then show ?case by (simp add: sender_def reserve_send_ok)
next
  case (op_read i c k)
  then show ?case using tryRead_send send_same_ok unfolding receiver_def by blast
next
  case (op_terminate c err)
  then show ?case using send_same_ok [OF terminate_send] by blast
qed (use send_same_ok [OF others_send(1)] send_same_ok [OF others_send(2)] send_same_ok [OF others_send(3)]
    send_same_ok [OF others_send(4)] send_same_ok [OF others_send(5)] send_same_ok [OF others_send(6)]
    send_same_ok [OF others_send(7)] send_same_ok [OF others_send(8)] send_same_ok [OF others_send(10)]
    send_same_ok [OF others_send(11)] in \<open>simp_all\<close>, simp_all add: send_ok_def touch_def)

interpretation send: relative_invariant "conn_start q" "conn_step grow" "\<lambda>s. table_ok (snd s)"
  "\<lambda>s. send_ok (snd s)" for q grow
proof
  fix s t :: "bool \<times> Conn"
  show "conn_start q s \<Longrightarrow> send_ok (snd s)" by (auto simp: conn_start_def newConn_def send_ok_def send_inv_def)
  assume ok: "table_ok (snd s)" "send_ok (snd s)" and "conn_step grow s t"
  from this(3) show "send_ok (snd t)"
  proof cases
    case (step_op c c' w)
    then show ?thesis using conn_op_send ok by simp
  next
    case (step_wake c)
    then show ?thesis using ok by (simp add: send_ok_def)
  next
    case (step_take c now)
    then show ?thesis using ok send_same_ok [OF others_send(9)] by simp
  qed
qed

section \<open>Properties\<close>

text \<open>C19. In every reachable state the data sent on each stream is within the limit that the peer has
  set for the stream, all data sent is within the peer's limit for the connection, and the
  connection's count is the sum over its streams.\<close>

theorem send_flow_control:
  assumes "conn_start q s" "conn_run grow s (w, c)"
  shows "(\<forall>x \<in> set (c_objs c). s_sendOffset x \<le> s_sendMax x) \<and> c_sent c \<le> c_sendMax c \<and>
    unat (c_sent c) = (\<Sum>x\<leftarrow>c_objs c. unat (s_sendOffset x))"
proof -
  have "send_ok c" using send.both.reachable [OF assms] by simp
  then show ?thesis by (simp add: send_ok_def send_inv_def)
qed

text \<open>The example connection, after the application has reserved 60 and then 70 bytes on the stream: the
  peer allows 100.\<close>

definition example_sent :: Conn where
  "example_sent = snd (reserve 0 70 (snd (reserve 0 60 example_conn)))"

lemma example_sent_run: "conn_run grow (False, example_start) (False, example_sent)"
proof -
  have s: "sender 0 example_conn"
    by (simp add: sender_def example_conn_fields) (simp add: new_stream_def zero_stream_def streamDir_def Let_def)
  then have "sender 0 (snd (reserve 0 60 example_conn))"
    by (auto simp: sender_def reserve_eq split: option.split)
  then have "conn_op grow (snd (reserve 0 60 example_conn)) example_sent"
    unfolding example_sent_def by (rule op_reserve)
  then show ?thesis using conn_run_op [OF conn_run_op [OF example_run op_reserve [OF s]]] by blast
qed

theorem send_flow_control_witness:
  "c_sent example_sent \<le> c_sendMax example_sent \<and>
   unat (c_sent example_sent) = (\<Sum>x\<leftarrow>c_objs example_sent. unat (s_sendOffset x))"
  using send_flow_control [OF conn_start_example example_sent_run] by blast

text \<open>C20. \<open>reserve\<close> grants a chunk that continues the stream: it starts where the last one ended, is no
  longer than what was asked for, than a STREAM frame may carry and than the credit of stream and
  connection, it is not empty as long as there is credit, and it is accounted for on both.\<close>

theorem reserve_correct:
  assumes "conn_start q s" "conn_run grow s (w, c)" "sender i c" "sendErrLocked i c = None" "n < 2 ^ 64"
  shows "\<exists>k c'. reserve i n c = (Inr (s_sendOffset (obj c i), k), c') \<and>
    k \<le> n \<and> k \<le> maxStreamData \<and>
    (0 < n \<and> s_sendOffset (obj c i) < s_sendMax (obj c i) \<and> c_sent c < c_sendMax c \<longrightarrow> 0 < k) \<and>
    unat (s_sendOffset (obj c' i)) = unat (s_sendOffset (obj c i)) + k \<and>
    s_sendOffset (obj c' i) \<le> s_sendMax (obj c' i) \<and>
    unat (c_sent c') = unat (c_sent c) + k \<and> c_sent c' \<le> c_sendMax c'"
proof -
  have ok: "send_ok c" using send.both.reachable [OF assms(1,2)] by simp
  have i: "i < length (c_objs c)" using assms(3) by (simp add: sender_def)
  let ?k = "granted i n c"
  let ?c = "snd (reserve i n c)"
  have inv: "send_inv (c_sendMax c) (c_sent c + of_nat ?k)
      ((c_objs c)[i := (obj c i)\<lparr>s_sendOffset := s_sendOffset (obj c i) + of_nat ?k\<rparr>])"
    and o: "unat (s_sendOffset (obj c i) + of_nat ?k) = unat (s_sendOffset (obj c i)) + ?k"
    using send_inv_reserve [OF ok [unfolded send_ok_def] i granted_le(3,4) [of i n c]] by simp_all
  have r: "reserve i n c = (Inr (s_sendOffset (obj c i), ?k), ?c)"
    and c: "obj ?c i = (obj c i)\<lparr>s_sendOffset := s_sendOffset (obj c i) + of_nat ?k\<rparr>"
      "c_sent ?c = c_sent c + of_nat ?k" "c_sendMax ?c = c_sendMax c"
    using assms(4) i by (simp_all add: reserve_eq)
  have s: "unat (c_sent c + of_nat ?k) = unat (c_sent c) + ?k"
  proof -
    have "unat (c_sent c) + ?k \<le> unat (c_sendMax c)"
      using granted_le(4) [of i n c] ok by (auto simp: send_ok_def send_inv_def word_le_nat_alt)
    then show ?thesis using unat_lt_u64 [of "c_sendMax c"] by (simp add: unat_add_u64 unat_of_nat_u64)
  qed
  have "0 < ?k" if "0 < n" "s_sendOffset (obj c i) < s_sendMax (obj c i)" "c_sent c < c_sendMax c"
  proof -
    have "0 < sendCreditLocked i c"
      using that by (simp add: sendCreditLocked_def Let_def min_def word_less_nat_alt unat_sub_u64 word_le_nat_alt)
    moreover have "0 < (of_nat n :: u64)" using that(1) assms(5) by (simp add: word_less_nat_alt unat_of_nat_u64)
    moreover have "0 < (of_nat maxStreamData :: u64)" by (simp add: maxStreamData_def DefaultMaxRecordSize_def StreamOverhead_def)
    ultimately show ?thesis by (simp add: granted_def unat_gt_0 min_def word_gt_0)
  qed
  moreover have "s_sendOffset (obj c i) + of_nat ?k \<le> s_sendMax (obj c i)" "c_sent c + of_nat ?k \<le> c_sendMax c"
    using inv set_update_memI [OF i, of "(obj c i)\<lparr>s_sendOffset := s_sendOffset (obj c i) + of_nat ?k\<rparr>"]
    by (auto simp: send_inv_def)
  ultimately show ?thesis using r c o s granted_le(1,2) [of i n c] by (intro exI [of _ ?k] exI [of _ ?c]) simp
qed

theorem reserve_correct_witness:
  "\<exists>k c'. reserve 0 70 example_conn = (Inr (0, k), c') \<and> k \<le> 70 \<and> 0 < k \<and>
    unat (s_sendOffset (obj c' 0)) = k \<and> s_sendOffset (obj c' 0) \<le> s_sendMax (obj c' 0) \<and> c_sent c' \<le> c_sendMax c'"
proof -
  have s: "obj example_conn 0 = zero_stream\<lparr>s_canRecv := True, s_canSend := True,
      s_recvMax := cf_InitialStreamReceiveWindow (normalized rfc9000 None),
      s_urgency := defaultUrgency, s_incremental := True, s_sendMax := 100\<rparr>"
    by (simp add: example_conn_fields)
      (simp add: new_stream_def zero_stream_def streamDir_def initiatedLocally_def Let_def example_conn_fields
        example_params_def)
  have "sender 0 example_conn" using s by (simp add: sender_def example_conn_fields(4))
  moreover have "sendErrLocked 0 example_conn = None"
    unfolding sendErrLocked_def s by (simp add: example_conn_fields zero_stream_def)
  moreover have "c_sendMax example_conn = 1000" "c_sent example_conn = 0"
    by (simp_all add: example_conn_def open_next_eq handleParametersLocked_eq example_start_fields example_params_def Let_def)
  ultimately show ?thesis
    using reserve_correct [OF conn_start_example example_run, of 0 70] unfolding s by (auto simp: zero_stream_def)
qed

end
