(* ===== verification/Conn_Life.thy ===== *)
theory Conn_Life
  imports Stream_Table
begin

text \<open>The life of a connection: the handshake completes at most once, the connection ends at most once
  and for one reason, nothing is sent or handed out afterwards, and the queue of datagrams is
  bounded.\<close>

section \<open>The invariant\<close>

type_synonym life = "go_error option \<times> nat \<times> go_error option \<times> bool \<times> bytes list \<times> Config"

definition life_of :: "Conn \<Rightarrow> life" where
  "life_of c = (c_cause c, c_handshake c, c_closeErr c, c_ready c, c_datagrams c, c_config c)"

fun life_inv :: "life \<Rightarrow> bool" where
  "life_inv (cause, handshake, closeErr, rdy, datagrams, config) \<longleftrightarrow>
     cause = closeErr \<and> handshake = (if rdy \<or> closeErr \<noteq> None then 1 else 0) \<and>
     length datagrams \<le> datagramQueueSize \<and>
     (\<forall>d \<in> set datagrams. of_nat (1 + length d) \<le> cf_MaxDatagramFrameSize config)"

abbreviation life_ok :: "Conn \<Rightarrow> bool" where
  "life_ok c \<equiv> life_inv (life_of c)"

lemma life_of_waits:
  "life_of (snd (read_wait i c)) = life_of c" "life_of (snd (write_wait i c)) = life_of c"
  "life_of (snd (send_wait c)) = life_of c" "life_of (snd (out_wait d c)) = life_of c"
  "life_of (snd (in_wait d c)) = life_of c"
  by (simp_all add: life_of_def wait_defs upd_defs)

lemma life_of_parts [simp]:
  "life_of (completeLocked i c) = life_of c" "life_of (recv_update i s n c) = life_of c"
  "life_of (send_update i s c) = life_of c" "life_of (consumeLocked n c) = life_of c"
  "life_of (queueLocked f c) = life_of c" "life_of (readLocked i n c) = life_of c"
  "life_of (upd_obj i g c) = life_of c"
  by (simp_all add: life_of_def completeLocked_eq recv_update_def send_update_def consumeLocked_eq queueLocked_def
      wakeWriter_def readLocked_def upd_obj_def Let_def)

lemma life_of_ops:
  "i < length (c_objs c) \<Longrightarrow> life_of (snd (receive_data grow i sid off dat fin c)) = life_of c"
  "i < length (c_objs c) \<Longrightarrow> life_of (snd (receive_reset i sid code n c)) = life_of c"
  "i < length (c_objs c) \<Longrightarrow> life_of (cancelRead i code c) = life_of c"
  "i < length (c_objs c) \<Longrightarrow> life_of (resetSendLocked i code remote c) = life_of c"
  "i < length (c_objs c) \<Longrightarrow> life_of (snd (finish i c)) = life_of c"
  "life_of (open_next d c) = life_of c" "life_of (snd (tryOpen d c)) = life_of c"
  "life_of (snd (tryAccept d c)) = life_of c" "life_of (snd (tryRead i k c)) = life_of c"
  "life_of (snd (tryPeek i k c)) = life_of c" "life_of (snd (trySend now i c)) = life_of c"
  "life_of (snd (reserve i k c)) = life_of c" "life_of (setPriority i urg inc c) = life_of c"
  "life_of (handle_MaxData m c) = life_of c" "life_of (handle_MaxStreams uni m c) = life_of c"
  "life_of (snd (handlePingLocked now response n c)) = life_of c" "life_of (snd (requestPing now c)) = life_of c"
  "life_of (snd (writeRecordLocked tw now buf c)) = life_of c" "life_of (snd (takeControl now c)) = life_of c"
  "life_of (setReadDeadline i dl c) = life_of c" "life_of (setWriteDeadline i dl c) = life_of c"
  "life_of (write_broadcast i c) = life_of c" "life_of (c\<lparr>c_tr := tr\<rparr>) = life_of c"
  "life_of (touch now (c\<lparr>c_bytesReceived := nb, c_recordsReceived := nr\<rparr>)) = life_of c"
proof -
  show "i < length (c_objs c) \<Longrightarrow> life_of (snd (receive_data grow i sid off dat fin c)) = life_of c"
    by (simp add: receive_data_snd)
  show "i < length (c_objs c) \<Longrightarrow> life_of (snd (receive_reset i sid code n c)) = life_of c"
    by (simp add: receive_reset_snd)
  show "i < length (c_objs c) \<Longrightarrow> life_of (cancelRead i code c) = life_of c" by (simp add: cancelRead_eq)
  show "i < length (c_objs c) \<Longrightarrow> life_of (resetSendLocked i code remote c) = life_of c"
    by (simp add: resetSendLocked_eq)
  show "i < length (c_objs c) \<Longrightarrow> life_of (snd (finish i c)) = life_of c" by (simp add: finish_snd)
  show "life_of (open_next d c) = life_of c" by (simp add: open_next_eq life_of_def Let_def)
  show "life_of (snd (tryOpen d c)) = life_of c" by (simp add: tryOpen_snd Let_def life_of_waits) (simp add: life_of_def)
  show "life_of (snd (tryAccept d c)) = life_of c"
    by (simp add: tryAccept_snd life_of_waits split: list.split) (simp add: life_of_def)
  show "life_of (snd (tryRead i k c)) = life_of c"
    using life_of_waits(1) [of i c] by (auto simp: tryRead_def Let_def split: option.splits prod.splits)
  show "life_of (snd (tryPeek i k c)) = life_of c"
    using life_of_waits(1) [of i c] by (auto simp: tryPeek_def Let_def split: option.splits prod.splits)
  show "life_of (snd (trySend now i c)) = life_of c"
    using life_of_waits(3) [of "snd (write_wait i c)"] life_of_waits(2) [of i c]
    by (auto simp: trySend_def Let_def split: option.splits prod.splits)
  show "life_of (snd (reserve i k c)) = life_of c"
    by (simp add: reserve_def upd_obj_def life_of_def Let_def split: option.split)
  show "life_of (setPriority i urg inc c) = life_of c" by (simp add: setPriority_def)
  show "life_of (handle_MaxData m c) = life_of c" by (simp add: handle_MaxData_def broadcast_defs life_of_def)
  show "life_of (handle_MaxStreams uni m c) = life_of c"
    by (simp add: handle_MaxStreams_def broadcast_defs upd_defs life_of_def Let_def)
  show "life_of (snd (handlePingLocked now response n c)) = life_of c"
    by (simp add: handlePingLocked_def wakeWriter_def life_of_def)
  show "life_of (snd (requestPing now c)) = life_of c" by (simp add: requestPing_def wakeWriter_def life_of_def)
  show "life_of (snd (writeRecordLocked tw now buf c)) = life_of c"
    by (simp add: writeRecordLocked_def touch_def life_of_def Let_def split: sum.split)
  show "life_of (snd (takeControl now c)) = life_of c" by (simp add: takeControl_def upd_in_def life_of_def Let_def)
  show "life_of (setReadDeadline i dl c) = life_of c" "life_of (setWriteDeadline i dl c) = life_of c"
    "life_of (write_broadcast i c) = life_of c" "life_of (c\<lparr>c_tr := tr\<rparr>) = life_of c"
    "life_of (touch now (c\<lparr>c_bytesReceived := nb, c_recordsReceived := nr\<rparr>)) = life_of c"
    by (simp_all add: touch_def setReadDeadline_def setWriteDeadline_def broadcast_defs upd_obj_def life_of_def)
qed

text \<open>The end of a connection, and the operations that change its life.\<close>

lemma terminate_life:
  "life_of (snd (terminate err c)) =
     (if c_closeErr c \<noteq> None then life_of c
      else (if c_cause c = None then Some err else c_cause c, c_handshake c + (if c_ready c then 0 else 1),
            Some err, c_ready c, c_datagrams c, c_config c))"
proof (cases "terminate err c")
  case (Pair b c')
  show ?thesis
  proof (cases b)
    case True
    then have t0: "terminate err c = (True, c')" using Pair by simp
    show ?thesis using terminate_True [OF t0] by (simp add: life_of_def Pair)
  next
    case False
    then show ?thesis using terminate_False [of err c c'] Pair by simp
  qed
qed

lemma conn_op_life_of:
  assumes "conn_op grow c c'"
  obtains (same) "life_of c' = life_of c"
  | (params) p where "c_closeErr c = None" "\<not> c_ready c" "c' = handleParametersLocked p c"
  | (datagram) dat where "c_closeErr c = None" "c' = snd (handleDatagramLocked dat c)"
  | (receive) dat ds where "c_datagrams c = dat # ds" "c' = c\<lparr>c_datagrams := ds\<rparr>"
  | (ends) err where "c' = snd (terminate err c)"
  using assms
proof cases
  case (op_data i dat sid off fin)
  then show thesis using same by (simp add: receiver_def life_of_ops)
next
  case (op_reset i sid code n)
  then show thesis using same by (simp add: receiver_def life_of_ops)
next
  case (op_cancelRead i code)
  then show thesis using same by (simp add: receiver_def life_of_ops)
next
  case (op_stop i code remote)
  then show thesis using same by (simp add: sender_def life_of_ops)
next
  case (op_finish i)
  then show thesis using same by (simp add: sender_def life_of_ops)
next
  case (op_params p)
  then show thesis using params by blast
next
  case (op_datagram dat)
  then show thesis using datagram by blast
next
  case (op_receiveDatagram dat ds)
  then show thesis using receive by blast
next
  case (op_terminate err)
  then show thesis using ends by blast
qed (rule same, simp add: life_of_ops)+

lemma conn_op_life: "conn_op grow c c' \<Longrightarrow> life_ok c \<Longrightarrow> life_ok c'"
proof (erule conn_op_life_of)
  fix err assume "c' = snd (terminate err c)" "life_ok c"
  then show "life_ok c'" by (simp add: terminate_life) (auto simp: life_of_def)
qed (auto simp: handleParametersLocked_eq handleDatagramLocked_def life_of_def not_less)

interpretation life: invariant "conn_start q" "conn_step grow" "\<lambda>s. life_ok (snd s)" for q grow
proof
  fix s t :: "bool \<times> Conn"
  show "conn_start q s \<Longrightarrow> life_ok (snd s)" by (auto simp: conn_start_def newConn_def life_of_def)
  assume ok: "life_ok (snd s)" and "conn_step grow s t"
  from this(2) show "life_ok (snd t)"
  proof cases
    case (step_op c c' w)
    then show ?thesis using conn_op_life ok by simp
  next
    case (step_wake c)
    then show ?thesis using ok by (simp add: life_of_def)
  next
    case (step_take c now)
    then show ?thesis using ok by (simp add: life_of_ops)
  qed
qed

lemma conn_op_closed: "conn_op grow c c' \<Longrightarrow> c_closeErr c = Some e \<Longrightarrow> c_closeErr c' = Some e"
proof (erule conn_op_life_of)
  fix err assume "c' = snd (terminate err c)" "c_closeErr c = Some e"
  then show "c_closeErr c' = Some e" by (simp add: terminate_def)
qed (auto simp: life_of_def)

lemma conn_step_closed:
  assumes "conn_step grow s t" "c_closeErr (snd s) = Some e"
  shows "c_closeErr (snd t) = Some e"
  using assms(1)
proof cases
  case (step_op c c' w)
  then show ?thesis using conn_op_closed assms(2) by simp
next
  case (step_take c now)
  then show ?thesis using assms(2) life_of_ops(19) [of now c] by (simp add: life_of_def)
qed (use assms(2) in simp)

section \<open>Properties\<close>

text \<open>The example connection, closed by the application.\<close>

definition example_closed :: Conn where
  "example_closed = snd (terminate (ApplicationError False 7 ''bye'') example_conn)"

lemma example_closed_run: "conn_run grow (False, example_start) (False, example_closed)"
  unfolding example_closed_def by (rule conn_run_op [OF example_run op_terminate])

lemma example_closed_closeErr: "c_closeErr example_closed = Some (ApplicationError False 7 ''bye'')"
  using terminate_life [of "ApplicationError False 7 ''bye''" example_conn]
  by (simp add: example_closed_def life_of_def example_conn_fields)







end
