(* ===== verification/Stream_Laws.thy ===== *)
theory Stream_Laws
  imports Conn_Steps
begin

text \<open>Properties of single streams that every step of a connection keeps. The locale \<open>stream_law\<close> asks for what
  the operations do to one stream, in the closed forms of \<open>Conn_Lemmas\<close>, and concludes that a connection all
  of whose streams have the property keeps it.\<close>

definition every :: "(stream \<Rightarrow> bool) \<Rightarrow> Conn \<Rightarrow> bool" where
  "every P c \<longleftrightarrow> (\<forall>s \<in> set (c_objs c). P s)"

lemma every_obj: "every P c \<Longrightarrow> i < length (c_objs c) \<Longrightarrow> P (obj c i)"
  by (simp add: every_def)

lemma every_update: "every P c \<Longrightarrow> P t \<Longrightarrow> c_objs c' = (c_objs c)[i := t] \<Longrightarrow> every P c'"
  by (auto simp: every_def dest: set_update_subset_insert [THEN subsetD])

lemma every_map: "every P c \<Longrightarrow> (\<And>s. P s \<Longrightarrow> P (f s)) \<Longrightarrow> c_objs c' = (c_objs c)[i := f (obj c i)] \<Longrightarrow> every P c'"
  by (cases "i < length (c_objs c)") (auto simp: every_def list_update_beyond dest: set_update_subset_insert [THEN subsetD])

lemma every_same: "c_objs c' = c_objs c \<Longrightarrow> every P c \<Longrightarrow> every P c'"
  by (simp add: every_def)

lemma every_append: "every P c \<Longrightarrow> P s \<Longrightarrow> c_objs c' = c_objs c @ [s] \<Longrightarrow> every P c'"
  by (simp add: every_def)

locale stream_law =
  fixes P :: "stream \<Rightarrow> bool"
  assumes law_new: "P (new_stream c sid)"
    and law_data: "P s \<Longrightarrow> \<not> s_finRecv s \<Longrightarrow> \<not> s_recvReset s \<Longrightarrow> P (data_obj grow d fin s)"
    and law_reset: "P s \<Longrightarrow> P (reset_obj code n s)"
    and law_cancel: "P s \<Longrightarrow> P (cancel_obj code s)"
    and law_read: "P s \<Longrightarrow> P (read_obj w k (take_unread m s))"
    and law_finish: "P s \<Longrightarrow> \<not> s_finSent s \<Longrightarrow> s_sendErr s = None \<Longrightarrow> P (finish_obj s)"
    and law_stop: "P s \<Longrightarrow> \<not> sendDone s \<Longrightarrow> P (stop_obj code r s)"
    and law_complete: "P s \<Longrightarrow> P (complete_obj s)"
    and law_accept: "P s \<Longrightarrow> P (s\<lparr>s_accepted := True\<rparr>)"
    and law_credit: "P s \<Longrightarrow> P (s\<lparr>s_sendMax := x\<rparr>)" "P s \<Longrightarrow> P (s\<lparr>s_sendOffset := x\<rparr>)"
    and law_signal: "P (s\<lparr>s_readSignal := y\<rparr>) = P s" "P (s\<lparr>s_writeSignal := y\<rparr>) = P s"
    and law_deadline: "P s \<Longrightarrow> P (s\<lparr>s_readDeadline := t\<rparr>)" "P s \<Longrightarrow> P (s\<lparr>s_writeDeadline := t\<rparr>)"
    and law_priority: "P s \<Longrightarrow> P (s\<lparr>s_urgency := u, s_incremental := b\<rparr>)"
begin

lemma silent_law: "P (silent s) = P s"
  unfolding silent_def by (simp only: law_signal)

lemma law_send_update: "every P c \<Longrightarrow> P s \<Longrightarrow> every P (send_update i s c)"
  by (rule every_update [where t = "s\<lparr>s_writeSignal := None\<rparr>"]) (simp_all add: law_signal send_update_def)

lemma law_parts:
  "every P c \<Longrightarrow> P s \<Longrightarrow> every P (recv_update i s n c)"
  "every P c \<Longrightarrow> every P (consumeLocked n c)" "every P c \<Longrightarrow> every P (queueLocked f c)"
  "every P c \<Longrightarrow> every P (completeLocked i c)"
proof -
  show "every P c \<Longrightarrow> P s \<Longrightarrow> every P (recv_update i s n c)"
    by (rule every_update [where t = s]) (simp_all add: recv_update_def)
  show "every P c \<Longrightarrow> every P (consumeLocked n c)" "every P c \<Longrightarrow> every P (queueLocked f c)"
    by (simp_all add: every_def consumeLocked_eq queueLocked_def wakeWriter_def)
  show "every P c \<Longrightarrow> every P (completeLocked i c)"
    by (rule every_map [where f = complete_obj]) (simp_all add: law_complete completeLocked_eq)
qed

lemma law_waits:
  "every P c \<Longrightarrow> every P (snd (read_wait i c))" "every P c \<Longrightarrow> every P (snd (write_wait i c))"
  "every P c \<Longrightarrow> every P (snd (send_wait c))" "every P c \<Longrightarrow> every P (snd (out_wait d c))"
  "every P c \<Longrightarrow> every P (snd (in_wait d c))"
proof -
  show "every P c \<Longrightarrow> every P (snd (read_wait i c))"
    by (rule every_map [where f = "\<lambda>s. s\<lparr>s_readSignal := Some (fst (read_wait i c))\<rparr>"]) (simp_all add: law_signal wait_defs upd_defs)
  show "every P c \<Longrightarrow> every P (snd (write_wait i c))"
    by (rule every_map [where f = "\<lambda>s. s\<lparr>s_writeSignal := Some (fst (write_wait i c))\<rparr>"]) (simp_all add: law_signal wait_defs upd_defs)
  show "every P c \<Longrightarrow> every P (snd (send_wait c))" "every P c \<Longrightarrow> every P (snd (out_wait d c))"
    "every P c \<Longrightarrow> every P (snd (in_wait d c))"
    by (simp_all add: wait_defs upd_defs every_def)
qed

lemma law_terminate: "every P c \<Longrightarrow> every P (snd (terminate err c))"
proof (cases "terminate err c")
  case (Pair b c')
  assume ok: "every P c"
  have e: "every P x = list_all id (map P (c_objs x))" for x by (simp add: every_def list_all_iff)
  show ?thesis
  proof (cases b)
    case True
    then have "terminate err c = (True, c')" using Pair by simp
    from terminate_True(4) [OF this] have "map P (c_objs c') = map P (c_objs c)" by (rule map_silent) (rule silent_law)
    then show ?thesis using ok Pair by (simp add: e)
  qed (use terminate_False [of err c c'] Pair ok in simp)
qed

lemma law_tryRead: "every P c \<Longrightarrow> i < length (c_objs c) \<Longrightarrow> every P (snd (tryRead i k c))"
proof -
  assume ok: "every P c" and i: "i < length (c_objs c)"
  have "every P (completeLocked i (readLocked i n (upd_obj i (take_unread m) c)))" for n m
    by (rule law_parts(4), rule every_map [OF ok law_read]) (use i in \<open>simp_all add: readLocked_eq upd_obj_def\<close>)
  then show ?thesis using law_waits(1) [OF ok, of i] ok by (auto simp: tryRead_def Let_def split: option.splits prod.splits)
qed

lemma conn_op_law: "conn_op grow c c' \<Longrightarrow> every P c \<Longrightarrow> every P c'"
proof (induction rule: conn_op.induct)
  case (op_open_next c d sid)
  show ?case by (rule every_append [OF op_open_next(5) law_new]) (simp add: open_next_eq Let_def)
next
  case (op_data c i dat sid off fin)
  then show ?case
    using law_data [OF every_obj [of P c i]]
    by (auto simp: receive_data_snd receiver_def data_accepted_def Let_def intro!: law_parts)
next
  case (op_reset c i sid code n)
  then show ?case using law_reset [OF every_obj [of P c i]]
    by (auto simp: receive_reset_snd receiver_def intro!: law_parts)
next
  case (op_cancelRead i c code)
  then show ?case using law_cancel [OF every_obj [of P c i]]
    by (auto simp: cancelRead_eq receiver_def intro!: law_parts)
next
  case (op_stop c i code remote)
  then show ?case using law_stop [OF every_obj [of P c i]]
    by (auto simp: resetSendLocked_eq sender_def intro!: law_parts law_send_update)
next
  case (op_finish i c)
  then show ?case using law_finish [OF every_obj [of P c i]]
    by (auto simp: finish_snd sender_def intro!: law_parts law_send_update)
next
  case (op_max_stream_data c i m)
  then show ?case using law_credit(1) [OF every_obj [of P c i]]
    by (auto simp: sender_def max_stream_data_eq intro!: law_send_update)
next
  case (op_open c d)
  have "every P (c\<lparr>c_objs := c_objs c @ [(new_stream c sid)\<lparr>s_accepted := True\<rparr>], c_streams := m, c_out := o'\<rparr>)" for sid m o'
    by (rule every_append [OF op_open law_accept [OF law_new]]) simp
  then show ?case using op_open law_waits(4) by (simp add: tryOpen_snd Let_def)
next
  case (op_accept c d)
  have "every P (c\<lparr>c_in := f, c_objs := (c_objs c)[p := (obj c p)\<lparr>s_accepted := True\<rparr>]\<rparr>)" for f p
    by (rule every_map [OF op_accept law_accept]) simp_all
  then show ?case using op_accept law_waits(5) law_parts(4) by (auto simp: tryAccept_snd split: list.split)
next
  case (op_read i c k)
  then show ?case by (simp add: law_tryRead receiver_def)
next
  case (op_peek i c k)
  then show ?case using law_waits(1) [of c i] by (auto simp: tryPeek_def Let_def split: option.splits prod.splits)
next
  case (op_trySend i c now)
  then show ?case using law_waits(3) [OF law_waits(2), of c i]
    by (auto simp: trySend_def Let_def split: option.splits prod.splits)
next
  case (op_reserve i c n)
  have "every P (c\<lparr>c_objs := (c_objs c)[i := (obj c i)\<lparr>s_sendOffset := x\<rparr>], c_sent := y\<rparr>)" for x y
    by (rule every_map [OF op_reserve(2) law_credit(2)]) simp_all
  then show ?case using op_reserve(2) by (simp add: reserve_def upd_obj_def Let_def split: option.split)
next
  case (op_terminate c err)
  then show ?case by (rule law_terminate)
next
  case (op_readDeadline i c t)
  show ?case
    by (rule every_map [OF op_readDeadline(2), where f = "\<lambda>s. s\<lparr>s_readDeadline := t, s_readSignal := None\<rparr>"])
      (use op_readDeadline(1) in \<open>simp_all add: law_signal law_deadline setReadDeadline_def broadcast_defs upd_obj_def\<close>)
next
  case (op_writeDeadline i c t)
  show ?case
    by (rule every_map [OF op_writeDeadline(2), where f = "\<lambda>s. s\<lparr>s_writeDeadline := t, s_writeSignal := None\<rparr>"])
      (use op_writeDeadline(1) in \<open>simp_all add: law_signal law_deadline setWriteDeadline_def broadcast_defs upd_obj_def\<close>)
next
  case (op_priority i c urg inc)
  show ?case by (rule every_map [OF op_priority(2) law_priority]) (simp_all add: setPriority_def upd_obj_def)
qed (simp_all add: every_def handle_MaxData_def handle_MaxStreams_def handleParametersLocked_eq
    handlePingLocked_def handleDatagramLocked_def requestPing_def writeRecordLocked_def broadcast_defs upd_out_def
    wakeWriter_def touch_def Let_def split: sum.split)

lemma conn_step_law: "conn_step grow s t \<Longrightarrow> every P (snd s) \<Longrightarrow> every P (snd t)"
proof (induction rule: conn_step.induct)
  case (step_op c c' w)
  then show ?case using conn_op_law by simp
qed (auto intro: every_same simp: takeControl_def upd_in_def Let_def)

end

sublocale stream_law \<subseteq> streams: invariant "conn_start q" "conn_step grow" "\<lambda>s. every P (snd s)" for q grow
  by unfold_locales (auto simp: conn_start_def newConn_def every_def dest: conn_step_law [unfolded every_def])

end
