(* ===== verification/Wake_Ups.thy ===== *)
theory Wake_Ups
  imports Conn_Life Stream_Laws
begin

text \<open>Nobody sleeps through what it waits for. A call that has to wait holds the channel of a signal;
  whatever lets it go on closes the channel, so that the call is not lost between its attempt and its
  wait. The same holds of the writer of control frames and its token.\<close>

section \<open>Streams that have ended\<close>

definition ended_ok :: "stream \<Rightarrow> bool" where
  "ended_ok s \<longleftrightarrow> (s_recvReset s \<longrightarrow> s_recvErr s \<noteq> None) \<and>
     (s_done s \<longrightarrow> (s_canRecv s \<longrightarrow> s_finRecv s \<or> s_recvReset s) \<and> sendDone s)"

definition all_ended_ok :: "Conn \<Rightarrow> bool" where
  "all_ended_ok c \<longleftrightarrow> (\<forall>s \<in> set (c_objs c). ended_ok s)"

lemma ended_obj: "all_ended_ok c \<Longrightarrow> i < length (c_objs c) \<Longrightarrow> ended_ok (obj c i)"
  by (simp add: all_ended_ok_def)

interpretation ended_law: stream_law ended_ok
  by unfold_locales
    (auto simp: ended_ok_def new_stream_def zero_stream_def data_obj_def reset_obj_def cancel_obj_def read_obj_def take_unread_def
      complete_obj_def completes_def recvDone_def sendDone_def Let_def)

lemma all_ended_every: "all_ended_ok = every ended_ok"
  by (simp add: fun_eq_iff all_ended_ok_def every_def)

lemma conn_op_ended: "conn_op grow c c' \<Longrightarrow> all_ended_ok c \<Longrightarrow> all_ended_ok c'"
  unfolding all_ended_every by (rule ended_law.conn_op_law)

interpretation ended: invariant "conn_start q" "conn_step grow" "\<lambda>s. all_ended_ok (snd s)" for q grow
  unfolding all_ended_every by (rule ended_law.streams.invariant_axioms)

section \<open>Waiting\<close>

text \<open>Who waits, and on which channels: a call that wants \<open>k\<close> bytes of a stream (\<open>read\<close> wants one), a
  call that writes on a stream, one that opens and one that accepts a stream.\<close>

datatype waiter = Reader ptr nat nat | Writer ptr nat nat | Opener dir nat | Acceptor dir nat

fun channels :: "waiter \<Rightarrow> nat set" where
  "channels (Reader i k ch) = {ch}"
| "channels (Writer i ch ch') = {ch, ch'}"
| "channels (Opener d ch) = {ch}"
| "channels (Acceptor d ch) = {ch}"

text \<open>The call is registered with its signals, and would have to wait again.\<close>

fun blocked :: "waiter \<Rightarrow> Conn \<Rightarrow> bool" where
  "blocked (Reader i k ch) c \<longleftrightarrow>
     i < length (c_objs c) \<and> c_closeErr c = None \<and>
     (let s = obj c i
      in s_canRecv s \<and> s_readSignal s = Some ch \<and> s_recvErr s = None \<and> length (s_rbuf s) - s_roff s < k \<and>
         \<not> s_finRecv s \<and> \<not> s_recvReset s \<and> \<not> s_done s)"
| "blocked (Writer i ch ch') c \<longleftrightarrow>
     i < length (c_objs c) \<and> c_sendSignal c = Some ch' \<and> c_closeErr c = None \<and>
     (let s = obj c i
      in s_writeSignal s = Some ch \<and> s_sendErr s = None \<and> \<not> s_finSent s \<and>
         (s_sendMax s \<le> s_sendOffset s \<or> c_sendMax c \<le> c_sent c))"
| "blocked (Opener d ch) c \<longleftrightarrow>
     o_signal (c_out c d) = Some ch \<and> c_closeErr c = None \<and> o_max (c_out c d) \<le> o_next (c_out c d)"
| "blocked (Acceptor d ch) c \<longleftrightarrow>
     i_signal (c_in c d) = Some ch \<and> c_closeErr c = None \<and> i_queue (c_in c d) = []"

definition waiting :: "waiter \<Rightarrow> Conn \<Rightarrow> bool" where
  "waiting w c \<longleftrightarrow> channels w \<inter> c_closed c \<noteq> {} \<or> blocked w c"

text \<open>A change keeps the calls that wait, or wakes them.\<close>

definition wakes :: "Conn \<Rightarrow> Conn \<Rightarrow> bool" where
  "wakes c c' \<longleftrightarrow> (\<forall>w. waiting w c \<longrightarrow> waiting w c')"

lemma wakesI:
  assumes "c_closed c \<subseteq> c_closed c'" "\<And>w. blocked w c \<Longrightarrow> channels w \<inter> c_closed c' \<noteq> {} \<or> blocked w c'"
  shows "wakes c c'"
  using assms unfolding wakes_def waiting_def by blast

lemma wakes_refl [simp]: "wakes c c"
  by (simp add: wakes_def)

lemma wakes_trans: "wakes a b \<Longrightarrow> wakes b c \<Longrightarrow> wakes a c"
  by (simp add: wakes_def)

text \<open>What the calls read of a stream.\<close>

definition reader_view :: "stream \<Rightarrow> bool \<times> signal \<times> go_error option \<times> nat \<times> bool \<times> bool \<times> bool" where
  "reader_view s = (s_canRecv s, s_readSignal s, s_recvErr s, length (s_rbuf s) - s_roff s, s_finRecv s, s_recvReset s, s_done s)"

definition writer_view :: "stream \<Rightarrow> signal \<times> go_error option \<times> bool \<times> u64 \<times> u64" where
  "writer_view s = (s_writeSignal s, s_sendErr s, s_finSent s, s_sendMax s, s_sendOffset s)"

lemma complete_reader: "s_canRecv s \<Longrightarrow> \<not> s_finRecv s \<Longrightarrow> \<not> s_recvReset s \<Longrightarrow> complete_obj s = s"
  by (simp add: complete_obj_def completes_def recvDone_def)

lemma wakes_complete: "wakes c (completeLocked j c)"
proof (rule wakesI)
  fix w assume b: "blocked w c"
  show "channels w \<inter> c_closed (completeLocked j c) \<noteq> {} \<or> blocked w (completeLocked j c)"
  proof (cases w)
    case (Reader i k ch)
    then show ?thesis using b complete_reader [of "obj c i"]
      by (cases "j = i") (simp_all add: completeLocked_eq Let_def)
  next
    case (Writer i ch ch')
    then show ?thesis using b by (cases "j = i") (simp_all add: completeLocked_eq Let_def)
  qed (use b in \<open>simp_all add: completeLocked_eq\<close>)
qed (simp add: completeLocked_eq)

lemma wakes_recv_update:
  assumes "writer_view s = writer_view (obj c j)" "j < length (c_objs c)"
  shows "wakes c (recv_update j s n c)"
proof (rule wakesI)
  fix w assume b: "blocked w c"
  show "channels w \<inter> c_closed (recv_update j s n c) \<noteq> {} \<or> blocked w (recv_update j s n c)"
  proof (cases w)
    case (Reader i k ch)
    then show ?thesis using b by (cases "j = i") (simp_all add: recv_update_def Let_def)
  next
    case (Writer i ch ch')
    then show ?thesis using b assms by (cases "j = i") (simp_all add: recv_update_def writer_view_def Let_def)
  qed (use b in \<open>simp_all add: recv_update_def\<close>)
qed (auto simp: recv_update_def)

lemma wakes_send_update:
  assumes "reader_view s = reader_view (obj c j)" "j < length (c_objs c)"
  shows "wakes c (send_update j s c)"
proof (rule wakesI)
  fix w assume b: "blocked w c"
  show "channels w \<inter> c_closed (send_update j s c) \<noteq> {} \<or> blocked w (send_update j s c)"
  proof (cases w)
    case (Reader i k ch)
    then show ?thesis using b assms by (cases "j = i") (simp_all add: send_update_def reader_view_def Let_def)
  next
    case (Writer i ch ch')
    then show ?thesis using b by (cases "j = i") (simp_all add: send_update_def Let_def)
  qed (use b in \<open>simp_all add: send_update_def\<close>)
qed (auto simp: send_update_def)

text \<open>Changes of anything else.\<close>

lemma wakes_same:
  assumes "c_closed c' = c_closed c" "c_closeErr c' = c_closeErr c" "c_sendSignal c' = c_sendSignal c"
    "c_sendMax c' = c_sendMax c" "c_sent c' = c_sent c"
    "map reader_view (c_objs c') = map reader_view (c_objs c)"
    "map writer_view (c_objs c') = map writer_view (c_objs c)"
    "\<And>d. o_signal (c_out c' d) = o_signal (c_out c d)" "\<And>d. o_max (c_out c' d) = o_max (c_out c d)"
    "\<And>d. o_next (c_out c' d) = o_next (c_out c d)" "\<And>d. i_signal (c_in c' d) = i_signal (c_in c d)"
    "\<And>d. i_queue (c_in c' d) = i_queue (c_in c d)"
  shows "wakes c c'"
proof (rule wakesI)
  fix w assume b: "blocked w c"
  have len: "length (c_objs c') = length (c_objs c)" using arg_cong [OF assms(6), of length] by simp
  have rv: "reader_view (obj c' i) = reader_view (obj c i)" "writer_view (obj c' i) = writer_view (obj c i)"
    if "i < length (c_objs c)" for i
    using that len arg_cong [OF assms(6), of "\<lambda>xs. xs ! i"] arg_cong [OF assms(7), of "\<lambda>xs. xs ! i"] by simp_all
  show "channels w \<inter> c_closed c' \<noteq> {} \<or> blocked w c'"
  proof (cases w)
    case (Reader i k ch)
    then show ?thesis using b rv(1) [of i] len assms(2) by (simp add: reader_view_def Let_def)
  next
    case (Writer i ch ch')
    then show ?thesis using b rv(2) [of i] len assms(2-5) by (simp add: writer_view_def Let_def)
  qed (use b assms in simp_all)
qed (use assms in simp)

lemma wakes_writer: "wakes c (consumeLocked n c)" "wakes c (queueLocked f c)"
  by (rule wakes_same; simp add: consumeLocked_eq queueLocked_def wakeWriter_def)+

text \<open>Another call that starts to wait takes the channel that is there.\<close>

lemma wakes_waits:
  "wakes c (snd (read_wait j c))" "wakes c (snd (write_wait j c))" "wakes c (snd (send_wait c))"
  "wakes c (snd (out_wait d c))" "wakes c (snd (in_wait d c))"
proof -
  show "wakes c (snd (read_wait j c))"
  proof (rule wakesI)
    fix w assume b: "blocked w c"
    show "channels w \<inter> c_closed (snd (read_wait j c)) \<noteq> {} \<or> blocked w (snd (read_wait j c))"
    proof (cases w)
      case (Reader i k ch)
      then show ?thesis using b by (cases "j = i") (simp_all add: wait_defs upd_obj_def Let_def)
    next
      case (Writer i ch ch')
      then show ?thesis using b by (cases "j = i") (simp_all add: wait_defs upd_obj_def Let_def)
    qed (use b in \<open>simp_all add: wait_defs upd_obj_def\<close>)
  qed (simp add: wait_defs upd_obj_def)
  show "wakes c (snd (write_wait j c))"
  proof (rule wakesI)
    fix w assume b: "blocked w c"
    show "channels w \<inter> c_closed (snd (write_wait j c)) \<noteq> {} \<or> blocked w (snd (write_wait j c))"
    proof (cases w)
      case (Reader i k ch)
      then show ?thesis using b by (cases "j = i") (simp_all add: wait_defs upd_obj_def Let_def)
    next
      case (Writer i ch ch')
      then show ?thesis using b by (cases "j = i") (simp_all add: wait_defs upd_obj_def Let_def)
    qed (use b in \<open>simp_all add: wait_defs upd_obj_def\<close>)
  qed (simp add: wait_defs upd_obj_def)
  show "wakes c (snd (send_wait c))"
  proof (rule wakesI)
    fix w assume "blocked w c"
    then show "channels w \<inter> c_closed (snd (send_wait c)) \<noteq> {} \<or> blocked w (snd (send_wait c))"
      by (cases w) (simp_all add: wait_defs Let_def)
  qed (simp add: wait_defs)
  show "wakes c (snd (out_wait d c))"
  proof (rule wakesI)
    fix w assume "blocked w c"
    then show "channels w \<inter> c_closed (snd (out_wait d c)) \<noteq> {} \<or> blocked w (snd (out_wait d c))"
      by (cases w) (auto simp: wait_defs upd_out_def Let_def)
  qed (simp add: wait_defs upd_out_def)
  show "wakes c (snd (in_wait d c))"
  proof (rule wakesI)
    fix w assume "blocked w c"
    then show "channels w \<inter> c_closed (snd (in_wait d c)) \<noteq> {} \<or> blocked w (snd (in_wait d c))"
      by (cases w) (auto simp: wait_defs upd_in_def Let_def)
  qed (simp add: wait_defs upd_in_def)
qed

text \<open>A new stream: nobody waits on it yet, and who waits to accept is woken.\<close>

lemma wakes_open_next: "wakes c (open_next d c)"
proof (rule wakesI)
  fix w assume b: "blocked w c"
  show "channels w \<inter> c_closed (open_next d c) \<noteq> {} \<or> blocked w (open_next d c)"
  proof (cases w)
    case (Acceptor d' ch)
    then show ?thesis using b by (cases "d' = d") (simp_all add: open_next_eq Let_def)
  qed (use b in \<open>simp_all add: open_next_eq Let_def nth_append\<close>)
qed (auto simp: open_next_eq Let_def)

lemma wakes_tryOpen: "wakes c (snd (tryOpen d c))"
proof (cases "c_closeErr c = None \<and> o_next (c_out c d) < o_max (c_out c d)")
  case True
  then have g: "\<not> o_max (c_out c d) \<le> o_next (c_out c d)" "c_closeErr c = None" by auto
  show ?thesis
  proof (rule wakesI)
    fix w assume b: "blocked w c"
    show "channels w \<inter> c_closed (snd (tryOpen d c)) \<noteq> {} \<or> blocked w (snd (tryOpen d c))"
    proof (cases w)
      case (Opener d' ch)
      then show ?thesis using b g by (cases "d' = d") (simp_all add: tryOpen_snd Let_def)
    qed (use b g in \<open>simp_all add: tryOpen_snd Let_def nth_append\<close>)
  qed (use g in \<open>simp add: tryOpen_snd Let_def\<close>)
qed (auto simp: tryOpen_snd wakes_waits)

lemma wakes_accept:
  assumes "i_queue (c_in c d) = p # ps"
  shows "wakes c (c\<lparr>c_in := (c_in c)(d := (c_in c d)\<lparr>i_queue := ps\<rparr>),
    c_objs := (c_objs c)[p := (obj c p)\<lparr>s_accepted := True\<rparr>]\<rparr>)"
proof (rule wakesI)
  let ?c = "c\<lparr>c_in := (c_in c)(d := (c_in c d)\<lparr>i_queue := ps\<rparr>), c_objs := (c_objs c)[p := (obj c p)\<lparr>s_accepted := True\<rparr>]\<rparr>"
  fix w assume b: "blocked w c"
  show "channels w \<inter> c_closed ?c \<noteq> {} \<or> blocked w ?c"
  proof (cases w)
    case (Reader i k ch)
    then show ?thesis using b by (cases "p = i") (simp_all add: Let_def)
  next
    case (Writer i ch ch')
    then show ?thesis using b by (cases "p = i") (simp_all add: Let_def)
  next
    case (Acceptor d' ch)
    then show ?thesis using b assms by auto
  qed (use b in simp)
qed simp

lemma wakes_tryAccept: "wakes c (snd (tryAccept d c))"
  using wakes_trans [OF wakes_accept wakes_complete, of c d] wakes_waits(5) [of c d]
  by (auto simp: tryAccept_snd split: list.split)

lemma wakes_params: "wakes c (handleParametersLocked p c)"
proof (rule wakesI)
  fix w assume b: "blocked w c"
  show "channels w \<inter> c_closed (handleParametersLocked p c) \<noteq> {} \<or> blocked w (handleParametersLocked p c)"
  proof (cases w)
    case (Opener d ch)
    then show ?thesis using b by (cases d) (simp_all add: handleParametersLocked_eq)
  qed (use b in \<open>simp_all add: handleParametersLocked_eq Let_def\<close>)
qed (auto simp: handleParametersLocked_eq)

lemma wakes_max_data: "wakes c (handle_MaxData m c)"
proof (rule wakesI)
  fix w assume b: "blocked w c"
  then show "channels w \<inter> c_closed (handle_MaxData m c) \<noteq> {} \<or> blocked w (handle_MaxData m c)"
    by (cases w) (simp_all add: handle_MaxData_def broadcast_defs Let_def)
qed (auto simp: handle_MaxData_def broadcast_defs)

lemma wakes_max_streams: "wakes c (handle_MaxStreams uni m c)"
proof (rule wakesI)
  fix w assume b: "blocked w c"
  show "channels w \<inter> c_closed (handle_MaxStreams uni m c) \<noteq> {} \<or> blocked w (handle_MaxStreams uni m c)"
  proof (cases w)
    case (Opener d ch)
    then show ?thesis using b
      by (cases "d = (if uni then dirUni else dirBidi)") (simp_all add: handle_MaxStreams_def broadcast_defs upd_defs Let_def)
  qed (use b in \<open>simp_all add: handle_MaxStreams_def broadcast_defs upd_defs Let_def\<close>)
qed (auto simp: handle_MaxStreams_def broadcast_defs upd_defs Let_def)

text \<open>A read takes bytes away from the others that wait for more.\<close>

lemma wakes_read:
  assumes j: "j < length (c_objs c)"
  shows "wakes c (snd (tryRead j k c))"
proof -
  have "wakes c (readLocked j n (upd_obj j (take_unread m) c))" for n m
  proof (rule wakesI)
    let ?c = "readLocked j n (upd_obj j (take_unread m) c)"
    let ?s = "read_obj (stream_window c) n (take_unread m (obj c j))"
    have o: "c_objs ?c = (c_objs c)[j := ?s]" using j by (simp add: readLocked_eq upd_obj_def)
    have f: "c_closed ?c = c_closed c" "c_closeErr ?c = c_closeErr c" "c_sendSignal ?c = c_sendSignal c"
      "c_sendMax ?c = c_sendMax c" "c_sent ?c = c_sent c" "c_out ?c = c_out c" "c_in ?c = c_in c"
      by (simp_all add: readLocked_def upd_obj_def consumeLocked_eq queueLocked_def wakeWriter_def Let_def)
    have l: "length (s_rbuf ?s) - s_roff ?s \<le> length (s_rbuf (obj c j)) - s_roff (obj c j)"
      by (auto simp: read_obj_def take_unread_def Let_def)
    have v: "s_canRecv ?s = s_canRecv (obj c j)" "s_readSignal ?s = s_readSignal (obj c j)"
        "s_recvErr ?s = s_recvErr (obj c j)" "s_finRecv ?s = s_finRecv (obj c j)"
        "s_recvReset ?s = s_recvReset (obj c j)" "s_done ?s = s_done (obj c j)"
        "writer_view ?s = writer_view (obj c j)"
      by (simp_all add: read_obj_def take_unread_def writer_view_def Let_def)
    show "c_closed c \<subseteq> c_closed ?c" using f by simp
    fix w assume b: "blocked w c"
    show "channels w \<inter> c_closed ?c \<noteq> {} \<or> blocked w ?c"
    proof (cases w)
      case (Reader i k ch)
      then show ?thesis using b o f l v by (cases "j = i") (simp_all add: Let_def)
    next
      case (Writer i ch ch')
      then show ?thesis using b o f v(7) by (cases "j = i") (simp_all add: Let_def writer_view_def)
    qed (use b f in simp_all)
  qed
  then show ?thesis
    using wakes_trans [OF _ wakes_complete] wakes_waits(1) [of c j]
    by (auto simp: tryRead_def Let_def split: option.splits prod.splits)
qed

text \<open>A chunk is granted only where there is credit, so it takes none from the writers that have none.\<close>

lemma wakes_reserve: "wakes c (snd (reserve j n c))"
proof (cases "sendErrLocked j c")
  case None
  let ?c = "snd (reserve j n c)"
  define g where "g = unat (min (min (of_nat n) (of_nat maxStreamData)) (sendCreditLocked j c))"
  have c: "?c = c\<lparr>c_objs := (c_objs c)[j := (obj c j)\<lparr>s_sendOffset := s_sendOffset (obj c j) + of_nat g\<rparr>],
      c_sent := c_sent c + of_nat g\<rparr>"
    using None by (simp add: reserve_def upd_obj_def g_def Let_def)
  have g0: "(of_nat g :: u64) = 0" if "s_sendMax (obj c j) \<le> s_sendOffset (obj c j) \<or> c_sendMax c \<le> c_sent c"
    using that by (simp add: g_def sendCreditLocked_def min_def)
  show ?thesis
  proof (rule wakesI)
    fix w assume b: "blocked w c"
    show "channels w \<inter> c_closed ?c \<noteq> {} \<or> blocked w ?c"
    proof (cases w)
      case (Reader i k ch)
      then show ?thesis using b unfolding c by (cases "j = i") (simp_all add: Let_def)
    next
      case (Writer i ch ch')
      then show ?thesis using b g0 unfolding c by (cases "j = i") (auto simp: Let_def)
    qed (use b in \<open>simp_all add: c\<close>)
  qed (simp add: c)
qed (simp add: reserve_def)

subsection \<open>The end of the connection\<close>

lemma wake_streams_closed:
  defines "w \<equiv> fold (\<lambda>i c. write_broadcast i (read_broadcast i c))"
  shows "c_closed c \<subseteq> c_closed (w is c)"
    and "i \<in> set is \<Longrightarrow> i < length (c_objs c) \<Longrightarrow> set_option (s_readSignal (obj c i)) \<subseteq> c_closed (w is c)"
proof (induction "is" arbitrary: c)
  case (Cons j "is")
  {
    case 1
    show ?case using Cons(1) [of "write_broadcast j (read_broadcast j c)"]
      by (auto simp: w_def broadcast_defs upd_obj_def)
  next
    case 2
    let ?c = "write_broadcast j (read_broadcast j c)"
    have len: "i < length (c_objs ?c)" using 2 by (simp add: broadcast_defs upd_obj_def)
    show ?case
    proof (cases "j = i")
      case True
      then have "set_option (s_readSignal (obj c i)) \<subseteq> c_closed ?c" by (auto simp: broadcast_defs upd_obj_def)
      then show ?thesis using Cons(1) [of ?c] by (auto simp: w_def)
    next
      case False
      then have "s_readSignal (obj ?c i) = s_readSignal (obj c i)" by (simp add: broadcast_defs upd_obj_def)
      then show ?thesis using Cons(2) [of ?c] 2 False len by (simp add: w_def)
    qed
  }
qed (simp_all add: w_def)

lemma wakes_terminate:
  assumes ok: "table_ok c"
  shows "wakes c (snd (terminate err c))"
proof (cases "c_closeErr c")
  case None
  define c0 where "c0 = in_broadcast dirUni (out_broadcast dirUni (in_broadcast dirBidi (out_broadcast dirBidi
    (send_broadcast (c\<lparr>c_closeErr := Some err, c_cause := (if c_cause c = None then Some err else c_cause c),
       c_handshake := c_handshake c + (if c_ready c then 0 else 1)\<rparr>)))))"
  let ?c = "snd (terminate err c)"
  have c': "?c = (fold (\<lambda>i c. write_broadcast i (read_broadcast i c)) (open_ptrs c0) c0)\<lparr>c_streams := Map.empty\<rparr>"
    using None by (simp add: terminate_def Let_def c0_def cong: if_cong)
  have o: "c_objs c0 = c_objs c" "c_streams c0 = c_streams c" by (simp_all add: c0_def broadcast_defs upd_defs)
  have c0: "c_closed c \<subseteq> c_closed c0" "set_option (c_sendSignal c) \<subseteq> c_closed c0"
    "set_option (o_signal (c_out c d)) \<subseteq> c_closed c0" "set_option (i_signal (c_in c d)) \<subseteq> c_closed c0" for d
    by (cases d; auto simp: c0_def broadcast_defs upd_defs)+
  have sub: "c_closed c0 \<subseteq> c_closed ?c" unfolding c' using wake_streams_closed(1) by simp
  show ?thesis
  proof (rule wakesI)
    show "c_closed c \<subseteq> c_closed ?c" using c0(1) sub by blast
    fix w assume b: "blocked w c"
    show "channels w \<inter> c_closed ?c \<noteq> {} \<or> blocked w ?c"
    proof (cases w)
      case (Reader i k ch)
      then have i: "i < length (c_objs c)" "s_readSignal (obj c i) = Some ch" "\<not> s_done (obj c i)"
        using b by (simp_all add: Let_def)
      have "p < length (tb_objs (table_of c)) \<Longrightarrow> \<not> e_done (tb_objs (table_of c) ! p) \<Longrightarrow>
          tb_streams (table_of c) (e_id (tb_objs (table_of c) ! p)) = Some p" for p
        using ok None unfolding table_ok_def table_inv_def by (simp add: table_of_def)
      from this [of i] have "c_streams c (s_id (obj c i)) = Some i"
        using i by (simp add: table_of_def entry_of_def)
      then have "i \<in> set (open_ptrs c0)" using i(1) by (simp add: open_ptrs_def o)
      from wake_streams_closed(2) [OF this, of c0] have "ch \<in> c_closed ?c"
        using i by (simp add: o c')
      then show ?thesis using Reader by simp
    next
      case (Writer i ch ch')
      then show ?thesis using b c0(2) sub by auto
    next
      case (Opener d ch)
      then show ?thesis using b c0(3) [of d] sub by auto
    next
      case (Acceptor d ch)
      then show ?thesis using b c0(4) [of d] sub by auto
    qed
  qed
qed (simp add: terminate_def)

subsection \<open>Every operation\<close>

lemma views_objs [simp]:
  "writer_view (data_obj grow d fin s) = writer_view s" "writer_view (reset_obj code n s) = writer_view s"
  "writer_view (cancel_obj code s) = writer_view s"
  "reader_view (finish_obj s) = reader_view s" "reader_view (stop_obj code r s) = reader_view s"
  "reader_view (s\<lparr>s_sendMax := m\<rparr>) = reader_view s"
  by (simp_all add: writer_view_def reader_view_def data_obj_def reset_obj_def cancel_obj_def Let_def)

lemma wakes_others:
  "wakes c (snd (handlePingLocked now response n c))" "wakes c (snd (handleDatagramLocked dat c))"
  "wakes c (setPriority j urg inc c)" "wakes c (snd (requestPing now c))"
  "wakes c (snd (writeRecordLocked tw now buf c))" "wakes c (snd (takeControl now c))"
  "wakes c (c\<lparr>c_datagrams := ds\<rparr>)" "wakes c (c\<lparr>c_tr := tr\<rparr>)" "wakes c (c\<lparr>c_controlWake := b\<rparr>)"
  "wakes c (touch now (c\<lparr>c_bytesReceived := nb, c_recordsReceived := nr\<rparr>))"
proof -
  show "wakes c (snd (handlePingLocked now response n c))"
    by (rule wakes_same; simp add: handlePingLocked_def wakeWriter_def)
  show "wakes c (snd (handleDatagramLocked dat c))"
    by (rule wakes_same; simp add: handleDatagramLocked_def)
  show "wakes c (setPriority j urg inc c)"
    by (rule wakes_same; simp add: setPriority_def upd_obj_def map_view_update reader_view_def writer_view_def)
  show "wakes c (snd (requestPing now c))"
    by (rule wakes_same; simp add: requestPing_def wakeWriter_def)
  show "wakes c (snd (writeRecordLocked tw now buf c))"
    by (rule wakes_same; simp add: writeRecordLocked_def touch_def Let_def split: sum.split)
  show "wakes c (snd (takeControl now c))"
    by (rule wakes_same; simp add: takeControl_def upd_in_def Let_def)
  show "wakes c (c\<lparr>c_datagrams := ds\<rparr>)" "wakes c (c\<lparr>c_tr := tr\<rparr>)" "wakes c (c\<lparr>c_controlWake := b\<rparr>)"
    "wakes c (touch now (c\<lparr>c_bytesReceived := nb, c_recordsReceived := nr\<rparr>))"
    by (rule wakes_same; simp add: touch_def)+
qed

lemma wakes_deadlines:
  assumes "j < length (c_objs c)"
  shows "wakes c (setReadDeadline j t c)" "wakes c (setWriteDeadline j t c)"
proof -
  have "setReadDeadline j t c = recv_update j ((obj c j)\<lparr>s_readDeadline := t, s_readSignal := None\<rparr>) 0 c"
    "setWriteDeadline j t c = send_update j ((obj c j)\<lparr>s_writeDeadline := t\<rparr>) c"
    by (rule Conn.equality; use assms in \<open>simp add: setReadDeadline_def setWriteDeadline_def broadcast_defs upd_obj_def
      recv_update_def send_update_def\<close>)+
  then show "wakes c (setReadDeadline j t c)" "wakes c (setWriteDeadline j t c)"
    using assms by (simp_all add: wakes_recv_update wakes_send_update writer_view_def reader_view_def)
qed

lemma wakes_then:
  "wakes c c' \<Longrightarrow> wakes c (completeLocked j c')" "wakes c c' \<Longrightarrow> wakes c (consumeLocked n c')"
  "wakes c c' \<Longrightarrow> wakes c (queueLocked f c')"
  using wakes_trans wakes_complete wakes_writer by blast+

lemma conn_op_wakes: "conn_op grow c c' \<Longrightarrow> table_ok c \<Longrightarrow> wakes c c'"
proof (induction rule: conn_op.induct)
  case (op_data c i dat sid off fin)
  then have "wakes c (recv_update i (data_obj grow dat fin (obj c i)) (u64_len dat) c)"
    by (simp add: receiver_def wakes_recv_update)
  then show ?case using op_data by (simp add: receiver_def receive_data_snd wakes_then)
next
  case (op_reset c i sid code n)
  then have "wakes c (recv_update i (reset_obj code n (obj c i)) m c)" for m
    by (simp add: receiver_def wakes_recv_update)
  then show ?case using op_reset by (simp add: receiver_def receive_reset_snd wakes_then)
next
  case (op_cancelRead i c code)
  then have "wakes c (recv_update i (cancel_obj code (obj c i)) 0 c)"
    by (simp add: receiver_def wakes_recv_update)
  then show ?case using op_cancelRead by (simp add: receiver_def cancelRead_eq wakes_then)
next
  case (op_stop c i code remote)
  then have "wakes c (send_update i (stop_obj code remote (obj c i)) c)"
    by (simp add: sender_def wakes_send_update)
  then show ?case using op_stop by (simp add: sender_def resetSendLocked_eq wakes_then)
next
  case (op_finish i c)
  then have "wakes c (send_update i (finish_obj (obj c i)) c)"
    by (simp add: sender_def wakes_send_update)
  then show ?case using op_finish by (simp add: sender_def finish_snd wakes_then)
next
  case (op_max_stream_data c i m)
  then show ?case by (simp add: sender_def max_stream_data_eq wakes_send_update)
next
  case (op_read i c k)
  then show ?case by (simp add: receiver_def wakes_read)
next
  case (op_peek i c k)
  then show ?case using wakes_waits(1) [of c i]
    by (auto simp: tryPeek_def Let_def split: option.splits prod.splits)
next
  case (op_trySend i c now)
  then show ?case using wakes_trans [OF wakes_waits(2) wakes_waits(3), of c i]
    by (auto simp: trySend_def Let_def split: option.splits prod.splits)
qed (simp_all add: wakes_open_next wakes_max_data wakes_max_streams wakes_params wakes_others wakes_deadlines
    wakes_reserve wakes_tryOpen wakes_tryAccept wakes_terminate)

lemma conn_run_wakes:
  assumes "conn_run grow s t" "table_ok (snd s)" "waiting x (snd s)"
  shows "waiting x (snd t)"
proof -
  have "waiting x (snd t')" if "conn_step grow s' t'" "table_ok (snd s')" "waiting x (snd s')" for s' t'
    using that
  proof cases
    case (step_op c c' w)
    then show ?thesis using that conn_op_wakes unfolding wakes_def by simp
  next
    case (step_wake c)
    then show ?thesis using that wakes_others(9) unfolding wakes_def by simp
  next
    case (step_take c now)
    then show ?thesis using that wakes_others(6) unfolding wakes_def by simp
  qed
  then show ?thesis using table.stable [OF assms(1), of "\<lambda>s. waiting x (snd s)"] assms(2,3) by blast
qed

section \<open>Properties\<close>

lemma stays_blocked:
  assumes "conn_start q s" "conn_run grow s (w, c)" "conn_op grow c c1" "blocked x c1"
    "conn_run grow (w, c1) (w', c2)" "channels x \<inter> c_closed c2 = {}"
  shows "blocked x c2"
proof -
  have "table_ok c1" using table.reachable [OF assms(1,2)] conn_op_table_ok [OF assms(3)] by simp
  then have "waiting x c2" using conn_run_wakes [OF assms(5), of x] assms(4) by (simp add: waiting_def)
  then show ?thesis using assms(6) by (simp add: waiting_def)
qed



text \<open>C27. The calls that wait to open or to accept a stream are not missed: as long as the channel is not
  closed, the peer allows no further stream, or the accept queue is empty, and the connection has not
  ended.\<close>

theorem open_accept_not_missed:
  assumes "conn_start q s" "conn_run grow s (w, c)"
    and "tryOpen d c = (StreamWait ch, c1) \<and> x = Opener d ch \<or> tryAccept d c = (StreamWait ch, c1) \<and> x = Acceptor d ch"
    and "conn_run grow (w, c1) (w', c2)" "ch \<notin> c_closed c2"
  shows "(x = Opener d ch \<longrightarrow> (\<exists>c3. tryOpen d c2 = (StreamWait ch, c3))) \<and>
    (x = Acceptor d ch \<longrightarrow> (\<exists>c3. tryAccept d c2 = (StreamWait ch, c3)))"
proof -
  have b1: "blocked x c1"
    using assms(3)
    by (auto simp: tryOpen_def tryAccept_def wait_defs upd_defs Let_def split: option.splits if_splits prod.splits list.splits)
  have op: "conn_op grow c c1" using assms(3) op_open [of grow c d] op_accept [of grow c d] by auto
  have "channels x = {ch}" using assms(3) by auto
  then have "blocked x c2" using stays_blocked [OF assms(1,2) op b1 assms(4)] assms(5) by simp
  then show ?thesis
    by (auto simp: tryOpen_def tryAccept_def wait_defs upd_defs Let_def split: prod.splits)
qed

text \<open>The example connection, with a peer that allows no streams and no data.\<close>

definition example_poor :: Conn where
  "example_poor = open_next dirBidi (handleParametersLocked zero_Parameters example_start)"

lemma example_poor_run: "conn_run grow (False, example_start) (False, example_poor)"
proof -
  have "conn_run grow (False, example_start) (False, example_start)" by simp
  then have "conn_run grow (False, example_start) (False, handleParametersLocked zero_Parameters example_start)"
    by (rule conn_run_op, intro op_params) (simp_all add: example_start_fields zero_Parameters_def)
  then show ?thesis
    unfolding example_poor_def
    by (rule conn_run_op, intro op_open_next [where sid = 0])
      (simp_all add: handleParametersLocked_eq example_start_fields)
qed

lemma example_poor_fields:
  "c_closeErr example_poor = None" "c_sendMax example_poor = 0" "c_closed example_poor = {}"
  "c_sendSignal example_poor = None" "c_chan example_poor = 0"
  "o_max (c_out example_poor d) = 0" "o_signal (c_out example_poor d) = None"
  "i_queue (c_in example_poor dirUni) = []" "i_signal (c_in example_poor d) = None"
  by (cases d; simp add: example_poor_def open_next_eq handleParametersLocked_eq example_start_fields Let_def
      zero_Parameters_def; simp add: example_start_def newConn_def new_outgoing_def new_incoming_def)+

lemma example_poor_obj:
  "c_objs example_poor = [zero_stream\<lparr>s_canRecv := True, s_canSend := True,
     s_recvMax := cf_InitialStreamReceiveWindow (normalized rfc9000 None),
     s_urgency := defaultUrgency, s_incremental := True\<rparr>]"
  by (simp add: example_poor_def open_next_eq handleParametersLocked_eq example_start_fields Let_def
      streamID_of_def) (simp add: new_stream_def zero_stream_def streamDir_def initiatedLocally_def
      example_start_fields zero_Parameters_def Let_def)



theorem open_accept_not_missed_witness:
  "\<exists>c1 c3. tryOpen dirBidi example_poor = (StreamWait 0, c1) \<and> tryOpen dirBidi c1 = (StreamWait 0, c3)"
proof -
  obtain c1 where t: "tryOpen dirBidi example_poor = (StreamWait 0, c1)" "0 \<notin> c_closed c1"
    by (simp add: tryOpen_def example_poor_fields wait_defs upd_out_def)
  then show ?thesis
    using open_accept_not_missed [OF conn_start_example example_poor_run _ rtranclp.rtrancl_refl t(2),
      of dirBidi "Opener dirBidi 0"] by blast
qed

section \<open>The writer of control frames\<close>

text \<open>What \<open>takeControl\<close> would send.\<close>

definition pending :: "Conn \<Rightarrow> bool" where
  "pending c \<longleftrightarrow> c_control c \<noteq> [] \<or> c_maxDataPending c \<or> i_pending (c_in c dirBidi) \<or> i_pending (c_in c dirUni) \<or>
     c_pongPending c \<or> c_pingPending c"

definition token_kept :: "Conn \<Rightarrow> Conn \<Rightarrow> bool" where
  "token_kept c c' \<longleftrightarrow> (c_controlWake c \<longrightarrow> c_controlWake c') \<and> (pending c' \<longrightarrow> pending c \<or> c_controlWake c')"

lemma token_kept_refl [simp]: "token_kept c c"
  by (simp add: token_kept_def)

lemma token_kept_trans: "token_kept a b \<Longrightarrow> token_kept b c \<Longrightarrow> token_kept a c"
  by (auto simp: token_kept_def)

lemma token_kept_same:
  "c_control c' = c_control c \<Longrightarrow> c_maxDataPending c' = c_maxDataPending c \<Longrightarrow>
   (\<And>d. i_pending (c_in c' d) = i_pending (c_in c d)) \<Longrightarrow> c_pongPending c' = c_pongPending c \<Longrightarrow>
   c_pingPending c' = c_pingPending c \<Longrightarrow> c_controlWake c' = c_controlWake c \<Longrightarrow> token_kept c c'"
  by (simp add: token_kept_def pending_def)

lemma token_then:
  "token_kept c c' \<Longrightarrow> token_kept c (completeLocked i c')" "token_kept c c' \<Longrightarrow> token_kept c (consumeLocked n c')"
  "token_kept c c' \<Longrightarrow> token_kept c (queueLocked f c')"
proof -
  have "token_kept c' (completeLocked i c')"
    by (auto simp: token_kept_def pending_def completeLocked_eq frees_def)
  moreover have "token_kept c' (consumeLocked n c')" by (auto simp: token_kept_def pending_def consumeLocked_eq)
  moreover have "token_kept c' (queueLocked f c')" by (simp add: token_kept_def queueLocked_def wakeWriter_def)
  ultimately show "token_kept c c' \<Longrightarrow> token_kept c (completeLocked i c')"
    "token_kept c c' \<Longrightarrow> token_kept c (consumeLocked n c')" "token_kept c c' \<Longrightarrow> token_kept c (queueLocked f c')"
    using token_kept_trans by blast+
qed

lemma token_updates:
  "token_kept c (recv_update i s n c)" "token_kept c (send_update i s c)"
  by (rule token_kept_same; simp add: recv_update_def send_update_def)+

lemma token_waits:
  "token_kept c (snd (read_wait i c))" "token_kept c (snd (write_wait i c))" "token_kept c (snd (send_wait c))"
  "token_kept c (snd (out_wait d c))" "token_kept c (snd (in_wait d c))"
  by (rule token_kept_same; simp add: wait_defs upd_defs)+

lemma token_terminate: "token_kept c (snd (terminate err c))"
proof (cases "terminate err c")
  case (Pair b c')
  show ?thesis
  proof (cases b)
    case True
    then have t0: "terminate err c = (True, c')" using Pair by simp
    show ?thesis unfolding Pair snd_conv by (rule token_kept_same; rule terminate_True [OF t0])
  next
    case False
    then show ?thesis using terminate_False [of err c c'] Pair by simp
  qed
qed

lemma token_read: "i < length (c_objs c) \<Longrightarrow> token_kept c (snd (tryRead i k c))"
proof -
  have "token_kept c (readLocked i n (upd_obj i (take_unread m) c))" for n m
    by (auto simp: token_kept_def pending_def readLocked_def upd_obj_def consumeLocked_eq queueLocked_def
        wakeWriter_def Let_def)
  then show ?thesis
    using token_waits(1) [of c i]
    by (auto simp: tryRead_def Let_def split: option.splits prod.splits intro: token_then)
qed

lemma conn_op_token: "conn_op grow c c' \<Longrightarrow> token_kept c c'"
proof (induction rule: conn_op.induct)
  case (op_data c i dat sid off fin)
  then show ?case by (simp add: receiver_def receive_data_snd token_then token_updates)
next
  case (op_reset c i sid code n)
  then show ?case by (simp add: receiver_def receive_reset_snd token_then token_updates)
next
  case (op_cancelRead i c code)
  then show ?case by (simp add: receiver_def cancelRead_eq token_then token_updates)
next
  case (op_stop c i code remote)
  then show ?case by (simp add: sender_def resetSendLocked_eq token_then token_updates)
next
  case (op_finish i c)
  then show ?case by (simp add: sender_def finish_snd token_then token_updates)
next
  case (op_max_stream_data c i m)
  then show ?case by (simp add: sender_def max_stream_data_eq token_updates)
next
  case (op_read i c k)
  then show ?case by (simp add: receiver_def token_read)
next
  case (op_peek i c k)
  then show ?case using token_waits(1) [of c i]
    by (auto simp: tryPeek_def Let_def split: option.splits prod.splits)
next
  case (op_trySend i c now)
  then show ?case using token_kept_trans [OF token_waits(2) token_waits(3), of c i]
    by (auto simp: trySend_def Let_def split: option.splits prod.splits)
next
  case (op_open c d)
  have "token_kept c (c\<lparr>c_objs := xs, c_streams := m, c_out := f\<rparr>)" for xs m f by (rule token_kept_same) simp_all
  then show ?case by (simp add: tryOpen_snd token_waits Let_def)
next
  case (op_accept c d)
  have "token_kept c (c\<lparr>c_in := (c_in c)(d := (c_in c d)\<lparr>i_queue := ps\<rparr>), c_objs := xs\<rparr>)" for ps xs
    by (rule token_kept_same) simp_all
  then show ?case by (auto simp: tryAccept_snd token_waits split: list.split intro: token_then)
next
  case (op_open_next c d sid)
  show ?case by (rule token_kept_same) (simp_all add: open_next_eq Let_def)
next
  case (op_terminate c err)
  show ?case by (rule token_terminate)
next
  case (op_reserve i c n)
  show ?case by (rule token_kept_same) (simp_all add: reserve_def upd_obj_def Let_def split: option.split)
qed (auto simp: token_kept_def pending_def handle_MaxData_def handle_MaxStreams_def handleParametersLocked_eq
    handlePingLocked_def handleDatagramLocked_def requestPing_def writeRecordLocked_def setReadDeadline_def
    setWriteDeadline_def setPriority_def broadcast_defs upd_defs wakeWriter_def touch_def Let_def split: sum.split)

definition token_ok :: "bool \<times> Conn \<Rightarrow> bool" where
  "token_ok s \<longleftrightarrow> (case s of (w, c) \<Rightarrow> c_closeErr c = None \<and> pending c \<longrightarrow> c_controlWake c \<or> w)"

lemma takeControl_pending:
  "c_closeErr c = None \<Longrightarrow> \<not> pending (snd (takeControl now c))"
  "c_closeErr (snd (takeControl now c)) = c_closeErr c"
  by (simp_all add: takeControl_def pending_def upd_in_def Let_def)

interpretation token: invariant "conn_start q" "conn_step grow" token_ok for q grow
proof
  fix s t :: "bool \<times> Conn"
  show "conn_start q s \<Longrightarrow> token_ok s"
    by (auto simp: conn_start_def newConn_def token_ok_def pending_def new_incoming_def)
  assume ok: "token_ok s" and "conn_step grow s t"
  from this(2) show "token_ok t"
  proof cases
    case (step_op c c' w)
    have "c_closeErr c' = None \<Longrightarrow> c_closeErr c = None" using conn_op_closed [OF step_op(3)] by fastforce
    then show ?thesis using conn_op_token [OF step_op(3)] ok step_op by (auto simp: token_kept_def token_ok_def)
  next
    case (step_wake c)
    then show ?thesis by (simp add: token_ok_def)
  next
    case (step_take c now)
    then show ?thesis using takeControl_pending(1) [of c now] takeControl_pending(2) [of now c] by (auto simp: token_ok_def)
  qed
qed

text \<open>C28. No control frame is forgotten: in every reachable state of an open connection in which a control
  frame, a limit to declare, a pong or a ping waits to be sent, the token that wakes the writer is there or
  the writer is awake and about to take it; and what it takes, in order, is all of that.\<close>

theorem control_not_missed:
  assumes "conn_start q s" "conn_run grow s (w, c)" "c_closeErr c = None"
  shows "(pending c \<longrightarrow> c_controlWake c \<or> w) \<and> (fst (takeControl now c) = [] \<longleftrightarrow> \<not> pending c) \<and>
    \<not> pending (snd (takeControl now c))"
proof (intro conjI)
  show "pending c \<longrightarrow> c_controlWake c \<or> w" using token.reachable [OF assms(1,2)] assms(3) by (simp add: token_ok_def)
  show "fst (takeControl now c) = [] \<longleftrightarrow> \<not> pending c"
    using assms(3) by (simp add: takeControl_def take_flag_def pending_def Let_def)
  show "\<not> pending (snd (takeControl now c))" using assms(3) by (rule takeControl_pending)
qed

theorem control_not_missed_witness:
  "fst (takeControl 0 example_poor) = [] \<longleftrightarrow> \<not> pending example_poor"
  using control_not_missed [OF conn_start_example example_poor_run example_poor_fields(1)] by blast

end
