(* ===== verification/Wire_Correct.thy ===== *)
theory Wire_Correct
  imports Wire_Frames Qmux_Config
begin

text \<open>The properties of the wire format and of the configuration: \<open>Append\<close> and \<open>Parse\<close> are inverse,
  \<open>Parse\<close> returns on every input and lets through only what the protocol allows, \<open>Append\<close> panics
  exactly on values that are no varints, and \<open>normalized\<close> keeps its promises. They are stated for
  every codec that satisfies the contract of the package \<open>quicvarint\<close>; the witnesses use the one of
  RFC 9000.\<close>

section \<open>Frames\<close>

text \<open>C6. Round trip of frames: what \<open>Append\<close> writes, followed by anything else in the record, \<open>Parse\<close>
  reads back as the same frame (with the fields that are not on the wire at their defaults) and
  leaves the rest of the record.\<close>

theorem Parse_Append:
  assumes "quicvarint q" "frame_valid q f" "length rest < 2 ^ 63"
  shows "\<exists>enc. frame_Append q f [] = Some enc \<and>
    Parse q (enc @ rest) = Some (Inr (Some (Frame (frame_received f)), rest))"
  using quicvarint.frame_roundtrip [OF assms] .

theorem Parse_Append_witness:
  "\<exists>enc. frame_Append rfc9000 (Stream 4 70000 [1, 2, 3] True) [] = Some enc \<and>
    Parse rfc9000 (enc @ [0x31, 0]) = Some (Inr (Some (Frame (Stream 4 70000 [1, 2, 3] True)), [0x31, 0]))"
  using Parse_Append [OF rfc.quicvarint_axioms, of "Stream 4 70000 [1, 2, 3] True" "[0x31, 0]"]
  by (simp add: rfc.fits_iff)

text \<open>C9. \<open>Parse\<close> is total and sound: it returns on every input; a frame it returns is one the
  protocol allows, with fields that are varints, and the remainder is shorter than the input; with no
  frame nothing is left; an error is of type FRAME\_ENCODING\_ERROR or TRANSPORT\_PARAMETER\_ERROR.\<close>

theorem Parse_total:
  assumes "quicvarint q"
  shows "\<exists>res. Parse q b = Some res \<and>
    (case res of
       Inl e \<Rightarrow> Code e = FrameEncodingError \<or> Code e = TransportParameterError
     | Inr (None, rest) \<Rightarrow> rest = []
     | Inr (Some f, rest) \<Rightarrow> length rest < length b \<and> parsed_ok q (length b) f)"
proof -
  obtain res where res: "Parse q b = Some res" using quicvarint.Parse_returns [OF assms] by blast
  consider e where "res = Inl e" | rest where "res = Inr (None, rest)"
    | f rest where "res = Inr (Some f, rest)"
    by (metis obj_sumE option.exhaust prod.exhaust)
  then show ?thesis
  proof cases
    case 1
    then show ?thesis using res quicvarint.Parse_code [OF assms] by auto
  next
    case (2 rest)
    then have "rest = []"
      using res by (auto simp: Parse_def Let_def split: prod.splits option.splits sum.splits if_splits)
    then show ?thesis using res 2 by simp
  next
    case (3 f rest)
    then show ?thesis
      using res quicvarint.Parse_consumes [OF assms] quicvarint.Parse_ok [OF assms] by simp
  qed
qed

theorem Parse_total_witness: 
  "\<exists>res. Parse rfc9000 [0, 0x10, 0x40, 0x80, 0x01] = Some res \<and>
    (case res of
       Inl e \<Rightarrow> Code e = FrameEncodingError \<or> Code e = TransportParameterError
     | Inr (None, rest) \<Rightarrow> rest = []
     | Inr (Some f, rest) \<Rightarrow> length rest < length ([0, 0x10, 0x40, 0x80, 0x01] :: bytes) \<and>
         parsed_ok rfc9000 (length ([0, 0x10, 0x40, 0x80, 0x01] :: bytes)) f)"
  by (rule Parse_total [OF rfc.quicvarint_axioms])

text \<open>\<open>Append\<close> panics exactly when a field of the frame is above \<open>quicvarint.Max\<close>, \<open>2 ^ 62 - 1\<close>, or
  its payload has a length above it.\<close>

lemma Append_panics:
  assumes "quicvarint q" "frame_sized f"
  shows "frame_Append q f b = None \<longleftrightarrow> \<not> frame_fits q f"
  using quicvarint.frame_Append_Some_iff [OF assms, of b] by auto

text \<open>The DATAGRAM frame has the size that \<open>Datagram.Len\<close> computes.\<close>

lemma Datagram_Len_correct:
  assumes "quicvarint q" "length d < 2 ^ 62" "frame_Append q (Datagram d) b = Some b'"
  shows "length b' = length b + Datagram_Len q d"
proof -
  have "u64_len d \<le> vmax q" using assms(2) by (simp add: quicvarint.u64_len_fits [OF assms(1)])
  then show ?thesis
    using assms(3) quicvarint.append_SomeD [OF assms(1)]
    by (auto simp: Datagram_Append_def put_varint_def Datagram_Len_def Option.bind_eq_Some_conv)
qed

section \<open>Transport parameters\<close>

text \<open>C11. \<open>parseParameters\<close> is total and sound: it returns on every input, either an error of type
  TRANSPORT\_PARAMETER\_ERROR or parameters with every value a varint, stream counts of at most
  \<open>2 ^ 60\<close> and a record size of at least 16382.\<close>

theorem parseParameters_total:
  assumes "quicvarint q"
  shows "\<exists>res. parseParameters q b = Some res \<and>
    (case res of Inl e \<Rightarrow> Code e = TransportParameterError | Inr p \<Rightarrow> params_valid q p)"
proof -
  obtain res where res: "parseParameters q b = Some res"
    using quicvarint.parseParameters_returns [OF assms] by blast
  then show ?thesis
    using quicvarint.parseParameters_valid [OF assms] quicvarint.parseParameters_code [OF assms]
    by (cases res) simp_all
qed

theorem parseParameters_total_witness:
  "\<exists>res. parseParameters rfc9000 [1, 1, 30, 4, 2, 0x40, 0x64] = Some res \<and>
    (case res of Inl e \<Rightarrow> Code e = TransportParameterError | Inr p \<Rightarrow> params_valid rfc9000 p)"
  by (rule parseParameters_total [OF rfc.quicvarint_axioms])

text \<open>C10. Round trip of transport parameters: \<open>parseParameters\<close> reads from the encoding of valid
  parameters the same parameters, with the default for a record size that was not sent, and the
  encoding takes at most 216 bytes.\<close>

theorem parameters_roundtrip:
  assumes "quicvarint q" "params_fit q p" "params_valid q (params_received p)"
  shows "\<exists>enc. params_append q p b = Some (b @ enc) \<and> length enc \<le> 216 \<and>
    parseParameters q enc = Some (Inr (params_received p))"
  using quicvarint.params_roundtrip [OF assms] by blast

theorem parameters_roundtrip_witness:
  "\<exists>enc. params_append rfc9000 (zero_Parameters\<lparr>InitialMaxData := 1000, InitialMaxStreamsUni := 3\<rparr>) [] = Some enc \<and>
    parseParameters rfc9000 enc = Some (Inr (zero_Parameters\<lparr>InitialMaxData := 1000,
      InitialMaxStreamsUni := 3, MaxRecordSize := 16382\<rparr>))"
  using parameters_roundtrip [OF rfc.quicvarint_axioms,
      of "zero_Parameters\<lparr>InitialMaxData := 1000, InitialMaxStreamsUni := 3\<rparr>" "[]"]
  by (auto simp: params_fit_def params_valid_def params_received_def zero_Parameters_def rfc.vmax_nat
      maxStreams_def DefaultMaxRecordSize_def push_bit_eq_mult word_le_nat_alt)

section \<open>Configuration\<close>

text \<open>C12. \<open>normalized\<close> keeps its promise: for any configuration (with Go's int64 fields) every limit is
  within what the protocol allows. Stream limits are between 0 and \<open>2 ^ 60\<close>, windows are positive
  varints, the record size is a varint of at least 16382, the keep-alive period is at most half the
  idle timeout, and the datagram size is positive exactly when datagrams are enabled and fits a record.\<close>

theorem normalized_ok:
  assumes "quicvarint q" "\<And>c'. c = Some c' \<Longrightarrow> config_int64 c'"
  shows "config_ok q (normalized q c)"
  using quicvarint.normalized_config_ok [OF assms] by blast

theorem normalized_ok_witness:
  "config_ok rfc9000 (normalized rfc9000 (Some (zero_Config\<lparr>cf_MaxIncomingStreams := -1,
     cf_KeepAlivePeriod := 2 ^ 62, cf_MaxRecordSize := 2 ^ 63\<rparr>)))"
  by (rule normalized_ok [OF rfc.quicvarint_axioms]) (auto simp: config_int64_def zero_Config_def)

end
