(* ===== verification/Conn_Runs.thy ===== *)
theory Conn_Runs
  imports Wake_Ups Wire_Correct
begin

text \<open>The operations of the program are runs of the steps of \<open>Conn_Steps\<close>: the handlers of all frames
  and records, the rounds of the goroutines and the calls of the application. So what is shown of the
  reachable states holds whenever the program holds no lock.\<close>

section \<open>Frames\<close>

abbreviation ops :: "(nat \<Rightarrow> nat \<Rightarrow> nat) \<Rightarrow> Conn \<Rightarrow> Conn \<Rightarrow> bool" where
  "ops grow \<equiv> (conn_op grow)\<^sup>*\<^sup>*"

lemma ops_op: "conn_op grow c c' \<Longrightarrow> ops grow c c'"
  by simp

lemma ops_table_ok: "ops grow c c' \<Longrightarrow> table_ok c \<Longrightarrow> table_ok c'"
  by (induction rule: rtranclp_induct) (auto intro: conn_op_table_ok)

lemma open_incoming_ops:
  "c_closeErr c = None \<Longrightarrow> c_ready c \<Longrightarrow> drop_bit 2 sid < i_max (c_in c d) \<Longrightarrow> ops grow c (open_incoming d sid c)"
proof (induction d sid c rule: open_incoming.induct)
  case (1 d sid c)
  show ?case
  proof (cases "i_next (c_in c d) \<le> drop_bit 2 sid")
    case True
    have "conn_op grow c (open_next d c)" using 1(2-4) True by (intro op_open_next)
    also have "ops grow (open_next d c) (open_incoming d sid (open_next d c))"
      using 1 True by (simp add: open_next_fields)
    finally show ?thesis using True by (subst open_incoming.simps) simp
  next
    case False
    then show ?thesis by (subst open_incoming.simps) simp
  qed
qed

lemma streamLocked_ops:
  "c_closeErr c = None \<Longrightarrow> c_ready c \<Longrightarrow> streamLocked sid recv c = (res, c') \<Longrightarrow> ops grow c c'"
  using open_incoming_ops [of c sid "streamDir sid" grow]
  by (auto simp: streamLocked_def Let_def not_le split: if_splits)

text \<open>A frame that names a stream: the stream is found, and the rest is one step.\<close>

lemma stream_frame_ops:
  assumes ok: "table_ok c" and live: "c_closeErr c = None" "c_ready c"
    and res: "streamLocked sid recv c = (res, c1)"
    and step: "\<And>i. res = Inr (Some i) \<Longrightarrow> c_closeErr c1 = None \<Longrightarrow>
      (if recv then receiver i c1 else sender i c1) \<Longrightarrow> ops grow c1 (f i c1)"
  shows "ops grow c (case res of Inl e \<Rightarrow> c1 | Inr None \<Rightarrow> c1 | Inr (Some i) \<Rightarrow> f i c1)"
proof -
  note s = streamLocked_table [OF ok live(2,1) res]
  have "ops grow c c1" using streamLocked_ops [OF live res] .
  moreover have "ops grow c1 (f i c1)" if "res = Inr (Some i)" for i
    using step [OF that] s(3) s(6) [OF that] live(1) by (simp add: receiver_def sender_def split: if_splits)
  ultimately show ?thesis by (auto split: sum.split option.split)
qed

lemma handle_switch_ops:
  assumes ok: "table_ok c" and live: "c_closeErr c = None" "c_ready c" and f: "frame_allowed f"
  shows "ops grow c (snd (handle_switch grow now f c))"
proof (cases f)
  case (Frame fr)
  show ?thesis
  proof (cases fr)
    case (Stream sid off d fin)
    obtain res c1 where res: "streamLocked sid True c = (res, c1)" by fastforce
    have "ops grow c (case res of Inl e \<Rightarrow> c1 | Inr None \<Rightarrow> c1 | Inr (Some i) \<Rightarrow> snd (receive_data grow i sid off d fin c1))"
      by (rule stream_frame_ops [OF ok live res]) (use f Frame Stream in \<open>auto intro!: ops_op op_data\<close>)
    then show ?thesis using res Frame Stream by (auto simp: handleStreamLocked_def split: sum.splits option.splits)
  next
    case (ResetStream sid code n)
    obtain res c1 where res: "streamLocked sid True c = (res, c1)" by fastforce
    have "ops grow c (case res of Inl e \<Rightarrow> c1 | Inr None \<Rightarrow> c1 | Inr (Some i) \<Rightarrow> snd (receive_reset i sid code n c1))"
      by (rule stream_frame_ops [OF ok live res]) (auto intro!: ops_op op_reset)
    then show ?thesis using res Frame ResetStream
      by (auto simp: handleResetStreamLocked_def split: sum.splits option.splits)
  next
    case (StopSending sid code)
    obtain res c1 where res: "streamLocked sid False c = (res, c1)" by fastforce
    have "ops grow c (case res of Inl e \<Rightarrow> c1 | Inr None \<Rightarrow> c1 | Inr (Some i) \<Rightarrow> stopSendingLocked i code c1)"
      unfolding stopSendingLocked_def
      by (rule stream_frame_ops [OF ok live res]) (auto intro!: ops_op op_stop)
    then show ?thesis using res Frame StopSending
      by (auto simp: handle_StopSending_def split: sum.splits option.splits)
  next
    case (MaxStreamData sid m)
    obtain res c1 where res: "streamLocked sid False c = (res, c1)" by fastforce
    have "ops grow c (case res of Inl e \<Rightarrow> c1 | Inr None \<Rightarrow> c1 | Inr (Some i) \<Rightarrow>
        (\<lambda>i c. if m > s_sendMax (obj c i) then write_broadcast i (upd_obj i (\<lambda>s. s\<lparr>s_sendMax := m\<rparr>) c) else c) i c1)"
      by (rule stream_frame_ops [OF ok live res]) (auto intro!: ops_op op_max_stream_data)
    then show ?thesis using res Frame MaxStreamData
      by (auto simp: handle_MaxStreamData_def split: sum.splits option.splits)
  next
    case (MaxData m)
    then show ?thesis using Frame live by (auto intro!: ops_op op_max_data)
  next
    case (MaxStreams uni m)
    then show ?thesis using Frame live f by (auto intro!: ops_op op_max_streams)
  next
    case (Ping response n)
    then show ?thesis using Frame live by (auto intro!: ops_op op_ping)
  next
    case (Datagram d)
    then show ?thesis using Frame live by (auto intro!: ops_op op_datagram)
  qed (use Frame in simp_all)
qed simp

lemma handleFrameLocked_ops:
  assumes "table_ok c" "c_closeErr c = None" "frame_allowed f"
  shows "ops grow c (snd (handleFrameLocked grow now f c))"
proof (cases "\<exists>p. f = Frame (TransportParameters p)")
  case True
  then obtain p where p: "f = Frame (TransportParameters p)" by blast
  then show ?thesis
    using assms op_params [of c p grow] by (auto simp: handleFrameLocked_def intro!: ops_op)
next
  case False
  then have n: "(case f of Frame (TransportParameters p) \<Rightarrow> Some p | _ \<Rightarrow> None) = None"
    by (auto split: any_frame.split frame.split)
  show ?thesis
    using handle_switch_ops [OF assms(1,2) _ assms(3)] by (cases "c_ready c") (simp_all add: handleFrameLocked_def n)
qed

section \<open>Records\<close>

text \<open>\<open>handleRecord\<close> returns on every record: each frame takes at least a byte of it.\<close>

lemma parsed_allowed:
  assumes "quicvarint q" "parsed_ok q n f" "n < 2 ^ 62"
  shows "frame_allowed f"
proof -
  have "m \<le> maxStreams \<Longrightarrow> unat m \<le> 2 ^ 60" for m :: u64
    by (simp add: maxStreams_def word_le_nat_alt)
  then show ?thesis using assms(2,3)
    by (cases f) (auto split: frame.splits simp: params_valid_def)
qed

lemma handleRecord_ops:
  assumes q: "quicvarint q"
  shows "table_ok c \<Longrightarrow> length rec < 2 ^ 62 \<Longrightarrow>
    \<exists>e c'. handleRecord q grow now rec c = Some (e, c') \<and> ops grow c c'"
proof (induction "length rec" arbitrary: rec c rule: less_induct)
  case less
  show ?case
  proof (cases "rec = [] \<or> c_closeErr c \<noteq> None")
    case True
    then show ?thesis by (subst handleRecord.simps) auto
  next
    case False
    obtain res where res: "Parse q rec = Some res" using quicvarint.Parse_returns [OF q] by blast
    consider (err) e where "res = Inl e" | (none) rest where "res = Inr (None, rest)"
      | (frame) f rest where "res = Inr (Some f, rest)"
      by (metis obj_sumE option.exhaust prod.exhaust)
    then show ?thesis
    proof cases
      case err
      then show ?thesis using res False by (subst handleRecord.simps) auto
    next
      case none
      then show ?thesis using res False by (subst handleRecord.simps) auto
    next
      case (frame f rest)
      have p: "Parse q rec = Some (Inr (Some f, rest))" using res frame by simp
      have "frame_allowed f" using parsed_allowed [OF q quicvarint.Parse_ok [OF q p]] less.prems(2) by simp
      obtain e c1 where h: "handleFrameLocked grow now f c = (e, c1)" by fastforce
      have r: "ops grow c c1"
        using handleFrameLocked_ops [OF less.prems(1) _ \<open>frame_allowed f\<close>, of grow now] False h by simp
      show ?thesis
      proof (cases e)
        case None
        have "length rest < length rec" using quicvarint.Parse_consumes [OF q p] .
        then obtain e' c' where "handleRecord q grow now rest c1 = Some (e', c')" "ops grow c1 c'"
          using less.hyps [of rest c1] ops_table_ok [OF r less.prems(1)] less.prems(2) by fastforce
        then show ?thesis using r p h None False by (subst handleRecord.simps) auto
      next
        case (Some err)
        then show ?thesis using r p h False by (subst handleRecord.simps) auto
      qed
    qed
  qed
qed

text \<open>The frames of a record, handled one by one until one fails.\<close>

fun handle_frames :: "(nat \<Rightarrow> nat \<Rightarrow> nat) \<Rightarrow> int \<Rightarrow> frame list \<Rightarrow> Conn \<Rightarrow> go_error option \<times> Conn" where
  "handle_frames grow now [] c = (None, c)"
| "handle_frames grow now (f # fs) c =
     (case handleFrameLocked grow now (Frame f) c of
        (Some e, c) \<Rightarrow> (Some e, c)
      | (None, c) \<Rightarrow> handle_frames grow now fs c)"

lemma ops_closeErr:
  assumes "conn_op grow c c'" "\<And>err. c' \<noteq> snd (terminate err c)"
  shows "c_closeErr c' = c_closeErr c"
  using assms(1)
proof (rule conn_op_life_of)
qed (use assms(2) in \<open>auto simp: life_of_def handleParametersLocked_eq handleDatagramLocked_def\<close>)

lemma streamLocked_closeErr: "c_closeErr (snd (streamLocked sid recv c)) = c_closeErr c"
  by (simp add: streamLocked_def Let_def open_incoming_fields)

lemma stream_ops_closeErr:
  "c_closeErr (snd (receive_data grow i sid off d fin c)) = c_closeErr c"
  "c_closeErr (snd (receive_reset i sid code n c)) = c_closeErr c"
  "c_closeErr (resetSendLocked i code remote c) = c_closeErr c"
  by (auto simp: receive_data_def receive_reset_def resetSendLocked_def receivedLocked_def completeLocked_eq
      consumeLocked_eq broadcast_defs upd_defs queueLocked_def wakeWriter_def Let_def split: prod.splits option.splits)

lemma handleFrameLocked_closeErr: "c_closeErr (snd (handleFrameLocked grow now f c)) = c_closeErr c"
proof -
  have "c_closeErr (snd (handle_switch grow now f c)) = c_closeErr c"
  proof (cases f)
    case (Frame fr)
    have s: "c_closeErr c1 = c_closeErr c" if "streamLocked sid recv c = (res, c1)" for sid recv res c1
      using streamLocked_closeErr [of sid recv c] that by simp
    show ?thesis
      by (cases fr)
        (use Frame in \<open>auto simp: handleStreamLocked_def handleResetStreamLocked_def handle_StopSending_def
          handle_MaxStreamData_def handle_MaxData_def handle_MaxStreams_def handlePingLocked_def handleDatagramLocked_def
          stopSendingLocked_def stream_ops_closeErr broadcast_defs upd_defs wakeWriter_def Let_def
          split: prod.splits sum.splits option.splits dest!: s\<close>)
  qed simp
  then show ?thesis
    by (auto simp: handleFrameLocked_def handleParametersLocked_eq Let_def split: option.split)
qed

text \<open>A record is written after what the buffer holds already.\<close>

lemma frames_Append_prefix: "frames_Append q gs b = map_option (\<lambda>e. b @ e) (frames_Append q gs [])"
proof (induction gs arbitrary: b)
  case (Cons g gs)
  show ?case
  proof (cases "frame_Append q g []")
    case (Some eg)
    then have "frame_Append q g b = Some (b @ eg)" using frame_Append_prefix [of q g b] by simp
    then show ?thesis using Some Cons.IH [of eg] Cons.IH [of "b @ eg"] by (cases "frames_Append q gs []") simp_all
  next
    case None
    then show ?thesis using frame_Append_prefix [of q g b] by simp
  qed
qed simp

context quicvarint
begin

lemma handleRecord_frames:
  "c_closeErr c = None \<Longrightarrow> \<forall>f \<in> set fs. frame_valid q f \<Longrightarrow> frames_Append q fs [] = Some enc \<Longrightarrow> length enc < 2 ^ 63 \<Longrightarrow>
   handleRecord q grow now enc c = Some (handle_frames grow now (map frame_received fs) c)"
proof (induction fs arbitrary: c enc)
  case Nil
  then show ?case by (subst handleRecord.simps) simp
next
  case (Cons f fs)
  obtain ef where ef: "frame_Append q f [] = Some ef" "frames_Append q fs ef = Some enc"
    using Cons.prems(3) by (auto split: Option.bind_splits)
  obtain rest where rest: "frames_Append q fs [] = Some rest" "enc = ef @ rest"
    using ef(2) frames_Append_prefix [of q fs ef] by auto
  have "frame_valid q f" "length rest < 2 ^ 63" using Cons.prems rest(2) by simp_all
  from frame_roundtrip [OF this] ef(1)
  have p: "Parse q enc = Some (Inr (Some (Frame (frame_received f)), rest))" by (simp add: rest(2))
  have ne: "enc \<noteq> []" using Parse_consumes [OF p] by auto
  obtain e c1 where h: "handleFrameLocked grow now (Frame (frame_received f)) c = (e, c1)" by fastforce
  then have "c_closeErr c1 = None" using handleFrameLocked_closeErr [of grow now "Frame (frame_received f)" c] Cons.prems(1) by simp
  then have "handleRecord q grow now rest c1 = Some (handle_frames grow now (map frame_received fs) c1)"
    using Cons.IH [OF _ _ rest(1)] Cons.prems rest(2) by simp
  then show ?case using p h ne Cons.prems(1) by (subst handleRecord.simps) (simp split: option.split)
qed

end

section \<open>Closing\<close>

lemma ops_then: "ops grow a b \<Longrightarrow> conn_op grow b c \<Longrightarrow> ops grow a c"
  by simp

lemma abort_ops: "ops grow c (abort err c)"
proof -
  have "ops grow c (snd (terminate err c))" by (rule ops_op, rule op_terminate)
  moreover have "conn_op grow c' (tr_close c')" for c' unfolding tr_close_def by (rule op_transport)
  ultimately show ?thesis by (auto simp: abort_def split: prod.split bool.split intro: rtranclp.rtrancl_into_rtrancl)
qed

lemma writeFrames_ops: "writeFramesLocked q tw now fs c = Some (e, c') \<Longrightarrow> conn_op grow c c'"
  using op_writeRecord [of grow c tw now] by (auto simp: writeFramesLocked_def Option.bind_eq_Some_conv) (metis snd_conv)

lemma closeGracefully_ops: "closeGracefully q tw cw now err fr c = Some c' \<Longrightarrow> ops grow c c'"
proof -
  assume r: "closeGracefully q tw cw now err fr c = Some c'"
  obtain b c1 where t: "terminate err c = (b, c1)" by fastforce
  have t1: "ops grow c c1" using ops_op [OF op_terminate, of grow c err] t by simp
  show ?thesis
  proof (cases b)
    case False
    then show ?thesis using r t t1 by (simp add: closeGracefully_def)
  next
    case True
    define c2 where "c2 = c1\<lparr>c_tr := (c_tr c1)\<lparr>tr_expire := Some (now + closeTimeout), tr_forced := Some (now + closeTimeout)\<rparr>\<rparr>"
    have t2: "ops grow c c2" unfolding c2_def by (rule ops_then [OF t1 op_transport])
    define fin where "fin werr c3 = (if werr \<noteq> None then tr_close (c3\<lparr>c_tr := (c_tr c3)\<lparr>tr_forced := None\<rparr>\<rparr>)
        else let c = c3\<lparr>c_tr := (c_tr c3)\<lparr>tr_closedWrite := cw\<rparr>\<rparr>
          in if \<not> cw then tr_close (c\<lparr>c_tr := (c_tr c)\<lparr>tr_forced := None\<rparr>\<rparr>) else c)" for werr :: "go_error option" and c3
    have "Option.bind (case fr of None \<Rightarrow> Some (None, c2) | Some f \<Rightarrow> writeFramesLocked q tw now [f] c2)
        (\<lambda>(werr, c3). Some (fin werr c3)) = Some c'"
      using r t True by (cases fr) (simp_all add: closeGracefully_def c2_def fin_def Let_def cong: if_cong)
    then obtain werr c3 where w: "(case fr of None \<Rightarrow> Some (None, c2) | Some f \<Rightarrow> writeFramesLocked q tw now [f] c2) = Some (werr, c3)"
      and e: "c' = fin werr c3"
      by (auto simp: Option.bind_eq_Some_conv)
    have "ops grow c c3"
      using w t2 writeFrames_ops [of q tw now _ c2 werr c3 grow] by (auto split: option.splits intro: ops_then)
    moreover have "conn_op grow c3 c'"
      using op_transport [of grow c3] by (auto simp: e fin_def tr_close_def Let_def)
    ultimately show ?thesis by (rule ops_then)
  qed
qed

section \<open>The rounds of the goroutines\<close>

lemma run_ops: "ops grow c c' \<Longrightarrow> conn_run grow (w, c) (w, c')"
  by (induction rule: rtranclp_induct) (auto intro: conn_run_op)

lemma flush_loop_ops: "flush_loop q tw now fs buf c = Some (e, c') \<Longrightarrow> ops grow c c'"
proof (induction q tw now fs buf c arbitrary: e c' rule: flush_loop.induct)
  case (1 q tw now buf c)
  then show ?case using op_writeRecord [of grow c tw now buf] by (auto split: if_splits intro: ops_op)
next
  case (2 q tw now f fs buf c)
  obtain buf' where b: "frame_Append q f buf = Some buf'" using 2(3) by (auto simp: Option.bind_eq_Some_conv)
  obtain err c1 where wr: "writeRecordLocked tw now buf' c = (err, c1)" by fastforce
  have w: "conn_op grow c c1" using op_writeRecord [of grow c tw now buf'] wr by simp
  show ?case
  proof (cases "length buf' > full")
    case True
    show ?thesis
    proof (cases err)
      case None
      then have "flush_loop q tw now fs new_record c1 = Some (e, c')" using 2(3) b True wr by simp
      then have "ops grow c1 c'" using 2(1) [OF b True wr [symmetric]] None by blast
      then show ?thesis using w by (meson converse_rtranclp_into_rtranclp)
    next
      case (Some x)
      then show ?thesis using 2(3) b True wr w by simp
    qed
  next
    case False
    then show ?thesis using 2(2) [OF b False] 2(3) b by simp
  qed
qed

text \<open>A round of the writer, from the token on.\<close>

lemma writeLoop_round_run:
  assumes "c_controlWake c" "writeLoop_round q tw now c = Some (b, c')"
  shows "conn_run grow (False, c) (False, c')"
proof -
  let ?c = "c\<lparr>c_controlWake := False\<rparr>"
  obtain fs c1 where t: "takeControl now ?c = (fs, c1)" by fastforce
  obtain e c2 where f: "flush_loop q tw now fs new_record c1 = Some (e, c2)"
    and c': "c' = (case e of None \<Rightarrow> c2 | Some e \<Rightarrow> abort (write_failed e) c2)"
    using assms(2) t by (auto simp: writeLoop_round_def flushControl_def Option.bind_eq_Some_conv split: option.splits)
  have "conn_step grow (False, c) (True, ?c)" using assms(1) by (rule step_wake)
  moreover have "conn_step grow (True, ?c) (False, c1)" using step_take [of grow ?c now] t by simp
  moreover have "conn_run grow (False, c1) (False, c2)" using run_ops [OF flush_loop_ops [OF f]] .
  moreover have "conn_run grow (False, c2) (False, c')"
    using run_ops [OF abort_ops] c' by (cases e) auto
  ultimately show ?thesis by (meson converse_rtranclp_into_rtranclp rtranclp_trans)
qed

lemma readLoop_round_ops:
  assumes "quicvarint q" "table_ok c" "\<And>rec. res = Inr rec \<Longrightarrow> length rec < 2 ^ 62"
    "readLoop_round q grow tw cw now res c = Some (b, c')"
  shows "ops grow c c'"
proof (cases res)
  case (Inl e)
  have a: "ops grow c (tr_close (abort err c))" for err
    using ops_then [OF abort_ops op_transport] unfolding tr_close_def by blast
  show ?thesis
    using assms(4) Inl a closeGracefully_ops
    by (cases e) (auto simp: readLoop_round_def closeWithTransportError_def Let_def Option.bind_eq_Some_conv)
next
  case (Inr rec)
  define c0 where "c0 = touch now (c\<lparr>c_bytesReceived := c_bytesReceived c + u64_len rec, c_recordsReceived := c_recordsReceived c + 1\<rparr>)"
  have c0: "conn_op grow c c0" unfolding c0_def by (rule op_received)
  have t0: "table_ok c0" using conn_op_table_ok [OF c0 assms(2)] .
  obtain e c1 where h: "handleRecord q grow now rec c0 = Some (e, c1)" "ops grow c0 c1"
    using handleRecord_ops [OF assms(1) t0 assms(3) [OF Inr]] by blast
  have r1: "ops grow c c1" using c0 h(2) by (meson converse_rtranclp_into_rtranclp)
  have a: "ops grow c (tr_close (abort err c1))" for err
    using ops_then [OF rtranclp_trans [OF r1 abort_ops] op_transport] unfolding tr_close_def by blast
  have "(case e of None \<Rightarrow> Some (True, c1)
      | Some (WireError x) \<Rightarrow> Option.bind (closeWithTransportError q tw cw now x c1) (\<lambda>c. Some (True, c))
      | Some e \<Rightarrow> Some (False, tr_close (abort e c1))) = Some (b, c')"
    using h(1) assms(4) by (simp add: readLoop_round_def Inr c0_def Let_def)
  then have "case e of None \<Rightarrow> c' = c1
      | Some (WireError x) \<Rightarrow> closeWithTransportError q tw cw now x c1 = Some c'
      | Some e \<Rightarrow> c' = tr_close (abort e c1)"
    by (auto simp: Option.bind_eq_Some_conv split: option.splits go_error.splits)
  then show ?thesis
    using r1 a closeGracefully_ops [of q tw cw now _ _ c1 c' grow]
    by (auto simp: closeWithTransportError_def Let_def split: option.splits go_error.splits intro: rtranclp_trans)
qed

section \<open>The calls of the application\<close>

lemma write_call_ops:
  assumes "ops grow c c1" "writeFramesLocked q tw now fs c1 = Some (err, c2)"
  shows "ops grow c c2" "ops grow c (abort e c2)"
proof -
  show r: "ops grow c c2" using ops_then [OF assms(1) writeFrames_ops [OF assms(2)]] .
  show "ops grow c (abort e c2)" using rtranclp_trans [OF r abort_ops] .
qed

lemma writeChunk_ops:
  assumes "sender i c" "writeChunk q tw now i p c = Some (r, c')"
  shows "ops grow c c'"
proof -
  obtain res c1 where r: "reserve i (length p) c = (res, c1)" by fastforce
  then have o: "ops grow c c1" using ops_op [OF op_reserve [OF assms(1), of grow "length p"]] by simp
  show ?thesis
  proof (cases res)
    case (Inl e)
    then show ?thesis using assms(2) r o by (simp add: writeChunk_def)
  next
    case (Inr x)
    then show ?thesis
      using assms(2) r o write_call_ops [OF o]
      by (auto simp: writeChunk_def Option.bind_eq_Some_conv Let_def split: prod.splits if_splits option.splits)
  qed
qed

lemma closeSend_ops:
  assumes "sender i c" "closeSend q tw now i c = Some (r, c')"
  shows "ops grow c c'"
proof -
  obtain res c1 where r: "finish i c = (res, c1)" by fastforce
  then have o: "ops grow c c1" using ops_op [OF op_finish [OF assms(1), of grow]] by simp
  then show ?thesis
    using assms(2) r write_call_ops [OF o]
    by (auto simp: closeSend_def Option.bind_eq_Some_conv Let_def split: sum.splits option.splits)
qed

lemma SendDatagram_ops:
  assumes "SendDatagram q tw now p c = Some (r, c')"
  shows "ops grow c c'"
  using assms write_call_ops [of grow c c q tw now]
  by (auto simp: SendDatagram_def Option.bind_eq_Some_conv Let_def split: option.splits if_splits)

lemma ReceiveDatagram_ops:
  assumes "ReceiveDatagram pick ctxErr c = Some (r, c')"
  shows "ops grow c c'"
  using assms op_receiveDatagram [of c _ _ grow]
  by (auto simp: ReceiveDatagram_def split: receive_case.splits option.splits list.splits intro: ops_op)

lemma timer_ops:
  "keepAlive_tick q tw cw now c = Some (b, c') \<Longrightarrow> ops grow c c'"
  "idle_round q tw cw now c = Some (res, c') \<Longrightarrow> ops grow c c'"
  "handshake_timeout q tw cw now c = Some c' \<Longrightarrow> ops grow c c'"
proof -
  have p: "ops grow c (snd (requestPing now c))" by (rule ops_op, rule op_requestPing)
  show "keepAlive_tick q tw cw now c = Some (b, c') \<Longrightarrow> ops grow c c'"
    using p closeGracefully_ops [of q tw cw now IdleTimeoutError None "snd (requestPing now c)" _ grow]
    by (auto simp: keepAlive_tick_def Option.bind_eq_Some_conv split: prod.splits bool.splits intro: rtranclp_trans)
  show "idle_round q tw cw now c = Some (res, c') \<Longrightarrow> ops grow c c'"
    using closeGracefully_ops [of q tw cw now IdleTimeoutError None c _ grow]
    by (auto simp: idle_round_def Option.bind_eq_Some_conv Let_def split: if_splits)
  show "handshake_timeout q tw cw now c = Some c' \<Longrightarrow> ops grow c c'"
    unfolding handshake_timeout_def by (rule closeGracefully_ops)
qed

section \<open>Errors of the peer\<close>

text \<open>The errors that frames lead to carry a code of RFC 9000.\<close>

lemmas error_codes =
  FlowControlError_def StreamLimitError_def StreamStateError_def FinalSizeError_def FrameEncodingError_def
  TransportParameterError_def ProtocolViolation_def

definition code_ok :: "go_error option \<Rightarrow> bool" where
  "code_ok e \<longleftrightarrow> (case e of Some (WireError x) \<Rightarrow> Code x \<le> 0x10 | _ \<Rightarrow> True)"

lemma streamLocked_code: "streamLocked sid recv c = (Inl e, c') \<Longrightarrow> code_ok (Some e)"
  by (auto simp: streamLocked_def stream_error_def code_ok_def error_codes Let_def split: if_splits)

lemma receive_code:
  "code_ok (fst (receive_data grow i sid off d fin c))" "code_ok (fst (receive_reset i sid code n c))"
  by (auto simp: receive_data_def receive_reset_def receivedLocked_def stream_error_def protocolViolation_def
      code_ok_def error_codes Let_def)

lemma handleFrameLocked_code: "code_ok (fst (handleFrameLocked grow now f c))"
proof -
  have "code_ok (fst (handle_switch grow now f c))"
  proof (cases f)
    case (Frame fr)
    show ?thesis
    proof (cases fr)
      case (Stream sid off d fin)
      then show ?thesis using Frame receive_code(1)
        by (auto simp: handleStreamLocked_def split: prod.split sum.split option.split dest: streamLocked_code)
          (simp_all add: code_ok_def)
    next
      case (ResetStream sid code n)
      then show ?thesis using Frame receive_code(2)
        by (auto simp: handleResetStreamLocked_def split: prod.split sum.split option.split dest: streamLocked_code)
          (simp_all add: code_ok_def)
    next
      case (StopSending sid code)
      then show ?thesis using Frame
        by (auto simp: handle_StopSending_def split: prod.split sum.split option.split dest: streamLocked_code)
          (simp_all add: code_ok_def)
    next
      case (MaxStreamData sid m)
      then show ?thesis using Frame
        by (auto simp: handle_MaxStreamData_def split: prod.split sum.split option.split dest: streamLocked_code)
          (simp_all add: code_ok_def)
    qed (use Frame in \<open>auto simp: handlePingLocked_def handleDatagramLocked_def protocolViolation_def code_ok_def error_codes\<close>)
  qed (simp add: code_ok_def)
  then show ?thesis
    by (auto simp: handleFrameLocked_def protocolViolation_def error_codes Let_def split: option.split)
      (simp_all add: code_ok_def)
qed

lemma handleRecord_code:
  assumes q: "quicvarint q"
  shows "handleRecord q grow now rec c = Some (e, c') \<Longrightarrow> code_ok e"
proof (induction "length rec" arbitrary: rec c rule: less_induct)
  case less
  show ?case
  proof (cases "rec = [] \<or> c_closeErr c \<noteq> None")
    case True
    then show ?thesis using less.prems by (subst (asm) handleRecord.simps) (auto simp: code_ok_def)
  next
    case False
    obtain res where res: "Parse q rec = Some res" using quicvarint.Parse_returns [OF q] by blast
    consider (err) x where "res = Inl x" | (none) rest where "res = Inr (None, rest)"
      | (frame) f rest where "res = Inr (Some f, rest)"
      by (metis obj_sumE option.exhaust prod.exhaust)
    then show ?thesis
    proof cases
      case (err x)
      then have "Code x = FrameEncodingError \<or> Code x = TransportParameterError"
        using res quicvarint.Parse_code [OF q] by simp
      then show ?thesis using res False less.prems err
        by (subst (asm) handleRecord.simps) (auto simp: code_ok_def error_codes)
    next
      case none
      then show ?thesis using res False less.prems by (subst (asm) handleRecord.simps) (auto simp: code_ok_def)
    next
      case (frame f rest)
      have p: "Parse q rec = Some (Inr (Some f, rest))" using res frame by simp
      obtain x c1 where h: "handleFrameLocked grow now f c = (x, c1)" by fastforce
      show ?thesis
      proof (cases x)
        case None
        have "handleRecord q grow now rest c1 = Some (e, c')"
          using less.prems p h None False by (subst (asm) handleRecord.simps) simp
        then show ?thesis using less.hyps quicvarint.Parse_consumes [OF q p] by blast
      next
        case (Some y)
        then show ?thesis using less.prems p h False handleFrameLocked_code [of grow now f c]
          by (subst (asm) handleRecord.simps) auto
      qed
    qed
  qed
qed

lemma closeGracefully_returns:
  assumes "\<And>f. fr = Some f \<Longrightarrow> \<exists>b. frame_Append q f new_record = Some b"
  shows "\<exists>c'. closeGracefully q tw cw now err fr c = Some c'"
proof (cases fr)
  case None
  then show ?thesis by (auto simp: closeGracefully_def Let_def split: prod.split bool.split)
next
  case (Some f)
  then obtain b where b: "frame_Append q f new_record = Some b" using assms by blast
  show ?thesis
    by (simp add: Some closeGracefully_def writeFramesLocked_def b Let_def split: prod.split bool.split)
qed

lemma closeWithTransportError_returns:
  assumes "quicvarint q" "Code e \<le> 0x10"
  shows "\<exists>c'. closeWithTransportError q tw cw now e c = Some c'"
proof -
  let ?r = "take (min (length (Reason e)) maxReasonLength) (Reason e)"
  have len: "length ?r \<le> maxReasonLength" by simp
  have m: "maxReasonLength < 2 ^ 62" by (simp add: maxReasonLength_def DefaultMaxRecordSize_def maxControlFrameSize_def)
  have "Code e \<le> vmax q" using assms quicvarint.fits_iff [OF assms(1)] by (simp add: word_le_nat_alt)
  then have "frame_fits q (ConnectionClose False (Code e) 0 ?r)" using len m by simp
  moreover have "frame_sized (ConnectionClose False (Code e) 0 ?r)" using len m by simp
  ultimately have "\<exists>b. frame_Append q (ConnectionClose False (Code e) 0 ?r) new_record = Some b"
    using quicvarint.frame_Append_Some_iff [OF assms(1)] by blast
  then show ?thesis unfolding closeWithTransportError_def Let_def by (intro closeGracefully_returns) auto
qed

section \<open>Properties\<close>

lemma abort_closed: "c_closeErr (abort e c) \<noteq> None"
proof -
  have "c_closeErr (snd (terminate e c)) \<noteq> None"
    using terminate_life [of e c] by (auto simp: life_of_def split: if_splits)
  then show ?thesis by (auto simp: abort_def tr_close_def split: prod.split bool.split)
qed

text \<open>A round of the reader returns on every record.\<close>

lemma readLoop_round_returns:
  assumes "quicvarint q" "table_ok c" "length rec < 2 ^ 62"
  shows "\<exists>b c'. readLoop_round q grow tw cw now (Inr rec) c = Some (b, c') \<and>
    ops grow c c' \<and> (\<not> b \<longrightarrow> c_closeErr c' \<noteq> None \<and> tr_closed (c_tr c'))"
proof -
  define c0 where "c0 = touch now (c\<lparr>c_bytesReceived := c_bytesReceived c + u64_len rec, c_recordsReceived := c_recordsReceived c + 1\<rparr>)"
  have "table_ok c0" using conn_op_table_ok [OF op_received assms(2)] unfolding c0_def .
  then obtain e c1 where h: "handleRecord q grow now rec c0 = Some (e, c1)"
    using handleRecord_ops [OF assms(1) _ assms(3)] by blast
  have r: "readLoop_round q grow tw cw now (Inr rec) c = (case e of None \<Rightarrow> Some (True, c1)
      | Some (WireError x) \<Rightarrow> Option.bind (closeWithTransportError q tw cw now x c1) (\<lambda>c. Some (True, c))
      | Some e \<Rightarrow> Some (False, tr_close (abort e c1)))"
    using h by (simp add: readLoop_round_def c0_def Let_def)
  have x: "\<exists>c'. closeWithTransportError q tw cw now x c1 = Some c'" if "e = Some (WireError x)" for x
    using closeWithTransportError_returns [OF assms(1)] handleRecord_code [OF assms(1) h] that by (simp add: code_ok_def)
  have "\<exists>b c'. readLoop_round q grow tw cw now (Inr rec) c = Some (b, c') \<and> (\<not> b \<longrightarrow> c_closeErr c' \<noteq> None \<and> tr_closed (c_tr c'))"
    using x abort_closed [of _ c1] unfolding r
    by (auto split: option.splits go_error.splits simp: tr_close_def) blast
  then obtain b c' where b: "readLoop_round q grow tw cw now (Inr rec) c = Some (b, c')"
    "\<not> b \<longrightarrow> c_closeErr c' \<noteq> None \<and> tr_closed (c_tr c')" by blast
  have "ops grow c c'" by (rule readLoop_round_ops [OF assms(1,2) _ b(1)]) (use assms(3) in simp)
  then show ?thesis using b by blast
qed

text \<open>C29. The reader never gets stuck on what the peer sends: on every record, well-formed or not, a round
  of \<open>readLoop\<close> from a reachable state returns; it is a run of the steps of the connection; and when it
  ends the loop, the connection has ended and its transport is closed.\<close>

theorem readLoop_round_correct:
  assumes "quicvarint q" "conn_start q s" "conn_run grow s (w, c)" "length rec < 2 ^ 62"
  shows "\<exists>b c'. readLoop_round q grow tw cw now (Inr rec) c = Some (b, c') \<and>
    conn_run grow (w, c) (w, c') \<and> (\<not> b \<longrightarrow> c_closeErr c' \<noteq> None \<and> tr_closed (c_tr c'))"
proof -
  have "table_ok c" using table.reachable [OF assms(2,3)] by simp
  then show ?thesis using readLoop_round_returns [OF assms(1) _ assms(4)] run_ops by blast
qed

theorem readLoop_round_correct_witness:
  "\<exists>b c'. readLoop_round rfc9000 (\<lambda>k n. n) (\<lambda>ws b. Inr (length b)) True 0 (Inr [0x04, 0xff]) example_conn = Some (b, c') \<and>
     conn_run (\<lambda>k n. n) (False, example_conn) (False, c')"
  using readLoop_round_correct [OF rfc.quicvarint_axioms conn_start_example example_run, of "[0x04, 0xff]"] by force

text \<open>C31. A record is its frames: a record that holds valid frames, one encoded after the other, is handled
  by handling each frame as the peer reads it, in order, up to the first that fails.\<close>

theorem handleRecord_is_frames:
  assumes "quicvarint q" "c_closeErr c = None" "\<forall>f \<in> set fs. frame_valid q f"
    "frames_Append q fs [] = Some enc" "length enc < 2 ^ 63"
  shows "handleRecord q grow now enc c = Some (handle_frames grow now (map frame_received fs) c)"
  using quicvarint.handleRecord_frames [OF assms] .

theorem handleRecord_is_frames_witness:
  "handleRecord rfc9000 (\<lambda>k n. n) 0 [0x10, 5, 0x10, 6] example_conn =
     Some (handle_frames (\<lambda>k n. n) 0 [MaxData 5, MaxData 6] example_conn)"
proof -
  have "frames_Append rfc9000 [MaxData 5, MaxData 6] [] = Some [0x10, 5, 0x10, 6]"
    by (simp add: Append_defs put_varint_def rfc.append_small frame_type_defs)
  from handleRecord_is_frames [OF rfc.quicvarint_axioms example_conn_fields(2) _ this]
  show ?thesis by (simp add: rfc.fits_iff)
qed

text \<open>C32. A close reaches the peer: \<open>CloseWithError\<close> on an open connection, with a code that is a varint and a
  transport that takes the record, ends the connection with the application's error and writes one record
  within the size any peer accepts; a peer that has completed the handshake and handles this record learns
  the code and the message, cut to the length a record has room for.\<close>

theorem close_reaches_peer:
  assumes "quicvarint q" "code \<le> vmax q" "c_closeErr a = None" "tw (tr_written (c_tr a)) = (\<lambda>b. Inr (length b))"
    and "c_ready b" "c_closeErr b = None"
  shows "\<exists>a' rec. CloseWithError q tw cw now code msg a = Some a' \<and>
    c_closeErr a' = Some (ApplicationError False code (take maxReasonLength msg)) \<and>
    tr_written (c_tr a') = tr_written (c_tr a) @ [rec] \<and> length rec \<le> DefaultMaxRecordSize \<and>
    handleRecord q grow now' rec b = Some (Some (ApplicationError True code (take maxReasonLength msg)), b)"
proof -
  let ?r = "take maxReasonLength msg"
  have r: "take (min (length msg) maxReasonLength) msg = ?r" by (simp add: min_def)
  let ?f = "ConnectionClose True code 0 ?r"
  have m: "maxReasonLength < 2 ^ 62" "25 + maxReasonLength \<le> DefaultMaxRecordSize"
    by (simp_all add: maxReasonLength_def DefaultMaxRecordSize_def maxControlFrameSize_def)
  have len: "length ?r \<le> maxReasonLength" by simp
  then have fits: "frame_fits q ?f" using assms(2) m by simp
  obtain rec where rec: "frame_Append q ?f [] = Some rec" "length rec \<le> 25 + length ?r"
    "Parse q rec = Some (Inr (Some (Frame ?f), []))"
    using quicvarint.ConnectionClose_parse [OF assms(1) fits, of "[]"] by auto
  have app: "frame_Append q ?f new_record = Some (new_record @ rec)"
    using frame_Append_prefix [of q ?f new_record] rec(1) by simp
  obtain c1 where t: "terminate (ApplicationError False code ?r) a = (True, c1)"
    using assms(3) by (auto simp: terminate_def Let_def)
  note t' = terminate_True [OF t]
  have drop: "drop recordHeadroom (new_record @ rec) = rec" by (simp add: new_record_def)
  have w: "\<exists>a'. CloseWithError q tw cw now code msg a = Some a' \<and>
      c_closeErr a' = Some (ApplicationError False code ?r) \<and> tr_written (c_tr a') = tr_written (c_tr a) @ [rec]"
    using t' assms(4) drop
    by (simp add: CloseWithError_def closeGracefully_def writeFramesLocked_def writeRecordLocked_def r t app
        tr_close_def touch_def Let_def del: frame_Append.simps)
  have ne: "rec \<noteq> []" using quicvarint.Parse_consumes [OF assms(1) rec(3)] by auto
  have "handleRecord q grow now' rec b = Some (Some (ApplicationError True code ?r), b)"
    using rec(3) ne assms(5,6) by (subst handleRecord.simps) (simp add: handleFrameLocked_def)
  then show ?thesis using w rec(2) len m(2) by (meson order_trans add_left_mono)
qed

theorem close_reaches_peer_witness:
  "\<exists>a' rec. CloseWithError rfc9000 (\<lambda>ws b. Inr (length b)) True 0 7 ''bye'' example_conn = Some a' \<and>
     tr_written (c_tr a') = tr_written (c_tr example_conn) @ [rec] \<and>
     handleRecord rfc9000 (\<lambda>k n. n) 0 rec example_conn = Some (Some (ApplicationError True 7 ''bye''), example_conn)"
  using close_reaches_peer [OF rfc.quicvarint_axioms, where code = 7 and a = example_conn and b = example_conn
    and tw = "\<lambda>ws b. Inr (length b)" and cw = True and now = 0 and msg = "''bye''" and grow = "\<lambda>k n. n" and now' = 0]
  by (simp add: rfc.fits_iff example_conn_fields maxReasonLength_def DefaultMaxRecordSize_def maxControlFrameSize_def) blast

text \<open>C33. The program does nothing but the steps: whenever a round of the reader, the writer, the keep-alive or
  the idle goroutine, or a call of the application to write, close, send or receive a datagram, returns
  from a reachable state, it has led to a reachable state.\<close>

theorem operations_are_runs:
  assumes "quicvarint q" "conn_start q s" "conn_run grow s (w, c)"
  shows "(\<forall>res. (\<forall>rec. res = Inr rec \<longrightarrow> length rec < 2 ^ 62) \<and>
        readLoop_round q grow tw cw now res c = Some (b, c') \<longrightarrow> conn_run grow (w, c) (w, c')) \<and>
    (\<not> w \<and> c_controlWake c \<and> writeLoop_round q tw now c = Some (b, c') \<longrightarrow> conn_run grow (w, c) (w, c')) \<and>
    (keepAlive_tick q tw cw now c = Some (b, c') \<longrightarrow> conn_run grow (w, c) (w, c')) \<and>
    (idle_round q tw cw now c = Some (idle, c') \<longrightarrow> conn_run grow (w, c) (w, c')) \<and>
    (handshake_timeout q tw cw now c = Some c' \<longrightarrow> conn_run grow (w, c) (w, c')) \<and>
    (sender i c \<and> writeChunk q tw now i p c = Some (n, c') \<longrightarrow> conn_run grow (w, c) (w, c')) \<and>
    (sender i c \<and> closeSend q tw now i c = Some (err, c') \<longrightarrow> conn_run grow (w, c) (w, c')) \<and>
    (SendDatagram q tw now p c = Some (err, c') \<longrightarrow> conn_run grow (w, c) (w, c')) \<and>
    (ReceiveDatagram pick ctxErr c = Some (dat, c') \<longrightarrow> conn_run grow (w, c) (w, c')) \<and>
    (CloseWithError q tw cw now code msg c = Some c' \<longrightarrow> conn_run grow (w, c) (w, c')) \<and>
    conn_run grow (w, c) (w, abort e c)"
proof (intro conjI allI impI)
  have ok: "table_ok c" using table.reachable [OF assms(2,3)] by simp
  show "conn_run grow (w, c) (w, c')"
    if "(\<forall>rec. res = Inr rec \<longrightarrow> length rec < 2 ^ 62) \<and> readLoop_round q grow tw cw now res c = Some (b, c')" for res
    using readLoop_round_ops [OF assms(1) ok] that run_ops by blast
  show "conn_run grow (w, c) (w, c')" if "\<not> w \<and> c_controlWake c \<and> writeLoop_round q tw now c = Some (b, c')"
    using that writeLoop_round_run [of c q tw now b c' grow] by (cases w) auto
  show "conn_run grow (w, c) (w, c')" if "sender i c \<and> writeChunk q tw now i p c = Some (n, c')"
    using that writeChunk_ops run_ops by (cases n) blast
qed (use run_ops timer_ops closeSend_ops SendDatagram_ops ReceiveDatagram_ops closeGracefully_ops abort_ops
    in \<open>auto simp: CloseWithError_def Let_def\<close>)

theorem operations_are_runs_witness:
  "\<exists>c'. CloseWithError rfc9000 (\<lambda>ws b. Inr (length b)) True 0 7 ''bye'' example_conn = Some c' \<and>
     conn_run (\<lambda>k n. n) (False, example_conn) (False, c')"
proof -
  obtain c' where "CloseWithError rfc9000 (\<lambda>ws b. Inr (length b)) True 0 7 ''bye'' example_conn = Some c'"
    using quicvarint.frame_Append_Some_iff [OF rfc.quicvarint_axioms, of "ConnectionClose True 7 0 ''bye''" new_record]
      closeGracefully_returns [of "Some (ConnectionClose True 7 0 ''bye'')" rfc9000]
    by (simp add: CloseWithError_def Let_def rfc.fits_iff maxReasonLength_def DefaultMaxRecordSize_def
        maxControlFrameSize_def) blast
  then show ?thesis
    using operations_are_runs [OF rfc.quicvarint_axioms conn_start_example example_run] by blast
qed

end
