(* ===== verification/Byte_Readers.thy ===== *)
theory Byte_Readers
  imports Varint_Codec
begin

text \<open>
  What the stream transport uses of Go's \<open>io\<close> and \<open>bufio\<close>, and the calls it makes of
  \<open>quicvarint.Read\<close> through them: \<open>bufio.Reader\<close>, \<open>io.ReadFull\<close>, \<open>io.CopyN\<close> to \<open>io.Discard\<close>. A reader
  is a function of its state and of the length of the buffer; it returns the bytes it put there
  with an error, if any, as \<open>io.Reader\<close> does. A loop that waits for a reader to make progress is a
  \<open>partial_function\<close>: \<open>None\<close> is a loop that does not end.

  The locale \<open>byte_source\<close> is the contract of \<open>io.Reader\<close> for a reader of a fixed sequence of bytes,
  delivered in pieces of any size, that ends with a fixed error. The loops are proved once
  against it: what they return depends on the bytes and not on the pieces. A \<open>bufio.Reader\<close> on a
  \<open>byte_source\<close> is a \<open>byte_source\<close> again.
\<close>

section \<open>Readers\<close>

type_synonym 's io_reader = "'s \<Rightarrow> nat \<Rightarrow> ((bytes \<times> io_error option) \<times> 's) option"

text \<open>\<open>io.ReadFull(r, buf)\<close> with a buffer of \<open>n\<close> bytes, of which \<open>acc\<close> are read: the bytes read and
  the error.\<close>

partial_function (option) ReadFull ::
  "'s io_reader \<Rightarrow> nat \<Rightarrow> bytes \<Rightarrow> 's \<Rightarrow> ((bytes \<times> io_error option) \<times> 's) option"
where
  "ReadFull rd n acc s =
     (if n \<le> length acc then Some ((acc, None), s)
      else do {
        ((bs, e), s) \<leftarrow> rd s (n - length acc);
        let acc = acc @ bs in
        case e of
          None \<Rightarrow> ReadFull rd n acc s
        | Some e \<Rightarrow>
          Some ((acc, if n \<le> length acc then None
                      else Some (if acc \<noteq> [] \<and> e = EOF then ErrUnexpectedEOF else e)), s)
      })"

text \<open>\<open>io.CopyN(io.Discard, r, n)\<close>: \<open>io.Discard\<close> reads from an \<open>io.LimitedReader\<close> into buffers of 8192
  bytes until it fails, where \<open>io.EOF\<close> is no error, and \<open>CopyN\<close> reports \<open>io.EOF\<close> if it copied too
  little. \<open>discard\<close> returns how many of the bytes are left, and the error.\<close>

partial_function (option) discard ::
  "'s io_reader \<Rightarrow> nat \<Rightarrow> 's \<Rightarrow> ((nat \<times> io_error option) \<times> 's) option"
where
  "discard rd n s =
     (if n = 0 then Some ((0, None), s)
      else do {
        ((bs, e), s) \<leftarrow> rd s (min 8192 n);
        case e of
          None \<Rightarrow> discard rd (n - length bs) s
        | Some e \<Rightarrow> Some ((n - length bs, if e = EOF then None else Some e), s)
      })"

definition CopyN :: "'s io_reader \<Rightarrow> nat \<Rightarrow> 's \<Rightarrow> (io_error option \<times> 's) option" where
  "CopyN rd n s = do {
     ((left, e), s) \<leftarrow> discard rd n s;
     Some (if left = 0 then None else case e of None \<Rightarrow> Some EOF | Some e \<Rightarrow> Some e, s)
   }"

section \<open>\<open>bufio.Reader\<close>\<close>

text \<open>A \<open>bufio.Reader\<close>: the bytes it holds, the error it will report, and its reader.\<close>

record 's Reader =
  b_buf :: bytes
  b_err :: "io_error option"
  b_rd :: 's

definition defaultBufSize :: nat where "defaultBufSize = 4096"

definition maxConsecutiveEmptyReads :: nat where "maxConsecutiveEmptyReads = 100"

definition NewReader :: "'s \<Rightarrow> 's Reader" where
  "NewReader s = \<lparr>b_buf = [], b_err = None, b_rd = s\<rparr>"

text \<open>\<open>fill\<close>, with the reads it may still try.\<close>

fun fill :: "'s io_reader \<Rightarrow> nat \<Rightarrow> 's Reader \<Rightarrow> 's Reader option" where
  "fill rd 0 b = Some (b\<lparr>b_err := Some ErrNoProgress\<rparr>)"
| "fill rd (Suc i) b = do {
     ((bs, e), s) \<leftarrow> rd (b_rd b) (defaultBufSize - length (b_buf b));
     let b = b\<lparr>b_buf := b_buf b @ bs, b_rd := s\<rparr> in
     if e \<noteq> None then Some (b\<lparr>b_err := e\<rparr>)
     else if bs \<noteq> [] then Some b
     else fill rd i b
   }"

text \<open>\<open>readErr\<close> reports the error and forgets it.\<close>

definition readErr :: "'s Reader \<Rightarrow> io_error option \<times> 's Reader" where
  "readErr b = (b_err b, b\<lparr>b_err := None\<rparr>)"

partial_function (option) ReadByte :: "'s io_reader \<Rightarrow> 's Reader \<Rightarrow> ((io_error + byte) \<times> 's Reader) option"
where
  "ReadByte rd b =
     (case b_buf b of
        x # xs \<Rightarrow> Some (Inr x, b\<lparr>b_buf := xs\<rparr>)
      | [] \<Rightarrow>
        (case b_err b of
           Some e \<Rightarrow> Some (Inl e, snd (readErr b))
         | None \<Rightarrow> Option.bind (fill rd maxConsecutiveEmptyReads b) (ReadByte rd)))"

definition Reader_Read :: "'s io_reader \<Rightarrow> 's Reader io_reader" where
  "Reader_Read rd b n =
     (if n = 0
      then Some (if b_buf b \<noteq> [] then (([], None), b) else let (e, b) = readErr b in (([], e), b))
      else if b_buf b = []
      then if b_err b \<noteq> None then Some (let (e, b) = readErr b in (([], e), b))
           else if defaultBufSize \<le> n
           then do {
             ((bs, e), s) \<leftarrow> rd (b_rd b) n;
             let (e, b) = readErr (b\<lparr>b_rd := s, b_err := e\<rparr>) in
             Some ((bs, e), b)
           }
           else do {
             ((bs, e), s) \<leftarrow> rd (b_rd b) defaultBufSize;
             let b = b\<lparr>b_rd := s, b_err := e\<rparr> in
             if bs = [] then Some (let (e, b) = readErr b in (([], e), b))
             else Some ((take n bs, None), b\<lparr>b_buf := drop n bs\<rparr>)
           }
      else Some ((take n (b_buf b), None), b\<lparr>b_buf := drop n (b_buf b)\<rparr>))"

text \<open>\<open>quicvarint.Read(b)\<close> takes byte after byte with \<open>ReadByte\<close> until it has an integer; \<open>acc\<close> are the
  bytes taken. What it makes of them is up to the package.\<close>

partial_function (option) ReadVarint ::
  "codec \<Rightarrow> 's io_reader \<Rightarrow> bytes \<Rightarrow> 's Reader \<Rightarrow> ((io_error + u64) \<times> 's Reader) option"
where
  "ReadVarint q rd acc b = do {
     (r, b) \<leftarrow> ReadByte rd b;
     case r of
       Inl e \<Rightarrow> Some (case vread q acc e of Inl e \<Rightarrow> Inl e | Inr (v, n) \<Rightarrow> Inr v, b)
     | Inr x \<Rightarrow>
       (case vread q (acc @ [x]) EOF of
          Inl _ \<Rightarrow> ReadVarint q rd (acc @ [x]) b
        | Inr (v, n) \<Rightarrow> Some (Inr v, b))
   }"

section \<open>The contract of a reader\<close>

text \<open>\<open>contents s\<close> are the bytes that a reader in the state \<open>s\<close> still delivers, \<open>failure s\<close> is the error it
  fails with after them. A read into a buffer returns at least one byte or the error, and an
  error only with the last bytes.\<close>

locale byte_source =
  fixes rd :: "'s io_reader" and ok :: "'s \<Rightarrow> bool" and contents :: "'s \<Rightarrow> bytes" and failure :: "'s \<Rightarrow> io_error"
  assumes read: "ok s \<Longrightarrow> 0 < n \<Longrightarrow> \<exists>bs e s'. rd s n = Some ((bs, e), s') \<and> ok s' \<and>
    length bs \<le> n \<and> contents s = bs @ contents s' \<and> failure s' = failure s \<and> (bs = [] \<longrightarrow> e \<noteq> None) \<and>
    (e \<noteq> None \<longrightarrow> contents s' = [] \<and> e = Some (failure s))"
begin

lemma read_cases:
  assumes "ok s" "0 < n"
  obtains (data) bs s' where "rd s n = Some ((bs, None), s')" "ok s'" "0 < length bs" "length bs \<le> n"
      "contents s = bs @ contents s'" "failure s' = failure s"
  | (last) bs s' where "rd s n = Some ((bs, Some (failure s)), s')" "ok s'" "length bs \<le> n"
      "contents s = bs" "contents s' = []" "failure s' = failure s"
  using read [OF assms] by fastforce

lemma ReadFull_enough:
  assumes "ok s" "n \<le> length acc + length (contents s)" "length acc \<le> n"
  shows "\<exists>s'. ReadFull rd n acc s = Some ((acc @ take (n - length acc) (contents s), None), s') \<and> ok s' \<and>
    contents s' = drop (n - length acc) (contents s) \<and> failure s' = failure s"
  using assms
proof (induction "n - length acc" arbitrary: acc s rule: less_induct)
  case less
  show ?case
  proof (cases "n \<le> length acc")
    case True
    then show ?thesis using less.prems by (subst ReadFull.simps) auto
  next
    case False
    then have "0 < n - length acc" by simp
    from less.prems(1) this show ?thesis
    proof (cases rule: read_cases)
      case (data bs s')
      then have "n - length (acc @ bs) < n - length acc" "n \<le> length (acc @ bs) + length (contents s')"
        "length (acc @ bs) \<le> n" using less.prems False by (auto simp del: length_greater_0_conv)
      then obtain t where "ReadFull rd n (acc @ bs) s' =
          Some (((acc @ bs) @ take (n - length (acc @ bs)) (contents s'), None), t)" "ok t"
        "contents t = drop (n - length (acc @ bs)) (contents s')" "failure t = failure s'"
        using less.hyps [of "acc @ bs" s'] data(2) by blast
      then show ?thesis using data False by (subst ReadFull.simps) auto
    next
      case (last bs s')
      then show ?thesis using less.prems False by (subst ReadFull.simps) auto
    qed
  qed
qed

lemma ReadFull_short:
  assumes "ok s" "length acc + length (contents s) < n"
  shows "\<exists>s'. ReadFull rd n acc s = Some ((acc @ contents s,
      Some (if acc @ contents s \<noteq> [] \<and> failure s = EOF then ErrUnexpectedEOF else failure s)), s')"
  using assms
proof (induction "n - length acc" arbitrary: acc s rule: less_induct)
  case less
  then have "0 < n - length acc" by simp
  from less.prems(1) this show ?case
  proof (cases rule: read_cases)
    case (data bs s')
    then have "n - length (acc @ bs) < n - length acc" "length (acc @ bs) + length (contents s') < n"
      using less.prems by (auto simp del: length_greater_0_conv)
    then have "\<exists>t. ReadFull rd n (acc @ bs) s' = Some (((acc @ bs) @ contents s',
        Some (if (acc @ bs) @ contents s' \<noteq> [] \<and> failure s' = EOF then ErrUnexpectedEOF else failure s')), t)"
      using less.hyps [of "acc @ bs" s'] data(2) by blast
    then show ?thesis using data less.prems by (subst ReadFull.simps) auto
  next
    case (last bs s')
    then show ?thesis using less.prems by (subst ReadFull.simps) auto
  qed
qed

lemma discard_enough:
  assumes "ok s" "n \<le> length (contents s)"
  shows "\<exists>e s'. discard rd n s = Some ((0, e), s') \<and> ok s' \<and> contents s' = drop n (contents s) \<and> failure s' = failure s"
  using assms
proof (induction n arbitrary: s rule: less_induct)
  case (less n)
  show ?case
  proof (cases "n = 0")
    case True
    then show ?thesis using less.prems by (subst discard.simps) simp
  next
    case False
    then have "0 < min 8192 n" by simp
    from less.prems(1) this show ?thesis
    proof (cases rule: read_cases)
      case (data bs s')
      then have "\<exists>e t. discard rd (n - length bs) s' = Some ((0, e), t) \<and> ok t \<and>
          contents t = drop (n - length bs) (contents s') \<and> failure t = failure s'"
        using less.IH [of "n - length bs" s'] less.prems False by fastforce
      then show ?thesis using data False by (subst discard.simps) auto
    next
      case (last bs s')
      then show ?thesis using less.prems False by (subst discard.simps) auto
    qed
  qed
qed

lemma discard_short:
  assumes "ok s" "length (contents s) < n"
  shows "\<exists>k s'. discard rd n s = Some ((k, if failure s = EOF then None else Some (failure s)), s') \<and> k > 0"
  using assms
proof (induction n arbitrary: s rule: less_induct)
  case (less n)
  then have "0 < min 8192 n" by simp
  from less.prems(1) this show ?case
  proof (cases rule: read_cases)
    case (data bs s')
    then have "\<exists>k t. discard rd (n - length bs) s' =
        Some ((k, if failure s' = EOF then None else Some (failure s')), t) \<and> k > 0"
      using less.IH [of "n - length bs" s'] less.prems by fastforce
    then show ?thesis using data less.prems by (subst discard.simps) auto
  next
    case (last bs s')
    then show ?thesis using less.prems by (subst discard.simps) auto
  qed
qed

lemma CopyN_enough:
  assumes "ok s" "n \<le> length (contents s)"
  shows "\<exists>s'. CopyN rd n s = Some (None, s') \<and> ok s' \<and> contents s' = drop n (contents s) \<and> failure s' = failure s"
  using discard_enough [OF assms] by (auto simp: CopyN_def)

lemma CopyN_short:
  assumes "ok s" "length (contents s) < n"
  shows "\<exists>s'. CopyN rd n s = Some (Some (failure s), s')"
  using discard_short [OF assms] by (auto simp: CopyN_def)

end

section \<open>A buffered reader keeps the contract\<close>

definition Reader_ok :: "('s \<Rightarrow> bool) \<Rightarrow> ('s \<Rightarrow> bytes) \<Rightarrow> ('s \<Rightarrow> io_error) \<Rightarrow> 's Reader \<Rightarrow> bool" where
  "Reader_ok ok contents failure b \<longleftrightarrow> ok (b_rd b) \<and>
     (b_err b \<noteq> None \<longrightarrow> contents (b_rd b) = [] \<and> b_err b = Some (failure (b_rd b)))"

definition Reader_contents :: "('s \<Rightarrow> bytes) \<Rightarrow> 's Reader \<Rightarrow> bytes" where
  "Reader_contents contents b = b_buf b @ contents (b_rd b)"

lemmas Reader_defs = Reader_ok_def Reader_contents_def readErr_def

context byte_source
begin

lemma Reader_Read_correct:
  assumes "Reader_ok ok contents failure b" "0 < n"
  shows "\<exists>bs e b'. Reader_Read rd b n = Some ((bs, e), b') \<and> Reader_ok ok contents failure b' \<and>
    length bs \<le> n \<and> Reader_contents contents b = bs @ Reader_contents contents b' \<and>
    failure (b_rd b') = failure (b_rd b) \<and> (bs = [] \<longrightarrow> e \<noteq> None) \<and>
    (e \<noteq> None \<longrightarrow> Reader_contents contents b' = [] \<and> e = Some (failure (b_rd b)))"
proof (cases "b_buf b = [] \<and> b_err b = None")
  case True
  have ok: "ok (b_rd b)" using assms(1) by (simp add: Reader_ok_def)
  have 4: "0 < defaultBufSize" by (simp add: defaultBufSize_def)
  show ?thesis
  proof (cases "defaultBufSize \<le> n")
    case large: True
    from ok assms(2) show ?thesis
      by (cases rule: read_cases) (use True large assms in \<open>auto simp: Reader_Read_def Reader_defs\<close>)
  next
    case False
    from ok 4 show ?thesis
      by (cases rule: read_cases) (use True False assms in \<open>auto simp: Reader_Read_def Reader_defs Let_def\<close>)
  qed
next
  case False
  then show ?thesis using assms by (auto simp: Reader_Read_def Reader_defs)
qed

lemma fill_correct:
  assumes "Reader_ok ok contents failure b" "b_buf b = []" "b_err b = None"
  shows "\<exists>b'. fill rd (Suc i) b = Some b' \<and> Reader_ok ok contents failure b' \<and>
    Reader_contents contents b' = Reader_contents contents b \<and> failure (b_rd b') = failure (b_rd b) \<and>
    (b_buf b' = [] \<longrightarrow> b_err b' \<noteq> None)"
proof -
  have ok: "ok (b_rd b)" using assms(1) by (simp add: Reader_ok_def)
  have 4: "0 < defaultBufSize" by (simp add: defaultBufSize_def)
  from ok 4 show ?thesis
    by (cases rule: read_cases) (use assms in \<open>auto simp: Reader_defs\<close>)
qed

lemma ReadByte_held: "b_buf b = x # xs \<Longrightarrow> ReadByte rd b = Some (Inr x, b\<lparr>b_buf := xs\<rparr>)"
  by (subst ReadByte.simps) simp

lemma ReadByte_err: "b_buf b = [] \<Longrightarrow> b_err b = Some e \<Longrightarrow> ReadByte rd b = Some (Inl e, b\<lparr>b_err := None\<rparr>)"
  by (subst ReadByte.simps) (simp add: readErr_def)

lemma ReadByte_correct:
  assumes "Reader_ok ok contents failure b"
  shows "\<exists>r b'. ReadByte rd b = Some (r, b') \<and> Reader_ok ok contents failure b' \<and> failure (b_rd b') = failure (b_rd b) \<and>
    (case r of Inr x \<Rightarrow> Reader_contents contents b = x # Reader_contents contents b'
     | Inl e \<Rightarrow> Reader_contents contents b = [] \<and> Reader_contents contents b' = [] \<and> e = failure (b_rd b))"
proof -
  have held: ?thesis if "Reader_ok ok contents failure c" "Reader_contents contents c = Reader_contents contents b"
    "failure (b_rd c) = failure (b_rd b)" "b_buf c = [] \<longrightarrow> b_err c \<noteq> None" "ReadByte rd b = ReadByte rd c" for c
    using that ReadByte_held [of c] ReadByte_err [of c]
    by (cases "b_buf c") (auto simp: Reader_defs)
  show ?thesis
  proof (cases "b_buf b = [] \<and> b_err b = None")
    case True
    then obtain c where c: "fill rd maxConsecutiveEmptyReads b = Some c" "Reader_ok ok contents failure c"
      "Reader_contents contents c = Reader_contents contents b" "failure (b_rd c) = failure (b_rd b)"
      "b_buf c = [] \<longrightarrow> b_err c \<noteq> None"
      using fill_correct [OF assms, of 99] by (auto simp: maxConsecutiveEmptyReads_def)
    have "ReadByte rd b = ReadByte rd c" using True c(1) by (subst ReadByte.simps) simp
    with c show ?thesis by (intro held)
  next
    case False
    then show ?thesis using assms by (intro held) auto
  qed
qed

lemma ReadByte_Cons:
  assumes "Reader_ok ok contents failure b" "Reader_contents contents b = x # rest"
  obtains b' where "ReadByte rd b = Some (Inr x, b')" "Reader_ok ok contents failure b'"
    "Reader_contents contents b' = rest" "failure (b_rd b') = failure (b_rd b)"
proof -
  obtain r b' where "ReadByte rd b = Some (r, b')" "Reader_ok ok contents failure b'" "failure (b_rd b') = failure (b_rd b)"
    "case r of Inr y \<Rightarrow> x # rest = y # Reader_contents contents b' | Inl e \<Rightarrow> False"
    using ReadByte_correct [OF assms(1)] assms(2) by (force split: sum.splits)
  then show thesis by (cases r) (auto intro: that)
qed

lemma ReadByte_Nil:
  assumes "Reader_ok ok contents failure b" "Reader_contents contents b = []"
  obtains b' where "ReadByte rd b = Some (Inl (failure (b_rd b)), b')"
proof -
  obtain r b' where "ReadByte rd b = Some (r, b')" "case r of Inr y \<Rightarrow> False | Inl e \<Rightarrow> e = failure (b_rd b)"
    using ReadByte_correct [OF assms(1)] assms(2) by (force split: sum.splits)
  then show thesis by (cases r) (auto intro: that)
qed

end

locale buffered_source = byte_source

sublocale buffered_source \<subseteq> buffered: byte_source "Reader_Read rd" "Reader_ok ok contents failure"
  "Reader_contents contents" "\<lambda>b. failure (b_rd b)"
  by unfold_locales (rule Reader_Read_correct)

section \<open>Integers of variable length from a reader\<close>

text \<open>What \<open>quicvarint.Read\<close> promises of a reader: the bytes after an integer and how the reader would fail
  after them play no part, and an error at the first byte is passed on.\<close>

locale varint_reader = quicvarint q for q +
  assumes read_prefix: "vread q b e = Inr (v, n) \<Longrightarrow> vread q (take n b @ rest) e' = Inr (v, n)"
    and read_Nil: "vread q [] e = Inl e"
begin

lemma read_longer: "vread q b e = Inr (v, n) \<Longrightarrow> vread q (b @ rest) e' = Inr (v, n)"
  using read_prefix [of b e v n "drop n b @ rest" e'] by (metis append_assoc append_take_drop_id)

end

locale varint_source = varint_reader q + buffered_source rd ok contents failure for q rd ok contents failure
begin

lemma ReadVarint_byte:
  assumes "Reader_ok ok contents failure b" "Reader_contents contents b = x # rest"
  obtains b' where "ReadVarint q rd acc b = (case vread q (acc @ [x]) EOF of
      Inl _ \<Rightarrow> ReadVarint q rd (acc @ [x]) b' | Inr (v, n) \<Rightarrow> Some (Inr v, b'))"
    "Reader_ok ok contents failure b'" "Reader_contents contents b' = rest" "failure (b_rd b') = failure (b_rd b)"
proof -
  obtain b' where "ReadByte rd b = Some (Inr x, b')" "Reader_ok ok contents failure b'"
    "Reader_contents contents b' = rest" "failure (b_rd b') = failure (b_rd b)"
    using ReadByte_Cons [OF assms] .
  moreover from this(1) have "ReadVarint q rd acc b = (case vread q (acc @ [x]) EOF of
      Inl _ \<Rightarrow> ReadVarint q rd (acc @ [x]) b' | Inr (v, n) \<Rightarrow> Some (Inr v, b'))"
    by (subst ReadVarint.simps) simp
  ultimately show thesis using that by blast
qed

lemma ReadVarint_value:
  assumes "Reader_ok ok contents failure b" "vread q (acc @ Reader_contents contents b) e = Inr (v, n)" "length acc < n"
  shows "\<exists>b'. ReadVarint q rd acc b = Some (Inr v, b') \<and> Reader_ok ok contents failure b' \<and>
    Reader_contents contents b' = drop (n - length acc) (Reader_contents contents b) \<and> failure (b_rd b') = failure (b_rd b)"
  using assms
proof (induction "Reader_contents contents b" arbitrary: acc b)
  case Nil
  then show ?case using read_bounds [of acc e v n] by simp
next
  case (Cons x rest)
  obtain b' where b': "ReadVarint q rd acc b = (case vread q (acc @ [x]) EOF of
      Inl _ \<Rightarrow> ReadVarint q rd (acc @ [x]) b' | Inr (v, n) \<Rightarrow> Some (Inr v, b'))"
    "Reader_ok ok contents failure b'" "Reader_contents contents b' = rest" "failure (b_rd b') = failure (b_rd b)"
    using ReadVarint_byte [OF Cons.prems(1) Cons.hyps(2) [symmetric]] .
  have whole: "vread q ((acc @ [x]) @ rest) e = Inr (v, n)" using Cons.prems(2) Cons.hyps(2) [symmetric] by simp
  show ?case
  proof (cases "vread q (acc @ [x]) EOF")
    case (Inl e')
    have "length acc + 1 \<noteq> n"
      using read_prefix [OF whole, of "[]" EOF] Inl by auto
    moreover have "drop (n - length acc) (x # rest) = drop (n - Suc (length acc)) rest"
      using Cons.prems(3) by (simp add: drop_Cons')
    ultimately show ?thesis
      using Cons.hyps(1) [of b' "acc @ [x]"] b' whole Inl Cons.prems(3) Cons.hyps(2) [symmetric] by auto
  next
    case (Inr r)
    obtain v' n' where r: "r = (v', n')" by fastforce
    have "v' = v" "n' = n" using read_longer [of "acc @ [x]" EOF v' n' rest e] Inr r whole by auto
    moreover have "n' \<le> length acc + 1" using read_bounds [of "acc @ [x]" EOF v' n'] Inr r by simp
    ultimately show ?thesis using b' Inr r Cons.prems(3) Cons.hyps(2) [symmetric]
      by (auto simp: le_Suc_eq)
  qed
qed

lemma ReadVarint_fails:
  assumes "Reader_ok ok contents failure b" "vread q (acc @ Reader_contents contents b) (failure (b_rd b)) = Inl e"
  shows "\<exists>b'. ReadVarint q rd acc b = Some (Inl e, b')"
  using assms
proof (induction "Reader_contents contents b" arbitrary: acc b)
  case Nil
  then obtain b' where "ReadByte rd b = Some (Inl (failure (b_rd b)), b')"
    using ReadByte_Nil [OF Nil.prems(1)] by metis
  then show ?case using Nil by (subst ReadVarint.simps) simp
next
  case (Cons x rest)
  obtain b' where b': "ReadVarint q rd acc b = (case vread q (acc @ [x]) EOF of
      Inl _ \<Rightarrow> ReadVarint q rd (acc @ [x]) b' | Inr (v, n) \<Rightarrow> Some (Inr v, b'))"
    "Reader_ok ok contents failure b'" "Reader_contents contents b' = rest" "failure (b_rd b') = failure (b_rd b)"
    using ReadVarint_byte [OF Cons.prems(1) Cons.hyps(2) [symmetric]] .
  have whole: "vread q ((acc @ [x]) @ rest) (failure (b_rd b)) = Inl e"
    using Cons.prems(2) Cons.hyps(2) [symmetric] by simp
  then obtain e' where "vread q (acc @ [x]) EOF = Inl e'"
    using read_longer [of "acc @ [x]" EOF _ _ rest "failure (b_rd b)"] by (cases "vread q (acc @ [x]) EOF") auto
  then show ?case using Cons.hyps(1) [of b' "acc @ [x]"] b' whole by simp
qed

end

lemma rfc_parse_prefix:
  assumes "rfc_parse b = Some (v, n)"
  shows "rfc_parse (take n b @ rest) = Some (v, n)"
proof -
  from assms obtain x xs where b: "b = x # xs" and n: "n = 2 ^ (unat x div 64)" and len: "n \<le> length b"
    and v: "v = of_nat (be_value (take n b) mod 2 ^ (8 * n - 2))"
    by (auto simp: rfc_parse_def Let_def split: list.splits if_splits)
  have "0 < n" using n by simp
  then have "take n b @ rest = x # (take (n - 1) xs @ rest)" using b by (cases n) auto
  moreover have "take n (take n b @ rest) = take n b" using len by simp
  moreover have "n \<le> length (take n b @ rest)" using len by simp
  ultimately show ?thesis using n v by (simp add: rfc_parse_def Let_def)
qed

interpretation rfc_read: varint_reader rfc9000
  by unfold_locales
    (auto simp: rfc9000_def rfc_read_def rfc_parse_def [of "[]"] rfc_parse_prefix split: option.splits)

end
