(* ===== verification/Transports.thy ===== *)
theory Transports
  imports Byte_Readers Conn_API
begin

text \<open>
  The transports that carry records (\<open>transport.go\<close>) and the adapter of a message connection to a byte
  stream (\<open>adapter.go\<close>). A \<open>net.Conn\<close> and a \<open>MessageConn\<close> are given by the application: each is a
  record of its methods on a state of any type, an optional method being one that a type assertion
  may not find. \<open>NetConn\<close> makes the methods of a \<open>net.Conn\<close> from those of a \<open>MessageConn\<close>;
  \<open>stream_transport\<close> and \<open>message_transport\<close> make those of a \<open>recordTransport\<close>.

  The locales say what is documented of the two kinds of connections, and what a transport
  promises of the records: \<open>record_channel\<close> is proved for each transport, so that a connection sees
  the same records over a byte stream, over messages and over messages used as a byte stream.
\<close>

section \<open>Connections that the application gives\<close>

datatype Addr = Addr (Network: string) (Addr_String: string)

definition unknownAddr :: Addr where
  "unknownAddr = Addr ''qmux'' ''unknown''"

record 's net_conn =
  nc_Read :: "'s io_reader"
  nc_Write :: "bytes \<Rightarrow> 's \<Rightarrow> (nat \<times> io_error option) \<times> 's"
  nc_Close :: "'s \<Rightarrow> io_error option \<times> 's"
  nc_CloseWrite :: "('s \<Rightarrow> io_error option \<times> 's) option"
  nc_LocalAddr :: Addr
  nc_RemoteAddr :: Addr
  nc_SetDeadline :: "int \<Rightarrow> 's \<Rightarrow> io_error option \<times> 's"
  nc_SetReadDeadline :: "int \<Rightarrow> 's \<Rightarrow> io_error option \<times> 's"
  nc_SetWriteDeadline :: "int \<Rightarrow> 's \<Rightarrow> io_error option \<times> 's"

record 'm MessageConn =
  mc_ReadMessage :: "'m \<Rightarrow> (io_error + bytes) \<times> 'm"
  mc_WriteMessage :: "bytes \<Rightarrow> 'm \<Rightarrow> io_error option \<times> 'm"
  mc_Close :: "'m \<Rightarrow> io_error option \<times> 'm"
  mc_LocalAddr :: "Addr option"
  mc_RemoteAddr :: "Addr option"
  mc_SetDeadline :: "(int \<Rightarrow> 'm \<Rightarrow> io_error option \<times> 'm) option"
  mc_SetReadDeadline :: "(int \<Rightarrow> 'm \<Rightarrow> io_error option \<times> 'm) option"
  mc_SetWriteDeadline :: "(int \<Rightarrow> 'm \<Rightarrow> io_error option \<times> 'm) option"

section \<open>The adapter\<close>

record 'm messageConnAdapter =
  a_mc :: 'm
  a_buf :: bytes

partial_function (option) adapter_Read ::
  "'m MessageConn \<Rightarrow> 'm messageConnAdapter \<Rightarrow> nat \<Rightarrow>
   ((bytes \<times> io_error option) \<times> 'm messageConnAdapter) option"
where
  "adapter_Read mc a n =
     (if a_buf a = []
      then case mc_ReadMessage mc (a_mc a) of
             (Inl e, m) \<Rightarrow> Some (([], Some e), a\<lparr>a_mc := m\<rparr>)
           | (Inr p, m) \<Rightarrow> adapter_Read mc (a\<lparr>a_mc := m, a_buf := p\<rparr>) n
      else Some ((take n (a_buf a), None), a\<lparr>a_buf := drop n (a_buf a)\<rparr>))"

definition adapter_Write ::
  "'m MessageConn \<Rightarrow> bytes \<Rightarrow> 'm messageConnAdapter \<Rightarrow> (nat \<times> io_error option) \<times> 'm messageConnAdapter" where
  "adapter_Write mc b a =
     (case mc_WriteMessage mc b (a_mc a) of
        (Some e, m) \<Rightarrow> ((0, Some e), a\<lparr>a_mc := m\<rparr>)
      | (None, m) \<Rightarrow> ((length b, None), a\<lparr>a_mc := m\<rparr>))"

text \<open>A call of a method of the message connection, and of one that it may not have.\<close>

definition adapter_call ::
  "('m \<Rightarrow> io_error option \<times> 'm) \<Rightarrow> 'm messageConnAdapter \<Rightarrow> io_error option \<times> 'm messageConnAdapter" where
  "adapter_call f a = (let (e, m) = f (a_mc a) in (e, a\<lparr>a_mc := m\<rparr>))"

definition adapter_Close :: "'m MessageConn \<Rightarrow> 'm messageConnAdapter \<Rightarrow> io_error option \<times> 'm messageConnAdapter" where
  "adapter_Close mc = adapter_call (mc_Close mc)"

definition adapter_deadline ::
  "(int \<Rightarrow> 'm \<Rightarrow> io_error option \<times> 'm) option \<Rightarrow> int \<Rightarrow> 'm messageConnAdapter \<Rightarrow>
   io_error option \<times> 'm messageConnAdapter" where
  "adapter_deadline m t a = (case m of Some f \<Rightarrow> adapter_call (f t) a | None \<Rightarrow> (None, a))"

definition adapter_SetDeadline where
  "adapter_SetDeadline mc = adapter_deadline (mc_SetDeadline mc)"

definition adapter_SetReadDeadline where
  "adapter_SetReadDeadline mc = adapter_deadline (mc_SetReadDeadline mc)"

definition adapter_SetWriteDeadline where
  "adapter_SetWriteDeadline mc = adapter_deadline (mc_SetWriteDeadline mc)"

definition adapter_LocalAddr :: "'m MessageConn \<Rightarrow> Addr" where
  "adapter_LocalAddr mc = (case mc_LocalAddr mc of Some a \<Rightarrow> a | None \<Rightarrow> unknownAddr)"

definition adapter_RemoteAddr :: "'m MessageConn \<Rightarrow> Addr" where
  "adapter_RemoteAddr mc = (case mc_RemoteAddr mc of Some a \<Rightarrow> a | None \<Rightarrow> unknownAddr)"

text \<open>\<open>NetConn\<close>: the adapter has no method \<open>CloseWrite\<close>.\<close>

definition NetConn :: "'m MessageConn \<Rightarrow> 'm messageConnAdapter net_conn" where
  "NetConn mc =
     \<lparr>nc_Read = adapter_Read mc, nc_Write = adapter_Write mc, nc_Close = adapter_Close mc, nc_CloseWrite = None,
      nc_LocalAddr = adapter_LocalAddr mc, nc_RemoteAddr = adapter_RemoteAddr mc,
      nc_SetDeadline = adapter_SetDeadline mc, nc_SetReadDeadline = adapter_SetReadDeadline mc,
      nc_SetWriteDeadline = adapter_SetWriteDeadline mc\<rparr>"

definition new_adapter :: "'m \<Rightarrow> 'm messageConnAdapter" where
  "new_adapter m = \<lparr>a_mc = m, a_buf = []\<rparr>"

section \<open>Record transports\<close>

record 't recordTransport =
  rt_readRecord :: "'t \<Rightarrow> ((go_error + bytes) \<times> 't) option"
  rt_writeRecord :: "bytes \<Rightarrow> 't \<Rightarrow> ((nat \<times> go_error option) \<times> 't) option"
  rt_closeWrite :: "'t \<Rightarrow> bool \<times> 't"
  rt_expire :: "int \<Rightarrow> 't \<Rightarrow> 't"
  rt_close :: "'t \<Rightarrow> io_error option \<times> 't"
  rt_localAddr :: Addr
  rt_remoteAddr :: Addr

definition recordTooLarge :: "u64 \<Rightarrow> u64 \<Rightarrow> go_error" where
  "recordTooLarge sz limit =
     WireError \<lparr>Code = FrameEncodingError,
       Reason = ''record of '' @ show_dec sz @ '' bytes exceeds max_record_size '' @ show_dec limit\<rparr>"

subsection \<open>Records on a byte stream\<close>

text \<open>\<open>b_rd (st_br t)\<close> is the state of the connection \<open>t.conn\<close>, which its \<open>bufio.Reader\<close> reads from. \<open>st_buf\<close> is
  the slice \<open>t.buf\<close>, as far as the last read has filled it, and \<open>st_cap\<close> its capacity.\<close>

record 's streamTransport =
  st_br :: "'s Reader"
  st_buf :: bytes
  st_cap :: nat
  st_max :: u64

definition newStreamTransport :: "'s \<Rightarrow> u64 \<Rightarrow> 's streamTransport" where
  "newStreamTransport conn maxRecordSize =
     \<lparr>st_br = NewReader conn, st_buf = [], st_cap = 0, st_max = maxRecordSize\<rparr>"

definition stream_readRecord ::
  "codec \<Rightarrow> 's net_conn \<Rightarrow> 's streamTransport \<Rightarrow> ((go_error + bytes) \<times> 's streamTransport) option" where
  "stream_readRecord q nc t = do {
     (r, br) \<leftarrow> ReadVarint q (nc_Read nc) [] (st_br t);
     let t = t\<lparr>st_br := br\<rparr> in
     case r of
       Inl e \<Rightarrow> Some (Inl (IO e), t)
     | Inr sz \<Rightarrow>
       if sz > st_max t
       then do {
         (err, br) \<leftarrow> CopyN (Reader_Read (nc_Read nc)) (nat (sint sz)) (st_br t);
         let t = t\<lparr>st_br := br\<rparr> in
         Some (Inl (case err of Some e \<Rightarrow> IO e | None \<Rightarrow> recordTooLarge sz (st_max t)), t)
       }
       else do {
         let t = (if of_nat (st_cap t) < sz then t\<lparr>st_cap := unat sz\<rparr> else t);
         ((buf, err), br) \<leftarrow> ReadFull (Reader_Read (nc_Read nc)) (unat sz) [] (st_br t);
         let t = t\<lparr>st_br := br, st_buf := buf\<rparr> in
         Some (case err of
                 Some e \<Rightarrow> (Inl (IO (if e = EOF then ErrUnexpectedEOF else e)), t)
               | None \<Rightarrow> (Inr (st_buf t), t))
       }
   }"

text \<open>\<open>writeRecord\<close>: \<open>quicvarint.Append(buf[start:start], size)\<close> overwrites the bytes of \<open>buf\<close> from \<open>start\<close>. A
  buffer without the headroom, or a size that is no varint, panics.\<close>

definition stream_writeRecord ::
  "codec \<Rightarrow> 's net_conn \<Rightarrow> bytes \<Rightarrow> 's streamTransport \<Rightarrow> ((nat \<times> go_error option) \<times> 's streamTransport) option" where
  "stream_writeRecord q nc buf t =
     (let sz = u64_len buf - of_nat recordHeadroom
      in if recordHeadroom < vlen q sz then None
         else
           let start = recordHeadroom - vlen q sz
           in do {
             bs \<leftarrow> vappend q sz;
             let buf = take start buf @ bs @ drop (start + length bs) buf;
                 ((n, err), s) = nc_Write nc (drop start buf) (b_rd (st_br t)) in
             Some ((n, map_option IO err), t\<lparr>st_br := (st_br t)\<lparr>b_rd := s\<rparr>\<rparr>)
           })"

text \<open>A call of a method of the connection.\<close>

definition stream_call :: "('s \<Rightarrow> 'a \<times> 's) \<Rightarrow> 's streamTransport \<Rightarrow> 'a \<times> 's streamTransport" where
  "stream_call f t = (let (r, s) = f (b_rd (st_br t)) in (r, t\<lparr>st_br := (st_br t)\<lparr>b_rd := s\<rparr>\<rparr>))"

definition stream_closeWrite :: "'s net_conn \<Rightarrow> 's streamTransport \<Rightarrow> bool \<times> 's streamTransport" where
  "stream_closeWrite nc t =
     (case nc_CloseWrite nc of
        None \<Rightarrow> (False, t)
      | Some f \<Rightarrow> let (e, t) = stream_call f t in (e = None, t))"

definition stream_expire :: "'s net_conn \<Rightarrow> int \<Rightarrow> 's streamTransport \<Rightarrow> 's streamTransport" where
  "stream_expire nc deadline t = snd (stream_call (nc_SetWriteDeadline nc deadline) t)"

definition stream_close :: "'s net_conn \<Rightarrow> 's streamTransport \<Rightarrow> io_error option \<times> 's streamTransport" where
  "stream_close nc t = stream_call (nc_Close nc) t"

definition stream_transport :: "codec \<Rightarrow> 's net_conn \<Rightarrow> 's streamTransport recordTransport" where
  "stream_transport q nc =
     \<lparr>rt_readRecord = stream_readRecord q nc, rt_writeRecord = stream_writeRecord q nc,
      rt_closeWrite = stream_closeWrite nc, rt_expire = stream_expire nc, rt_close = stream_close nc,
      rt_localAddr = nc_LocalAddr nc, rt_remoteAddr = nc_RemoteAddr nc\<rparr>"

subsection \<open>Records as messages\<close>

record 'm messageTransport =
  mt_mc :: 'm
  mt_max :: u64

definition message_readRecord ::
  "'m MessageConn \<Rightarrow> 'm messageTransport \<Rightarrow> ((go_error + bytes) \<times> 'm messageTransport) option" where
  "message_readRecord mc t =
     (let (r, m) = mc_ReadMessage mc (mt_mc t); t = t\<lparr>mt_mc := m\<rparr>
      in case r of
           Inl e \<Rightarrow> Some (Inl (IO e), t)
         | Inr p \<Rightarrow> if u64_len p > mt_max t then Some (Inl (recordTooLarge (u64_len p) (mt_max t)), t)
                    else Some (Inr p, t))"

definition message_writeRecord ::
  "'m MessageConn \<Rightarrow> bytes \<Rightarrow> 'm messageTransport \<Rightarrow> ((nat \<times> go_error option) \<times> 'm messageTransport) option" where
  "message_writeRecord mc buf t =
     (if length buf < recordHeadroom then None
      else case mc_WriteMessage mc (drop recordHeadroom buf) (mt_mc t) of
        (Some e, m) \<Rightarrow> Some ((0, Some (IO e)), t\<lparr>mt_mc := m\<rparr>)
      | (None, m) \<Rightarrow> Some ((length buf - recordHeadroom, None), t\<lparr>mt_mc := m\<rparr>))"

definition message_closeWrite :: "'m messageTransport \<Rightarrow> bool \<times> 'm messageTransport" where
  "message_closeWrite t = (False, t)"

definition message_expire :: "'m MessageConn \<Rightarrow> int \<Rightarrow> 'm messageTransport \<Rightarrow> 'm messageTransport" where
  "message_expire mc deadline t =
     (case mc_SetWriteDeadline mc of
        Some f \<Rightarrow> t\<lparr>mt_mc := snd (f deadline (mt_mc t))\<rparr>
      | None \<Rightarrow> t)"

definition message_close :: "'m MessageConn \<Rightarrow> 'm messageTransport \<Rightarrow> io_error option \<times> 'm messageTransport" where
  "message_close mc t = (let (e, m) = mc_Close mc (mt_mc t) in (e, t\<lparr>mt_mc := m\<rparr>))"

definition message_localAddr :: "'m MessageConn \<Rightarrow> Addr" where
  "message_localAddr mc = (case mc_LocalAddr mc of Some a \<Rightarrow> a | None \<Rightarrow> unknownAddr)"

definition message_remoteAddr :: "'m MessageConn \<Rightarrow> Addr" where
  "message_remoteAddr mc = (case mc_RemoteAddr mc of Some a \<Rightarrow> a | None \<Rightarrow> unknownAddr)"

definition message_transport :: "'m MessageConn \<Rightarrow> 'm messageTransport recordTransport" where
  "message_transport mc =
     \<lparr>rt_readRecord = message_readRecord mc, rt_writeRecord = message_writeRecord mc,
      rt_closeWrite = message_closeWrite, rt_expire = message_expire mc, rt_close = message_close mc,
      rt_localAddr = message_localAddr mc, rt_remoteAddr = message_remoteAddr mc\<rparr>"

section \<open>The start of a connection\<close>

text \<open>The transport and the connection that \<open>Dial\<close>, \<open>Server\<close>, \<open>DialMessages\<close> and \<open>ServerMessages\<close> start.\<close>

definition Dial :: "codec \<Rightarrow> 's \<Rightarrow> Config option \<Rightarrow> int \<Rightarrow> 's streamTransport \<times> Conn" where
  "Dial q conn config now =
     (let cfg = normalized q config in (newStreamTransport conn (cf_MaxRecordSize cfg), newConn cfg False now))"

definition Server :: "codec \<Rightarrow> 's \<Rightarrow> Config option \<Rightarrow> int \<Rightarrow> 's streamTransport \<times> Conn" where
  "Server q conn config now =
     (let cfg = normalized q config in (newStreamTransport conn (cf_MaxRecordSize cfg), newConn cfg True now))"

definition DialMessages :: "codec \<Rightarrow> 'm \<Rightarrow> Config option \<Rightarrow> int \<Rightarrow> 'm messageTransport \<times> Conn" where
  "DialMessages q mc config now =
     (let cfg = normalized q config in (\<lparr>mt_mc = mc, mt_max = cf_MaxRecordSize cfg\<rparr>, newConn cfg False now))"

definition ServerMessages :: "codec \<Rightarrow> 'm \<Rightarrow> Config option \<Rightarrow> int \<Rightarrow> 'm messageTransport \<times> Conn" where
  "ServerMessages q mc config now =
     (let cfg = normalized q config in (\<lparr>mt_mc = mc, mt_max = cf_MaxRecordSize cfg\<rparr>, newConn cfg True now))"

section \<open>Sequences of records\<close>

text \<open>The records that a connection writes, one after the other, up to the first error, and the results of
  a number of reads.\<close>

fun write_records ::
  "(bytes \<Rightarrow> 't \<Rightarrow> ((nat \<times> go_error option) \<times> 't) option) \<Rightarrow> bytes list \<Rightarrow> 't \<Rightarrow> (go_error option \<times> 't) option"
where
  "write_records writeRecord [] t = Some (None, t)"
| "write_records writeRecord (p # ps) t = do {
     ((n, err), t) \<leftarrow> writeRecord (new_record @ p) t;
     if err \<noteq> None then Some (err, t) else write_records writeRecord ps t
   }"

fun read_records ::
  "('t \<Rightarrow> ((go_error + bytes) \<times> 't) option) \<Rightarrow> nat \<Rightarrow> 't \<Rightarrow> ((go_error + bytes) list \<times> 't) option"
where
  "read_records readRecord 0 t = Some ([], t)"
| "read_records readRecord (Suc k) t = do {
     (r, t) \<leftarrow> readRecord t;
     (rs, t) \<leftarrow> read_records readRecord k t;
     Some (r # rs, t)
   }"

text \<open>What a read gives for a record: the record, or an error where it is larger than the limit.\<close>

definition received :: "u64 \<Rightarrow> bytes \<Rightarrow> go_error + bytes" where
  "received limit p = (if u64_len p > limit then Inl (recordTooLarge (u64_len p) limit) else Inr p)"

text \<open>A record with its Size field.\<close>

definition sized :: "codec \<Rightarrow> bytes \<Rightarrow> bytes" where
  "sized q p = the (vappend q (u64_len p)) @ p"

section \<open>Contracts\<close>

text \<open>A transport that has records to read: \<open>carries t ps\<close> if the next ones are \<open>ps\<close>. Every read takes
  exactly one of them, too large or not.\<close>

locale record_channel =
  fixes readRecord :: "'t \<Rightarrow> ((go_error + bytes) \<times> 't) option" and limit :: "'t \<Rightarrow> u64"
    and carries :: "'t \<Rightarrow> bytes list \<Rightarrow> bool"
  assumes next_record: "carries t (p # ps) \<Longrightarrow>
    \<exists>t'. readRecord t = Some (received (limit t) p, t') \<and> carries t' ps \<and> limit t' = limit t"
begin

lemma read_all:
  "carries t ps \<Longrightarrow> \<exists>t'. read_records readRecord (length ps) t = Some (map (received (limit t)) ps, t') \<and> carries t' []"
proof (induction ps arbitrary: t)
  case (Cons p ps)
  obtain t1 where "readRecord t = Some (received (limit t) p, t1)" "carries t1 ps" "limit t1 = limit t"
    using next_record [OF Cons.prems] by blast
  with Cons.IH [of t1] show ?case by auto
qed simp

end

text \<open>A transport that takes every record of a permitted length: \<open>out t\<close> is what it has put on its
  connection, to which it adds \<open>enc p\<close> for the record \<open>p\<close>.\<close>

locale record_sink =
  fixes writeRecord :: "bytes \<Rightarrow> 't \<Rightarrow> ((nat \<times> go_error option) \<times> 't) option" and fits :: "bytes \<Rightarrow> bool"
    and out :: "'t \<Rightarrow> 'o list" and enc :: "bytes \<Rightarrow> 'o list"
  assumes takes_record: "fits p \<Longrightarrow>
    \<exists>n t'. writeRecord (new_record @ p) t = Some ((n, None), t') \<and> out t' = out t @ enc p"
begin

lemma write_all:
  "list_all fits ps \<Longrightarrow>
   \<exists>t'. write_records writeRecord ps t = Some (None, t') \<and> out t' = out t @ concat (map enc ps)"
proof (induction ps arbitrary: t)
  case (Cons p ps)
  then obtain n t1 where "writeRecord (new_record @ p) t = Some ((n, None), t1)" "out t1 = out t @ enc p"
    using takes_record [of p t] by auto
  with Cons.IH [of t1] Cons.prems show ?case by auto
qed simp

end

text \<open>A \<open>net.Conn\<close> that takes all it is given, and a \<open>MessageConn\<close> that does so. \<open>message_source\<close> is a
  \<open>MessageConn\<close> that delivers the messages \<open>messages m\<close> and then fails.\<close>

locale byte_sink =
  fixes nc :: "'s net_conn" and sent :: "'s \<Rightarrow> bytes"
  assumes accepts: "\<exists>s'. nc_Write nc p s = ((length p, None), s') \<and> sent s' = sent s @ p"

locale message_sink =
  fixes mc :: "'m MessageConn" and posted :: "'m \<Rightarrow> bytes list"
  assumes post: "\<exists>m'. mc_WriteMessage mc p m = (None, m') \<and> posted m' = posted m @ [p]"

locale message_source =
  fixes mc :: "'m MessageConn" and messages :: "'m \<Rightarrow> bytes list" and failure :: "'m \<Rightarrow> io_error"
  assumes message: "messages m = p # ps \<Longrightarrow>
      \<exists>m'. mc_ReadMessage mc m = (Inr p, m') \<and> messages m' = ps \<and> failure m' = failure m"
    and no_message: "messages m = [] \<Longrightarrow>
      \<exists>m'. mc_ReadMessage mc m = (Inl (failure m), m') \<and> messages m' = [] \<and> failure m' = failure m"

section \<open>The byte stream transport keeps the contracts\<close>

locale stream_conn = varint_source q "nc_Read nc" ok contents failure for q and nc :: "'s net_conn" and ok contents failure

definition stream_ok :: "('s \<Rightarrow> bool) \<Rightarrow> ('s \<Rightarrow> bytes) \<Rightarrow> ('s \<Rightarrow> io_error) \<Rightarrow> 's streamTransport \<Rightarrow> bool" where
  "stream_ok ok contents failure t \<longleftrightarrow> Reader_ok ok contents failure (st_br t)"

definition stream_contents :: "('s \<Rightarrow> bytes) \<Rightarrow> 's streamTransport \<Rightarrow> bytes" where
  "stream_contents contents t = Reader_contents contents (st_br t)"

definition stream_carries ::
  "codec \<Rightarrow> ('s \<Rightarrow> bool) \<Rightarrow> ('s \<Rightarrow> bytes) \<Rightarrow> ('s \<Rightarrow> io_error) \<Rightarrow> bytes \<Rightarrow> 's streamTransport \<Rightarrow> bytes list \<Rightarrow> bool" where
  "stream_carries q ok contents failure rest t ps \<longleftrightarrow> stream_ok ok contents failure t \<and>
     list_all (\<lambda>p. length p < 2 ^ 62) ps \<and> stream_contents contents t = concat (map (sized q) ps) @ rest"

lemmas stream_defs = stream_ok_def stream_contents_def stream_carries_def

context quicvarint
begin

lemma sized_eq:
  assumes "length p < 2 ^ 62"
  obtains bs where "vappend q (u64_len p) = Some bs" "length bs = vlen q (u64_len p)" "length bs \<le> 8" "sized q p = bs @ p"
proof -
  obtain bs where "vappend q (u64_len p) = Some bs" "length bs = vlen q (u64_len p)"
    using append_fits size_fits [OF assms] by blast
  with append_length [of "u64_len p" bs] that show thesis by (simp add: sized_def)
qed

lemma stream_writeRecord_eq:
  assumes "length p < 2 ^ 62"
  shows "stream_writeRecord q nc (new_record @ p) t =
    (let ((n, err), s) = nc_Write nc (sized q p) (b_rd (st_br t))
     in Some ((n, map_option IO err), t\<lparr>st_br := (st_br t)\<lparr>b_rd := s\<rparr>\<rparr>))"
proof -
  obtain bs where bs: "vappend q (u64_len p) = Some bs" "length bs = vlen q (u64_len p)" "length bs \<le> 8" "sized q p = bs @ p"
    using sized_eq [OF assms] .
  have "u64_len (new_record @ p) - of_nat recordHeadroom = u64_len p"
    by (simp add: u64_len_def new_record_def)
  moreover have "drop (8 - length bs) (take (8 - length bs) (new_record @ p) @ bs @ drop (8 - length bs + length bs) (new_record @ p)) = bs @ p"
    using bs(3) by (simp add: new_record_def recordHeadroom_def)
  ultimately show ?thesis
    using bs by (simp add: stream_writeRecord_def recordHeadroom_def Let_def del: drop_append take_append)
qed

end

context stream_conn
begin

lemma stream_readRecord_size:
  assumes "stream_ok ok contents failure t" "vread q (stream_contents contents t) EOF = Inr (sz, n)"
  obtains br where "ReadVarint q (nc_Read nc) [] (st_br t) = Some (Inr sz, br)" "Reader_ok ok contents failure br"
    "Reader_contents contents br = drop n (stream_contents contents t)" "failure (b_rd br) = failure (b_rd (st_br t))"
    "sz \<le> vmax q"
  using ReadVarint_value [of "st_br t" "[]" EOF sz n] assms read_bounds [OF assms(2)] that by (auto simp: stream_defs)

lemma stream_readRecord_no_size:
  assumes "stream_ok ok contents failure t" "vread q (stream_contents contents t) (failure (b_rd (st_br t))) = Inl e"
  shows "\<exists>t'. stream_readRecord q nc t = Some (Inl (IO e), t')"
  using ReadVarint_fails [of "st_br t" "[]" e] assms by (auto simp: stream_defs stream_readRecord_def)

lemma stream_readRecord_large:
  assumes "stream_ok ok contents failure t" "vread q (stream_contents contents t) EOF = Inr (sz, n)" "st_max t < sz"
  shows "\<exists>err t'. stream_readRecord q nc t = Some (Inl err, t')"
proof -
  obtain br where br: "ReadVarint q (nc_Read nc) [] (st_br t) = Some (Inr sz, br)" "Reader_ok ok contents failure br"
    using stream_readRecord_size [OF assms(1,2)] by metis
  have "\<exists>e br'. CopyN (Reader_Read (nc_Read nc)) (nat (sint sz)) br = Some (e, br')"
    using buffered.CopyN_enough [OF br(2)] buffered.CopyN_short [OF br(2)] by (meson not_le)
  then show ?thesis using br(1) assms(3) by (auto simp: stream_readRecord_def Let_def)
qed

lemma stream_readRecord_skipped:
  assumes "stream_ok ok contents failure t" "vread q (stream_contents contents t) EOF = Inr (sz, n)" "st_max t < sz"
    "n + unat sz \<le> length (stream_contents contents t)"
  shows "\<exists>t'. stream_readRecord q nc t = Some (Inl (recordTooLarge sz (st_max t)), t') \<and>
    stream_ok ok contents failure t' \<and> stream_contents contents t' = drop (n + unat sz) (stream_contents contents t) \<and>
    st_max t' = st_max t"
proof -
  obtain br where br: "ReadVarint q (nc_Read nc) [] (st_br t) = Some (Inr sz, br)" "Reader_ok ok contents failure br"
    "Reader_contents contents br = drop n (stream_contents contents t)" "sz \<le> vmax q"
    using stream_readRecord_size [OF assms(1,2)] by metis
  have "nat (sint sz) = unat sz" using br(4) by (simp add: fits_iff sint_small)
  moreover have "unat sz \<le> length (Reader_contents contents br)" using assms(4) br(3) by simp
  ultimately obtain br' where "CopyN (Reader_Read (nc_Read nc)) (nat (sint sz)) br = Some (None, br')"
    "Reader_ok ok contents failure br'" "Reader_contents contents br' = drop (n + unat sz) (stream_contents contents t)"
    using buffered.CopyN_enough [OF br(2), of "unat sz"] br(3) by (auto simp: add.commute)
  then show ?thesis using br(1) assms(3) by (simp add: stream_readRecord_def stream_ok_def stream_contents_def)
qed

lemma stream_readRecord_whole:
  assumes "stream_ok ok contents failure t" "vread q (stream_contents contents t) EOF = Inr (sz, n)" "sz \<le> st_max t"
    "n + unat sz \<le> length (stream_contents contents t)"
  shows "\<exists>t'. stream_readRecord q nc t = Some (Inr (take (unat sz) (drop n (stream_contents contents t))), t') \<and>
    stream_ok ok contents failure t' \<and> stream_contents contents t' = drop (n + unat sz) (stream_contents contents t) \<and>
    st_max t' = st_max t"
proof -
  obtain br where br: "ReadVarint q (nc_Read nc) [] (st_br t) = Some (Inr sz, br)" "Reader_ok ok contents failure br"
    "Reader_contents contents br = drop n (stream_contents contents t)"
    using stream_readRecord_size [OF assms(1,2)] by metis
  have "unat sz \<le> length (Reader_contents contents br)" using assms(4) br(3) by simp
  then obtain br' where "ReadFull (Reader_Read (nc_Read nc)) (unat sz) [] br =
      Some ((take (unat sz) (drop n (stream_contents contents t)), None), br')"
    "Reader_ok ok contents failure br'" "Reader_contents contents br' = drop (n + unat sz) (stream_contents contents t)"
    using buffered.ReadFull_enough [OF br(2), of "unat sz" "[]"] br(3) by (auto simp: add.commute)
  then show ?thesis using br(1) leD [OF assms(3)] by (simp add: stream_readRecord_def stream_ok_def stream_contents_def Let_def)
qed

lemma stream_readRecord_truncated:
  assumes "stream_ok ok contents failure t" "vread q (stream_contents contents t) EOF = Inr (sz, n)" "sz \<le> st_max t"
    "length (stream_contents contents t) < n + unat sz"
  shows "\<exists>t'. stream_readRecord q nc t = Some (Inl (IO (if failure (b_rd (st_br t)) = EOF then ErrUnexpectedEOF
    else failure (b_rd (st_br t)))), t')"
proof -
  obtain br where br: "ReadVarint q (nc_Read nc) [] (st_br t) = Some (Inr sz, br)" "Reader_ok ok contents failure br"
    "Reader_contents contents br = drop n (stream_contents contents t)" "failure (b_rd br) = failure (b_rd (st_br t))"
    using stream_readRecord_size [OF assms(1,2)] by metis
  let ?p = "drop n (stream_contents contents t)" and ?e = "failure (b_rd (st_br t))"
  have "length ?p < unat sz" using assms(4) read_bounds [OF assms(2)] unfolding length_drop by arith
  then obtain br' where "ReadFull (Reader_Read (nc_Read nc)) (unat sz) [] br =
      Some ((?p, Some (if ?p \<noteq> [] \<and> ?e = EOF then ErrUnexpectedEOF else ?e)), br')"
    using buffered.ReadFull_short [OF br(2), of "[]" "unat sz"] br(3,4) by auto
  then show ?thesis using br(1) leD [OF assms(3)] by (simp add: stream_readRecord_def Let_def)
qed

lemma stream_readRecord_next:
  assumes "stream_ok ok contents failure t" "stream_contents contents t = sized q p @ rest" "length p < 2 ^ 62"
  shows "\<exists>t'. stream_readRecord q nc t = Some (received (st_max t) p, t') \<and> stream_ok ok contents failure t' \<and>
    stream_contents contents t' = rest \<and> st_max t' = st_max t"
proof -
  obtain bs where bs: "vappend q (u64_len p) = Some bs" "sized q p = bs @ p" using sized_eq [OF assms(3)] by metis
  have len: "unat (u64_len p) = length p" using size_fits [OF assms(3)] by simp
  have v: "vread q (stream_contents contents t) EOF = Inr (u64_len p, length bs)"
    using read_append [OF bs(1)] assms(2) bs(2) by simp
  show ?thesis
  proof (cases "u64_len p > st_max t")
    case True
    then show ?thesis using stream_readRecord_skipped [OF assms(1) v] assms(2) bs(2) len by (simp add: received_def)
  next
    case False
    then show ?thesis using stream_readRecord_whole [OF assms(1) v] assms(2) bs(2) len by (simp add: received_def)
  qed
qed

end

sublocale stream_conn \<subseteq> stream: record_channel "stream_readRecord q nc" st_max "stream_carries q ok contents failure rest" for rest
proof
  fix t p ps
  assume "stream_carries q ok contents failure rest t (p # ps)"
  then show "\<exists>t'. stream_readRecord q nc t = Some (received (st_max t) p, t') \<and>
      stream_carries q ok contents failure rest t' ps \<and> st_max t' = st_max t"
    using stream_readRecord_next [of t p "concat (map (sized q) ps) @ rest"] by (auto simp: stream_carries_def)
qed

locale stream_sink = quicvarint q + byte_sink nc sent for q and nc :: "'s net_conn" and sent

sublocale stream_sink \<subseteq> put: record_sink "stream_writeRecord q nc" "\<lambda>p. length p < 2 ^ 62"
  "\<lambda>t. sent (b_rd (st_br t))" "sized q"
proof
  fix p :: bytes and t :: "'s streamTransport"
  assume p: "length p < 2 ^ 62"
  obtain s' where "nc_Write nc (sized q p) (b_rd (st_br t)) = ((length (sized q p), None), s')"
    "sent s' = sent (b_rd (st_br t)) @ sized q p" using accepts by blast
  then show "\<exists>n t'. stream_writeRecord q nc (new_record @ p) t = Some ((n, None), t') \<and>
      sent (b_rd (st_br t')) = sent (b_rd (st_br t)) @ sized q p"
    using stream_writeRecord_eq [OF p, of nc t] by simp
qed

context stream_sink
begin

lemmas stream_write_all = put.write_all

end

context stream_conn
begin

lemmas stream_read_all = stream.read_all

end

section \<open>The message transport keeps the contracts\<close>

sublocale message_sink \<subseteq> put: record_sink "message_writeRecord mc" "\<lambda>p. True" "\<lambda>t. posted (mt_mc t)" "\<lambda>p. [p]"
proof
  fix p and t :: "'m messageTransport"
  obtain m' where "mc_WriteMessage mc p (mt_mc t) = (None, m')" "posted m' = posted (mt_mc t) @ [p]"
    using post by blast
  then show "\<exists>n t'. message_writeRecord mc (new_record @ p) t = Some ((n, None), t') \<and>
      posted (mt_mc t') = posted (mt_mc t) @ [p]"
    by (simp add: message_writeRecord_def new_record_def)
qed

sublocale message_source \<subseteq> channel: record_channel "message_readRecord mc" mt_max "\<lambda>t ps. messages (mt_mc t) = ps @ rest" for rest
proof
  fix t :: "'m messageTransport" and p ps
  assume "messages (mt_mc t) = (p # ps) @ rest"
  then obtain m' where "mc_ReadMessage mc (mt_mc t) = (Inr p, m')" "messages m' = ps @ rest"
    using message [of "mt_mc t" p "ps @ rest"] by auto
  then show "\<exists>t'. message_readRecord mc t = Some (received (mt_max t) p, t') \<and>
      messages (mt_mc t') = ps @ rest \<and> mt_max t' = mt_max t"
    by (simp add: message_readRecord_def received_def)
qed

context message_sink
begin

lemmas message_write_all = put.write_all

end

context message_source
begin

lemmas message_read_all = channel.read_all

end

section \<open>The adapter is a byte stream\<close>

context message_source
begin

abbreviation adapter_contents :: "'m messageConnAdapter \<Rightarrow> bytes" where
  "adapter_contents a \<equiv> a_buf a @ concat (messages (a_mc a))"

lemma adapter_Read_held:
  "a_buf a \<noteq> [] \<Longrightarrow> adapter_Read mc a n = Some ((take n (a_buf a), None), a\<lparr>a_buf := drop n (a_buf a)\<rparr>)"
  by (subst adapter_Read.simps) simp

lemma adapter_Read_correct:
  assumes "0 < n"
  shows "\<exists>bs e a'. adapter_Read mc a n = Some ((bs, e), a') \<and> length bs \<le> n \<and>
    adapter_contents a = bs @ adapter_contents a' \<and> failure (a_mc a') = failure (a_mc a) \<and> (bs = [] \<longrightarrow> e \<noteq> None) \<and>
    (e \<noteq> None \<longrightarrow> adapter_contents a' = [] \<and> e = Some (failure (a_mc a)))"
proof (induction "messages (a_mc a)" arbitrary: a)
  case Nil
  show ?case
  proof (cases "a_buf a = []")
    case True
    obtain m' where "mc_ReadMessage mc (a_mc a) = (Inl (failure (a_mc a)), m')" "messages m' = []"
      "failure m' = failure (a_mc a)" using no_message [of "a_mc a"] Nil by auto
    then show ?thesis using True Nil by (subst adapter_Read.simps) simp
  next
    case False
    then show ?thesis using assms adapter_Read_held [of a n] by simp
  qed
next
  case (Cons p ps)
  show ?case
  proof (cases "a_buf a = []")
    case True
    obtain m' where m': "mc_ReadMessage mc (a_mc a) = (Inr p, m')" "messages m' = ps" "failure m' = failure (a_mc a)"
      using message [of "a_mc a" p ps] Cons(2) by auto
    let ?a = "a\<lparr>a_mc := m', a_buf := p\<rparr>"
    have "adapter_Read mc a n = adapter_Read mc ?a n" using True m' by (subst adapter_Read.simps) simp
    moreover have "adapter_contents a = adapter_contents ?a" using True m'(2) Cons(2) [symmetric] by simp
    ultimately show ?thesis using Cons(1) [of ?a] m'(2,3) by simp
  next
    case False
    then show ?thesis using assms adapter_Read_held [of a n] by simp
  qed
qed

end

sublocale message_source \<subseteq> adapter: buffered_source "adapter_Read mc" "\<lambda>_. True"
  "\<lambda>a. a_buf a @ concat (messages (a_mc a))" "\<lambda>a. failure (a_mc a)"
  by unfold_locales (use adapter_Read_correct in blast)

sublocale message_sink \<subseteq> adapter: byte_sink "NetConn mc" "\<lambda>a. concat (posted (a_mc a))"
proof
  fix p and a :: "'m messageConnAdapter"
  obtain m' where "mc_WriteMessage mc p (a_mc a) = (None, m')" "posted m' = posted (a_mc a) @ [p]" using post by blast
  then show "\<exists>a'. nc_Write (NetConn mc) p a = ((length p, None), a') \<and>
      concat (posted (a_mc a')) = concat (posted (a_mc a)) @ p"
    by (simp add: NetConn_def adapter_Write_def)
qed

locale net_messages = varint_reader q + message_source mc messages failure
  for q and mc :: "'m MessageConn" and messages and failure

sublocale net_messages \<subseteq> net: stream_conn q "NetConn mc" "\<lambda>_. True"
  "\<lambda>a. a_buf a @ concat (messages (a_mc a))" "\<lambda>a. failure (a_mc a)"
proof -
  have "nc_Read (NetConn mc) = adapter_Read mc" by (simp add: NetConn_def)
  then show "stream_conn q (NetConn mc) (\<lambda>_. True) (\<lambda>a. a_buf a @ concat (messages (a_mc a))) (\<lambda>a. failure (a_mc a))"
    by (intro stream_conn.intro varint_source.intro) (simp_all add: varint_reader_axioms adapter.buffered_source_axioms)
qed

context net_messages
begin

lemmas net_conn = net.stream_conn_axioms

end

context message_sink
begin

lemmas adapter_sink = adapter.byte_sink_axioms

end

section \<open>A message connection in memory\<close>

text \<open>A \<open>MessageConn\<close> that delivers the messages of its inbox and keeps those written to it.\<close>

record mailbox =
  mb_in :: "bytes list"
  mb_out :: "bytes list"
  mb_err :: io_error

definition mailbox_conn :: "mailbox MessageConn" where
  "mailbox_conn =
     \<lparr>mc_ReadMessage = (\<lambda>m. case mb_in m of [] \<Rightarrow> (Inl (mb_err m), m) | p # ps \<Rightarrow> (Inr p, m\<lparr>mb_in := ps\<rparr>)),
      mc_WriteMessage = (\<lambda>p m. (None, m\<lparr>mb_out := mb_out m @ [p]\<rparr>)), mc_Close = (\<lambda>m. (None, m)),
      mc_LocalAddr = None, mc_RemoteAddr = None, mc_SetDeadline = None, mc_SetReadDeadline = None,
      mc_SetWriteDeadline = None\<rparr>"

interpretation mailbox: net_messages rfc9000 mailbox_conn mb_in mb_err
  by unfold_locales (auto simp: mailbox_conn_def)

interpretation mailbox_out: message_sink mailbox_conn mb_out
  by unfold_locales (auto simp: mailbox_conn_def)

interpretation mailbox_stream: stream_sink rfc9000 "NetConn mailbox_conn" "\<lambda>a. concat (mb_out (a_mc a))"
  by (intro stream_sink.intro rfc.quicvarint_axioms mailbox_out.adapter.byte_sink_axioms)

section \<open>Properties\<close>

text \<open>C34. Records survive a byte stream: what one stream transport writes on a connection that takes it, another
  one reads from any connection that delivers these bytes, in pieces of any size. Every record is
  returned as it was written, in order; one that is larger than the reader's limit is reported as
  such and skipped, so that the records after it are still found, and nothing behind them is read.\<close>

theorem stream_roundtrip:
  assumes "stream_conn q nc ok contents failure" "byte_sink nw sent" "list_all (\<lambda>p. length p < 2 ^ 62) ps"
  shows "\<exists>t'. write_records (rt_writeRecord (stream_transport q nw)) ps t = Some (None, t') \<and>
    (\<forall>r rest. stream_ok ok contents failure r \<and>
       sent (b_rd (st_br t)) @ stream_contents contents r = sent (b_rd (st_br t')) @ rest \<longrightarrow>
       (\<exists>r'. read_records (rt_readRecord (stream_transport q nc)) (length ps) r = Some (map (received (st_max r)) ps, r') \<and>
         stream_contents contents r' = rest))"
proof -
  have q: "quicvarint q" using assms(1) by (simp add: stream_conn_def varint_source_def varint_reader_def)
  obtain t' where t': "write_records (stream_writeRecord q nw) ps t = Some (None, t')"
    "sent (b_rd (st_br t')) = sent (b_rd (st_br t)) @ concat (map (sized q) ps)"
    using stream_sink.stream_write_all [OF stream_sink.intro [OF q assms(2)] assms(3)] by blast
  have "\<exists>r'. read_records (stream_readRecord q nc) (length ps) r = Some (map (received (st_max r)) ps, r') \<and>
      stream_contents contents r' = rest"
    if "stream_ok ok contents failure r" "sent (b_rd (st_br t)) @ stream_contents contents r = sent (b_rd (st_br t')) @ rest" for r rest
  proof -
    have "stream_carries q ok contents failure rest r ps" using that t'(2) assms(3) by (simp add: stream_carries_def)
    then show ?thesis using stream_conn.stream_read_all [OF assms(1)] by (fastforce simp: stream_carries_def)
  qed
  then show ?thesis using t'(1) by (auto simp: stream_transport_def)
qed

text \<open>Three messages that cut the two records in the middle, for a reader with the limit 2.\<close>

theorem stream_roundtrip_witness:
  "\<exists>t'. write_records (rt_writeRecord (stream_transport rfc9000 (NetConn mailbox_conn))) [[1, 2, 3], [4]]
       (newStreamTransport (new_adapter \<lparr>mb_in = [], mb_out = [], mb_err = EOF\<rparr>) 2) = Some (None, t') \<and>
     concat (mb_out (a_mc (b_rd (st_br t')))) = [3, 1, 2, 3, 1, 4] \<and>
     (\<exists>r'. read_records (rt_readRecord (stream_transport rfc9000 (NetConn mailbox_conn))) 2
        (newStreamTransport (new_adapter \<lparr>mb_in = [[3, 1], [], [2, 3, 1], [4]], mb_out = [], mb_err = EOF\<rparr>) 2) =
        Some ([Inl (recordTooLarge 3 2), Inr [4]], r'))"
proof -
  let ?n = "NetConn mailbox_conn"
  let ?t = "newStreamTransport (new_adapter \<lparr>mb_in = [], mb_out = [], mb_err = EOF\<rparr>) 2"
  let ?r = "newStreamTransport (new_adapter \<lparr>mb_in = [[3, 1], [], [2, 3, 1], [4]], mb_out = [], mb_err = EOF\<rparr>) 2"
  let ?ps = "[[1, 2, 3], [4]] :: bytes list"
  obtain t' where t': "write_records (rt_writeRecord (stream_transport rfc9000 ?n)) ?ps ?t = Some (None, t')"
    "\<forall>r rest. stream_ok (\<lambda>_. True) (\<lambda>a. a_buf a @ concat (mb_in (a_mc a))) (\<lambda>a. mb_err (a_mc a)) r \<and>
       concat (mb_out (a_mc (b_rd (st_br ?t)))) @ stream_contents (\<lambda>a. a_buf a @ concat (mb_in (a_mc a))) r =
       concat (mb_out (a_mc (b_rd (st_br t')))) @ rest \<longrightarrow>
       (\<exists>r'. read_records (rt_readRecord (stream_transport rfc9000 ?n)) (length ?ps) r = Some (map (received (st_max r)) ?ps, r') \<and>
         stream_contents (\<lambda>a. a_buf a @ concat (mb_in (a_mc a))) r' = rest)"
    using stream_roundtrip [OF mailbox.net.stream_conn_axioms mailbox_out.adapter.byte_sink_axioms, of ?ps ?t] by auto
  have out: "concat (mb_out (a_mc (b_rd (st_br t')))) = [3, 1, 2, 3, 1, 4]"
    using t'(1) by (auto simp: stream_transport_def rfc.stream_writeRecord_eq sized_def rfc.append_small u64_len_def
        NetConn_def adapter_Write_def mailbox_conn_def newStreamTransport_def new_adapter_def NewReader_def)
  have "stream_ok (\<lambda>_. True) (\<lambda>a. a_buf a @ concat (mb_in (a_mc a))) (\<lambda>a. mb_err (a_mc a)) ?r"
    "stream_contents (\<lambda>a. a_buf a @ concat (mb_in (a_mc a))) ?r = [3, 1, 2, 3, 1, 4]"
    by (simp_all add: stream_defs newStreamTransport_def new_adapter_def NewReader_def Reader_defs)
  then have "\<exists>r'. read_records (rt_readRecord (stream_transport rfc9000 ?n)) (length ?ps) ?r = Some (map (received (st_max ?r)) ?ps, r')"
    using t'(2) [rule_format, of ?r "[]"] out by (auto simp: newStreamTransport_def new_adapter_def NewReader_def)
  moreover have "map (received (st_max ?r)) ?ps = [Inl (recordTooLarge 3 2), Inr [4]]" "length ?ps = 2"
    by (simp_all add: received_def u64_len_def newStreamTransport_def)
  ultimately show ?thesis using t'(1) out by metis
qed

text \<open>C35. The two ways to use a message connection are the same to the connection above: the records that are
  written as messages and those that are written with their Size field through \<open>NetConn\<close>, on a message
  connection that takes what it is given, are read alike by a peer that uses the same way and that
  gets the messages which were written.\<close>

theorem transports_agree:
  assumes "varint_reader q" "message_sink w posted" "message_source mc messages failure"
    "list_all (\<lambda>p. length p < 2 ^ 62) ps"
  shows "\<exists>t1 t2. write_records (rt_writeRecord (message_transport w)) ps \<lparr>mt_mc = m, mt_max = k\<rparr> = Some (None, t1) \<and>
    write_records (rt_writeRecord (stream_transport q (NetConn w))) ps (newStreamTransport (new_adapter m) k) = Some (None, t2) \<and>
    (\<forall>m1 m2. posted m @ messages m1 = posted (mt_mc t1) \<and> posted m @ messages m2 = posted (a_mc (b_rd (st_br t2))) \<longrightarrow>
       (\<exists>r1 r2. read_records (rt_readRecord (message_transport mc)) (length ps) \<lparr>mt_mc = m1, mt_max = l\<rparr> =
            Some (map (received l) ps, r1) \<and>
          read_records (rt_readRecord (stream_transport q (NetConn mc))) (length ps) (newStreamTransport (new_adapter m2) l) =
            Some (map (received l) ps, r2)))"
proof -
  let ?t = "newStreamTransport (new_adapter m) k"
  have net: "stream_conn q (NetConn mc) (\<lambda>_. True) (\<lambda>a. a_buf a @ concat (messages (a_mc a))) (\<lambda>a. failure (a_mc a))"
    by (rule net_messages.net_conn [OF net_messages.intro [OF assms(1,3)]])
  have q: "quicvarint q" using assms(1) by (simp add: varint_reader_def)
  have "list_all (\<lambda>p. True) ps" by (simp add: list_all_iff)
  then obtain t1 where t1: "write_records (message_writeRecord w) ps \<lparr>mt_mc = m, mt_max = k\<rparr> = Some (None, t1)"
    "posted (mt_mc t1) = posted m @ ps"
    using message_sink.message_write_all [OF assms(2), of ps "\<lparr>mt_mc = m, mt_max = k\<rparr>"] by auto
  obtain t2 where t2: "write_records (stream_writeRecord q (NetConn w)) ps ?t = Some (None, t2)"
    "concat (posted (a_mc (b_rd (st_br t2)))) = concat (posted (a_mc (b_rd (st_br ?t)))) @ concat (map (sized q) ps)"
    using stream_sink.stream_write_all [OF stream_sink.intro [OF q message_sink.adapter_sink [OF assms(2)]] assms(4)] by blast
  have init: "a_mc (b_rd (st_br ?t)) = m" by (simp add: newStreamTransport_def new_adapter_def NewReader_def)
  have "\<exists>r1. read_records (message_readRecord mc) (length ps) \<lparr>mt_mc = m1, mt_max = l\<rparr> = Some (map (received l) ps, r1)"
    if "messages m1 = ps" for m1
    using message_source.message_read_all [OF assms(3), of "\<lparr>mt_mc = m1, mt_max = l\<rparr>" ps "[]"] that by auto
  moreover have "\<exists>r2. read_records (stream_readRecord q (NetConn mc)) (length ps) (newStreamTransport (new_adapter m2) l) =
      Some (map (received l) ps, r2)" if "posted m @ messages m2 = posted (a_mc (b_rd (st_br t2)))" for m2
  proof -
    have "concat (messages m2) = concat (map (sized q) ps)"
      using t2(2) init arg_cong [OF that, of concat] by simp
    then have "stream_carries q (\<lambda>_. True) (\<lambda>a. a_buf a @ concat (messages (a_mc a))) (\<lambda>a. failure (a_mc a)) []
        (newStreamTransport (new_adapter m2) l) ps"
      using assms(4) by (simp add: stream_defs newStreamTransport_def new_adapter_def NewReader_def Reader_defs)
    from stream_conn.stream_read_all [OF net this] show ?thesis by (auto simp: newStreamTransport_def)
  qed
  ultimately show ?thesis using t1 t2(1) by (auto simp: stream_transport_def message_transport_def)
qed

theorem transports_agree_witness:
  "\<exists>r1 r2. read_records (rt_readRecord (message_transport mailbox_conn)) 2
        \<lparr>mt_mc = \<lparr>mb_in = [[1, 2, 3], [4]], mb_out = [], mb_err = EOF\<rparr>, mt_max = 2\<rparr> = Some ([Inl (recordTooLarge 3 2), Inr [4]], r1) \<and>
     read_records (rt_readRecord (stream_transport rfc9000 (NetConn mailbox_conn))) 2
        (newStreamTransport (new_adapter \<lparr>mb_in = [[3, 1, 2, 3], [1, 4]], mb_out = [], mb_err = EOF\<rparr>) 2) =
        Some ([Inl (recordTooLarge 3 2), Inr [4]], r2)"
proof -
  let ?m = "\<lparr>mb_in = [], mb_out = [], mb_err = EOF\<rparr>" and ?ps = "[[1, 2, 3], [4]] :: bytes list"
  let ?m1 = "\<lparr>mb_in = [[1, 2, 3], [4]], mb_out = [], mb_err = EOF\<rparr>"
  let ?m2 = "\<lparr>mb_in = [[3, 1, 2, 3], [1, 4]], mb_out = [], mb_err = EOF\<rparr>"
  have ps: "list_all (\<lambda>p. length p < 2 ^ 62) ?ps" by simp
  obtain t1 t2 where t1: "write_records (rt_writeRecord (message_transport mailbox_conn)) ?ps \<lparr>mt_mc = ?m, mt_max = 2\<rparr> = Some (None, t1)"
    and t2: "write_records (rt_writeRecord (stream_transport rfc9000 (NetConn mailbox_conn))) ?ps (newStreamTransport (new_adapter ?m) 2) = Some (None, t2)"
    and r: "\<forall>m1 m2. mb_out ?m @ mb_in m1 = mb_out (mt_mc t1) \<and> mb_out ?m @ mb_in m2 = mb_out (a_mc (b_rd (st_br t2))) \<longrightarrow>
       (\<exists>r1 r2. read_records (rt_readRecord (message_transport mailbox_conn)) (length ?ps) \<lparr>mt_mc = m1, mt_max = 2\<rparr> =
            Some (map (received 2) ?ps, r1) \<and>
          read_records (rt_readRecord (stream_transport rfc9000 (NetConn mailbox_conn))) (length ?ps) (newStreamTransport (new_adapter m2) 2) =
            Some (map (received 2) ?ps, r2))"
    using transports_agree [OF rfc_read.varint_reader_axioms mailbox_out.message_sink_axioms mailbox.message_source_axioms ps,
        of ?m 2 2] by blast
  have "mb_out (mt_mc t1) = mb_in ?m1" using t1
    by (auto simp: message_transport_def message_writeRecord_def mailbox_conn_def new_record_def recordHeadroom_def)
  moreover have "mb_out (a_mc (b_rd (st_br t2))) = mb_in ?m2" using t2
    by (auto simp: stream_transport_def rfc.stream_writeRecord_eq sized_def rfc.append_small u64_len_def
        NetConn_def adapter_Write_def mailbox_conn_def newStreamTransport_def new_adapter_def NewReader_def)
  moreover have "map (received 2) ?ps = [Inl (recordTooLarge 3 2), Inr [4]]" "length ?ps = 2"
    by (simp_all add: received_def u64_len_def)
  ultimately show ?thesis using r [rule_format, of ?m1 ?m2] by (simp add: numeral_2_eq_2)
qed



end
