(* ===== verification/Edge_Cases.thy ===== *)
theory Edge_Cases
  imports Conn_Runs Recv_Flow
begin

text \<open>Configurations at the edge of what \<open>normalized\<close> lets through, and what the code makes of them: receive
  windows of one byte and of \<open>quicvarint.Max\<close> bytes, a stream limit of \<open>2 ^ 60\<close>, and the payload that
  \<open>SendDatagram\<close> reports as the largest that fits.\<close>

section \<open>The first stream of a client\<close>

text \<open>A server that has the client's parameters and no stream yet, and the frames by which the client opens
  its first stream of a direction.\<close>

definition fresh :: "Config \<Rightarrow> Parameters \<Rightarrow> int \<Rightarrow> Conn" where
  "fresh config p now = handleParametersLocked p (newConn config True now)"

definition first_stream :: "dir \<Rightarrow> StreamID" where
  "first_stream d = (case d of dirBidi \<Rightarrow> 0 | dirUni \<Rightarrow> 2)"

lemma fresh_fields:
  "c_closeErr (fresh cfg p now) = None" "c_ready (fresh cfg p now)" "c_objs (fresh cfg p now) = []"
  "c_isServer (fresh cfg p now)" "c_config (fresh cfg p now) = cfg" "c_received (fresh cfg p now) = 0"
  "c_consumed (fresh cfg p now) = 0" "c_recvMax (fresh cfg p now) = cf_InitialConnectionReceiveWindow cfg"
  "i_next (c_in (fresh cfg p now) d) = 0" "i_queue (c_in (fresh cfg p now) d) = []" "c_control (fresh cfg p now) = []"
  "i_max (c_in (fresh cfg p now) d) =
     of_int (case d of dirBidi \<Rightarrow> cf_MaxIncomingStreams cfg | dirUni \<Rightarrow> cf_MaxIncomingUniStreams cfg)"
  "\<not> i_pending (c_in (fresh cfg p now) d)" "\<not> c_maxDataPending (fresh cfg p now)" "\<not> c_pongPending (fresh cfg p now)"
  "\<not> c_pingPending (fresh cfg p now)"
  by (cases d; simp add: fresh_def handleParametersLocked_eq newConn_def new_incoming_def)+

lemma first_stream_simps [simp]:
  "drop_bit 2 (first_stream d) = 0" "streamDir (first_stream d) = d"
  "c_isServer c \<Longrightarrow> \<not> initiatedLocally c (first_stream d)" "c_isServer c \<Longrightarrow> streamID_of c 0 d False = first_stream d"
  by (cases d; simp add: first_stream_def streamDir_def initiatedLocally_def streamID_of_def Let_def)+

lemma fresh_streamLocked:
  assumes "0 < i_max (c_in (fresh cfg p now) d)"
  shows "streamLocked (first_stream d) True (fresh cfg p now) = (Inr (Some 0), open_next d (fresh cfg p now))"
proof -
  let ?c = "fresh cfg p now"
  have "open_incoming d (first_stream d) ?c = open_incoming d (first_stream d) (open_next d ?c)"
    by (subst open_incoming.simps) (simp add: fresh_fields)
  also have "\<dots> = open_next d ?c"
    by (subst open_incoming.simps) (simp add: open_next_i_next fresh_fields)
  finally show ?thesis
    using assms by (simp add: streamLocked_def Let_def fresh_fields open_next_eq)
qed

lemma fresh_params: "handleFrameLocked grow now' (Frame (TransportParameters p)) (newConn cfg True now) = (None, fresh cfg p now)"
  by (simp add: handleFrameLocked_def fresh_def newConn_def)

section \<open>A window of \<open>quicvarint.Max\<close>\<close>

definition huge_config :: "codec \<Rightarrow> Config" where
  "huge_config q = zero_Config\<lparr>cf_InitialStreamReceiveWindow := vmax q, cf_InitialConnectionReceiveWindow := vmax q\<rparr>"

text \<open>C38. A receive window of \<open>quicvarint.Max\<close>, which \<open>normalized\<close> accepts, lets the peer stop the program: two
  frames, the parameters and a RESET_STREAM with a final size of the whole window, make the
  connection credit the peer with twice the window, and the writer goroutine panics when it encodes
  the MAX_DATA frame.\<close>

theorem huge_window_panics:
  assumes "quicvarint q"
  shows "\<exists>c. handle_frames grow now [TransportParameters p, ResetStream 0 code (vmax q)]
      (newConn (normalized q (Some (huge_config q))) True start) = (None, c) \<and>
    c_controlWake c \<and> writeLoop_round q tw now' c = None"
proof -
  let ?cfg = "normalized q (Some (huge_config q))" and ?m = "vmax q"
  have m: "?m = 2 ^ 62 - 1" by (rule quicvarint.max_value [OF assms])
  have w: "cf_InitialStreamReceiveWindow ?cfg = ?m" "cf_InitialConnectionReceiveWindow ?cfg = ?m"
    "cf_MaxIncomingStreams ?cfg = 100"
    by (simp_all add: normalized_fields [OF refl] huge_config_def zero_Config_def streamLimit_def config_defaults m)
  let ?c = "fresh ?cfg p start"
  let ?d = "open_next dirBidi ?c"
  have s: "streamLocked 0 True ?c = (Inr (Some 0), ?d)"
    using fresh_streamLocked [of ?cfg p start dirBidi] by (simp add: fresh_fields w first_stream_def)
  have o: "obj ?d 0 = new_stream ?c 0" "length (c_objs ?d) = 1"
    using first_stream_simps(4) [of ?c dirBidi] by (simp_all add: open_next_eq fresh_fields first_stream_def Let_def)
  have n: "s_recvOffset (new_stream ?c 0) = 0" "\<not> s_finRecv (new_stream ?c 0)" "\<not> s_recvReset (new_stream ?c 0)"
    "s_recvMax (new_stream ?c 0) = ?m" "s_rbuf (new_stream ?c 0) = []" "s_roff (new_stream ?c 0) = 0" "\<not> s_accepted (new_stream ?c 0)"
    by (simp_all add: new_stream_def zero_stream_def Let_def fresh_fields w streamDir_def)
  have f: "c_received ?d = 0" "c_consumed ?d = 0" "c_recvMax ?d = ?m" "conn_window ?d = ?m" "c_closeErr ?d = None"
    "c_control ?d = []"
    by (simp_all add: open_next_eq fresh_fields w Let_def)
  let ?e = "snd (receive_reset 0 0 code ?m ?d)"
  have acc: "reset_accepted 0 ?m ?d" by (simp add: reset_accepted_def o n f)
  have e: "?e = completeLocked 0 (consumeLocked ?m (recv_update 0 (reset_obj code ?m (new_stream ?c 0)) ?m ?d))"
    using receive_reset_snd [of 0 ?d 0 code ?m] acc by (simp add: o n)
  have none: "fst (receive_reset 0 0 code ?m ?d) = None"
    by (simp add: receive_reset_def receivedLocked_def o n f Let_def)
  have "c_maxDataPending ?e \<and> c_controlWake ?e \<and> c_closeErr ?e = None \<and> c_recvMax ?e = 2 * ?m \<and> c_control ?e = []"
    unfolding e by (simp add: completeLocked_eq consumeLocked_eq window_low_def recv_update_def f m)
  moreover have "handleFrameLocked grow now (Frame (ResetStream 0 code ?m)) ?c = (None, ?e)"
    using none by (cases "receive_reset 0 0 code ?m ?d")
      (simp add: handleFrameLocked_def fresh_fields handleResetStreamLocked_def s)
  then have "handle_frames grow now [TransportParameters p, ResetStream 0 code ?m] (newConn ?cfg True start) = (None, ?e)"
    by (simp add: fresh_params)
  moreover have "frame_Append q (MaxData (2 * ?m)) new_record = None"
    using quicvarint.append_large [OF assms, of "2 * ?m"] by (simp add: m Append_defs put_varint_def)
  ultimately show ?thesis
    by (auto simp: writeLoop_round_def flushControl_def takeControl_def take_flag_def Let_def)
qed

theorem huge_window_panics_witness:
  "\<exists>c. handle_frames (\<lambda>k n. n) 0 [TransportParameters example_params, ResetStream 0 7 (vmax rfc9000)]
      (newConn (normalized rfc9000 (Some (huge_config rfc9000))) True 0) = (None, c) \<and>
    writeLoop_round rfc9000 (\<lambda>ws b. Inr (length b)) 0 c = None"
  using huge_window_panics [OF rfc.quicvarint_axioms, of "\<lambda>k n. n" 0 example_params 7 0 "\<lambda>ws b. Inr (length b)" 0] by blast

section \<open>A stream limit of \<open>2 ^ 60\<close>\<close>

definition many_config :: Config where
  "many_config = zero_Config\<lparr>cf_MaxIncomingUniStreams := 2 ^ 60\<rparr>"

text \<open>C39. With a limit of \<open>2 ^ 60\<close> streams, the largest that the protocol knows and \<open>normalized\<close> lets through, the
  first stream of the peer that ends makes the connection announce one more; the peer rejects the
  frame with a FRAME_ENCODING_ERROR, which ends the connection.\<close>

theorem max_streams_rejected:
  assumes "quicvarint q"
  shows "\<exists>c m. handle_frames grow now [TransportParameters p, Stream 2 0 [] True]
      (newConn (normalized q (Some many_config)) True start) = (None, c) \<and>
    fst (takeControl now' (snd (tryAccept dirUni c))) = [MaxStreams True m] \<and>
    (\<exists>enc e. frame_Append q (MaxStreams True m) [] = Some enc \<and> Parse q enc = Some (Inl e) \<and> Code e = FrameEncodingError)"
proof -
  let ?cfg = "normalized q (Some many_config)"
  have lim: "cf_MaxIncomingUniStreams ?cfg = 2 ^ 60"
    by (simp add: normalized_fields [OF refl] many_config_def zero_Config_def streamLimit_def)
  let ?c = "fresh ?cfg p start" and ?m = "2 ^ 60 + 1 :: u64"
  let ?d = "open_next dirUni ?c"
  have s: "streamLocked 2 True ?c = (Inr (Some 0), ?d)"
    using fresh_streamLocked [of ?cfg p start dirUni] by (simp add: fresh_fields lim first_stream_def)
  have o: "c_objs ?d = [new_stream ?c 2]"
    using first_stream_simps(4) [of ?c dirUni] by (simp add: open_next_eq fresh_fields first_stream_def Let_def)
  have n: "new_stream ?c 2 = zero_stream\<lparr>s_id := 2, s_canRecv := True, s_recvMax := cf_InitialStreamReceiveWindow ?cfg\<rparr>"
    by (simp add: new_stream_def zero_stream_def Let_def fresh_fields streamDir_def initiatedLocally_def)
  have f: "c_received ?d = 0" "c_closeErr ?d = None" "c_control ?d = []" "c_isServer ?d" "\<not> c_maxDataPending ?d" "\<not> c_pongPending ?d"
    "\<not> c_pingPending ?d" "i_queue (c_in ?d dirUni) = [0]" "i_max (c_in ?d dirUni) = 2 ^ 60" "\<not> i_pending (c_in ?d e)" for e
    using first_stream_simps(4) [of ?c dirUni] by (simp_all add: open_next_eq fresh_fields lim Let_def)
  let ?e = "snd (receive_data grow 0 2 0 [] True ?d)"
  have none: "fst (receive_data grow 0 2 0 [] True ?d) = None"
    by (simp add: receive_data_def receivedLocked_def o n f Let_def zero_stream_def)
  have e: "?e = recv_update 0 (data_obj grow [] True (new_stream ?c 2)) 0 ?d"
    using receive_data_snd [of 0 ?d grow 2 0 "[]" True]
    by (simp add: data_accepted_def o n f zero_stream_def completeLocked_eq complete_obj_def completes_def frees_def
        recv_update_def data_obj_def)
  have h: "handleFrameLocked grow now (Frame (Stream 2 0 [] True)) ?c = (None, ?e)"
    using none by (cases "receive_data grow 0 2 0 [] True ?d")
      (simp add: handleFrameLocked_def fresh_fields handleStreamLocked_def s)
  have "fst (takeControl now' (snd (tryAccept dirUni ?e))) = [MaxStreams True ?m]"
    unfolding e
    by (simp add: tryAccept_snd recv_update_def f o n completeLocked_eq completes_def complete_obj_def frees_def data_obj_def
        bufferLocked_def zero_stream_def recvDone_def sendDone_def initiatedLocally_def streamDir_def takeControl_def
        take_flag_def Let_def)
  moreover have "\<exists>enc e. frame_Append q (MaxStreams True ?m) [] = Some enc \<and> Parse q enc = Some (Inl e) \<and> Code e = FrameEncodingError"
    using quicvarint.MaxStreams_parse [OF assms, of ?m True "[]"]
    by (auto simp: quicvarint.fits_iff [OF assms] maxStreams_def frameEncodingError_def)
  ultimately show ?thesis using h by (auto simp: fresh_params)
qed

theorem max_streams_rejected_witness:
  "\<exists>c m. handle_frames (\<lambda>k n. n) 0 [TransportParameters example_params, Stream 2 0 [] True]
      (newConn (normalized rfc9000 (Some many_config)) True 0) = (None, c) \<and>
    fst (takeControl 0 (snd (tryAccept dirUni c))) = [MaxStreams True m]"
  using max_streams_rejected [OF rfc.quicvarint_axioms, of "\<lambda>k n. n" 0 example_params 0 0] by blast

section \<open>A window of one byte\<close>

lemma small_consume: "conn_window c = 1 \<Longrightarrow> consumeLocked n c = c\<lparr>c_consumed := c_consumed c + n\<rparr>"
  by (simp add: consumeLocked_def Let_def)

text \<open>The connection's account of received data when its window is one byte.\<close>

definition one_byte :: "Conn \<Rightarrow> bool" where
  "one_byte c \<longleftrightarrow> conn_window c = 1 \<and> c_recvMax c = 1 \<and> c_received c \<le> 1"

lemma one_byte_same: "recv_same c c' \<Longrightarrow> one_byte c \<Longrightarrow> one_byte c'"
  by (simp add: one_byte_def recv_same_def)

lemma one_byte_fields:
  "c_config c' = c_config c \<Longrightarrow> c_recvMax c' = c_recvMax c \<Longrightarrow> c_received c' = c_received c \<Longrightarrow> one_byte c \<Longrightarrow> one_byte c'"
  by (simp add: one_byte_def)

lemma one_byte_parts:
  "one_byte c \<Longrightarrow> one_byte (consumeLocked n c)" "one_byte c \<Longrightarrow> one_byte (completeLocked i c)"
  "one_byte c \<Longrightarrow> one_byte (upd_obj i g c)" "one_byte c \<Longrightarrow> one_byte (queueLocked f c)"
  "one_byte c \<Longrightarrow> one_byte (send_update i s c)"
  "one_byte c \<Longrightarrow> c_received c + r \<le> c_recvMax c \<Longrightarrow> one_byte (recv_update i s r c)"
  by (simp_all add: one_byte_def small_consume completeLocked_eq upd_obj_def queueLocked_def wakeWriter_def
      send_update_def recv_update_def)

lemma one_byte_readLocked: "one_byte c \<Longrightarrow> one_byte (readLocked i n c)"
  by (simp add: readLocked_def Let_def one_byte_parts)

lemma one_byte_tryRead: "one_byte c \<Longrightarrow> one_byte (snd (tryRead i k c))"
  using one_byte_same [OF recv_same_signals(6), of c i]
  by (auto simp: tryRead_def Let_def one_byte_parts one_byte_readLocked split: option.splits prod.splits)

lemma conn_op_one_byte: "conn_op grow c c' \<Longrightarrow> one_byte c \<Longrightarrow> one_byte c'"
proof (induction rule: conn_op.induct)
  case (op_data c i dat sid off fin)
  then show ?case
    by (auto simp: receiver_def receive_data_snd data_accepted_def Let_def intro!: one_byte_parts)
next
  case (op_reset c i sid code n)
  then show ?case
    by (auto simp: receiver_def receive_reset_snd reset_accepted_def Let_def intro!: one_byte_parts)
next
  case (op_cancelRead i c code)
  then have "c_received c \<le> c_recvMax c" by (simp add: one_byte_def)
  then show ?case using op_cancelRead by (auto simp: receiver_def cancelRead_eq intro!: one_byte_parts)
next
  case (op_peek i c k)
  then show ?case using one_byte_same [OF tryPeek_recv] by blast
next
  case (op_open c d)
  then show ?case using one_byte_same [OF recv_same_signals(9)] by (auto simp: tryOpen_snd Let_def) (simp add: one_byte_def)
next
  case (op_accept c d)
  then show ?case using one_byte_same [OF recv_same_signals(10)]
    by (auto simp: tryAccept_snd split: list.split intro!: one_byte_parts) (simp add: one_byte_def)
qed (auto simp: sender_def resetSendLocked_eq max_stream_data_eq finish_snd open_next_eq Let_def one_byte_tryRead one_byte_same [OF terminate_recv]
    one_byte_same [OF others_recv(1)] one_byte_same [OF others_recv(2)] one_byte_same [OF others_recv(3)] one_byte_same [OF others_recv(4)]
    one_byte_same [OF others_recv(5)] one_byte_same [OF others_recv(6)] one_byte_same [OF others_recv(7)] one_byte_same [OF others_recv(8)]
    one_byte_same [OF others_recv(9)] one_byte_same [OF others_recv(10)] one_byte_same [OF others_recv(12)] one_byte_same [OF others_recv(13)]
    intro!: one_byte_parts, auto simp: one_byte_def touch_def)

interpretation one: invariant "\<lambda>s. conn_start q s \<and> conn_window (snd s) = 1" "conn_step grow" "\<lambda>s. one_byte (snd s)" for q grow
proof
  fix s t :: "bool \<times> Conn"
  show "conn_start q s \<and> conn_window (snd s) = 1 \<Longrightarrow> one_byte (snd s)"
    by (auto simp: conn_start_def newConn_def one_byte_def)
  show "one_byte (snd t)" if "one_byte (snd s)" "conn_step grow s t"
    using that(2)
  proof cases
    case (step_wake c)
    then show ?thesis using that(1) by (simp add: one_byte_def)
  qed (use that(1) conn_op_one_byte one_byte_same [OF others_recv(11)] in auto)
qed

text \<open>C37. A receive window of one byte, which \<open>normalized\<close> accepts, is given to the peer once: half of it is nothing, so the
  connection never finds its limit too low. Whatever happens, a connection that starts with this window
  never raises its limit and never receives a second byte of stream data.\<close>

theorem small_window_stalls:
  assumes "conn_start q s" "conn_window (snd s) = 1" "conn_run grow s (w, c)"
  shows "c_recvMax c = 1 \<and> unat (c_received c) \<le> 1"
  using one.reachable [of q s grow "(w, c)"] assms by (simp add: one_byte_def word_le_nat_alt)

theorem small_window_stalls_witness:
  "\<exists>c. c = snd (tryOpen dirUni (newConn (normalized rfc9000 (Some (zero_Config\<lparr>cf_InitialConnectionReceiveWindow := 1\<rparr>))) True 0)) \<and> c_recvMax c = 1"
proof -
  let ?cfg = "zero_Config\<lparr>cf_InitialConnectionReceiveWindow := 1\<rparr>"
  let ?c = "newConn (normalized rfc9000 (Some ?cfg)) True 0"
  have "cf_InitialConnectionReceiveWindow (normalized rfc9000 (Some ?cfg)) = 1"
    by (simp add: normalized_fields [OF refl] zero_Config_def rfc.max_value)
  then have w: "conn_window (snd (False, ?c)) = 1" by (simp add: newConn_def)
  have "config_int64 ?cfg" by (simp add: config_int64_def zero_Config_def)
  then have "conn_start rfc9000 (False, ?c)" unfolding conn_start_def by blast
  from small_window_stalls [OF this w, of example_grow False "snd (tryOpen dirUni ?c)"] show ?thesis
    using run_ops [OF ops_op [OF op_open]] by blast
qed

section \<open>Datagrams that are too large\<close>

lemma datagram_payload:
  assumes "quicvarint q" "l \<le> vmax q" "l \<noteq> 0"
  shows "sint (l - 1 - of_nat (vlen q l)) = int (unat l) - 1 - int (vlen q l)"
proof -
  have L: "unat l < 2 ^ 62" using assms(1,2) quicvarint.fits_iff by blast
  have v: "vlen q l = (if unat l < 2 ^ 6 then 1 else if unat l < 2 ^ 14 then 2 else if unat l < 2 ^ 30 then 4 else 8)"
    using quicvarint.len_table [OF assms(1,2)] by (simp add: word_less_nat_alt)
  show ?thesis
  proof (cases "l = 1")
    case True
    then show ?thesis using v by simp
  next
    case False
    then have "unat l \<noteq> 0" "unat l \<noteq> 1" using assms(3) by (auto simp: word_unat_eq_iff)
    then have two: "2 \<le> unat l" by linarith
    then have fit: "1 + vlen q l \<le> unat l" using v by (auto split: if_splits)
    have one: "unat (l - 1) = unat l - 1" using two by (simp add: unat_sub_u64 word_le_nat_alt)
    have u: "unat (of_nat (vlen q l) :: u64) = vlen q l" using v by (simp add: unat_of_nat_u64)
    then have "unat (l - 1 - of_nat (vlen q l)) = unat l - 1 - vlen q l"
      using fit one by (simp add: unat_sub_u64 word_le_nat_alt)
    then show ?thesis using fit L by (simp add: sint_small of_nat_diff)
  qed
qed

text \<open>C40. \<open>SendDatagram\<close> refuses a datagram whose frame is larger than the peer accepts, and changes nothing. Every payload of the size that it reports is accepted. It takes the header to be as
  long as for a payload of the size of the limit, so that up to four bytes more may fit.\<close>

theorem datagram_too_large:
  assumes "quicvarint q" "datagramLimit c \<le> vmax q" "datagramLimit c \<noteq> 0" "length p < 2 ^ 62"
    "unat (datagramLimit c) < Datagram_Len q p"
  shows "\<exists>n. SendDatagram q tw now p c = Some (Some (DatagramTooLargeError n), c) \<and>
      (\<forall>p'. int (length p') \<le> n \<longrightarrow> Datagram_Len q p' \<le> unat (datagramLimit c)) \<and>
      (\<forall>p'. n + 4 < int (length p') \<and> length p' < 2 ^ 62 \<longrightarrow> unat (datagramLimit c) < Datagram_Len q p')"
proof -
  let ?l = "datagramLimit c"
  let ?L = "unat ?l" and ?v = "vlen q ?l"
  define n where "n = sint (?l - 1 - of_nat ?v)"
  have n: "n = int ?L - 1 - int ?v"
    using datagram_payload [OF assms(1,2,3)] n_def by simp
  have L: "?L < 2 ^ 62" using assms(1,2) quicvarint.fits_iff by blast
  have v: "?v = (if ?L < 2 ^ 6 then 1 else if ?L < 2 ^ 14 then 2 else if ?L < 2 ^ 30 then 4 else 8)"
    using quicvarint.len_table [OF assms(1,2)] by (simp add: word_less_nat_alt)
  have len: "vlen q (u64_len p') = (if length p' < 2 ^ 6 then 1 else if length p' < 2 ^ 14 then 2 else if length p' < 2 ^ 30 then 4 else 8)"
    if "length p' < 2 ^ 62" for p' :: bytes
    using quicvarint.len_table [OF assms(1), of "u64_len p'"] quicvarint.size_fits [OF assms(1) that] by (simp add: word_less_nat_alt)
  have "Datagram_Len q p' \<le> ?L" if "int (length p') \<le> n" for p'
  proof -
    have "length p' < 2 ^ 62" "length p' + 1 + ?v \<le> ?L" using that n L by linarith+
    then show ?thesis using len [of p'] v by (auto simp: Datagram_Len_def split: if_splits)
  qed
  moreover have "?L < Datagram_Len q p'" if "n + 4 < int (length p')" "length p' < 2 ^ 62" for p'
  proof -
    have "?L < length p' + ?v - 3" using that n by linarith
    then show ?thesis using len [OF that(2)] v by (auto simp: Datagram_Len_def split: if_splits)
  qed
  moreover have "?l < of_nat (Datagram_Len q p) \<longleftrightarrow> ?L < Datagram_Len q p"
  proof -
    have "Datagram_Len q p < 2 ^ 64" using len [OF assms(4)] assms(4) by (auto simp: Datagram_Len_def)
    then show ?thesis by (simp add: word_less_nat_alt unat_of_nat_u64)
  qed
  ultimately show ?thesis using assms(3,5) n_def by (auto simp: SendDatagram_def Let_def)
qed

text \<open>A peer that accepts frames of 65 bytes: 62 bytes are reported, and 63 fit.\<close>

theorem datagram_too_large_witness:
  "\<exists>c. SendDatagram rfc9000 (\<lambda>ws b. Inr (length b)) 0 (replicate 64 0) c = Some (Some (DatagramTooLargeError 62), c) \<and>
     unat (datagramLimit c) < Datagram_Len rfc9000 (replicate 64 0) \<and> Datagram_Len rfc9000 (replicate 63 0) = unat (datagramLimit c)"
proof -
  define c where "c = example_start\<lparr>c_peer := example_params\<lparr>MaxDatagramFrameSize := 65\<rparr>\<rparr>"
  have l: "datagramLimit c = 65" by (simp add: c_def datagramLimit_def example_params_def)
  have v: "vlen rfc9000 65 = 2" "vlen rfc9000 64 = 2" "vlen rfc9000 63 = 1"
    by (simp_all add: rfc.len_table rfc.max_value)
  have s: "SendDatagram rfc9000 (\<lambda>ws b. Inr (length b)) 0 (replicate 64 0) c = Some (Some (DatagramTooLargeError 62), c)"
    by (simp add: SendDatagram_def l Datagram_Len_def v u64_len_def)
  have big: "unat (datagramLimit c) < Datagram_Len rfc9000 (replicate 64 0)"
    and fits: "Datagram_Len rfc9000 (replicate 63 0) = unat (datagramLimit c)"
    by (simp_all add: l Datagram_Len_def u64_len_def v)
  obtain n where "SendDatagram rfc9000 (\<lambda>ws b. Inr (length b)) 0 (replicate 64 0) c = Some (Some (DatagramTooLargeError n), c)"
    using datagram_too_large [OF rfc.quicvarint_axioms _ _ _ big, of "\<lambda>ws b. Inr (length b)" 0] l by (auto simp: rfc.fits_iff)
  with s big fits show ?thesis by blast
qed

end
