(* ===== verification/Conn_Loops.thy ===== *)
theory Conn_Loops
  imports Conn_Runs
begin

text \<open>The goroutines of a connection (\<open>writeLoop\<close>, \<open>readLoop\<close>, \<open>idleLoop\<close> and \<open>keepAliveLoop\<close> of \<open>conn.go\<close>) as
  loops over their rounds. What the rest of the program does before a channel of a \<open>select\<close> is ready,
  and which ready case Go takes, is given for each turn. A loop whose turns run out is still
  waiting (\<open>None\<close>).\<close>

section \<open>Moves\<close>

text \<open>What happens to a connection, the state of the writer aside.\<close>

definition conn_move :: "(nat \<Rightarrow> nat \<Rightarrow> nat) \<Rightarrow> Conn \<Rightarrow> Conn \<Rightarrow> bool" where
  "conn_move grow c c' \<longleftrightarrow> (\<exists>w w'. conn_step grow (w, c) (w', c'))"

abbreviation moves :: "(nat \<Rightarrow> nat \<Rightarrow> nat) \<Rightarrow> Conn \<Rightarrow> Conn \<Rightarrow> bool" where
  "moves grow \<equiv> (conn_move grow)\<^sup>*\<^sup>*"

text \<open>What the rest of the program does while a call waits.\<close>

definition between :: "(nat \<Rightarrow> nat \<Rightarrow> nat) \<Rightarrow> (Conn \<Rightarrow> Conn) \<Rightarrow> bool" where
  "between grow f \<longleftrightarrow> (\<forall>c. moves grow c (f c))"

lemma between_id: "between grow (\<lambda>c. c)"
  by (simp add: between_def)

lemma moves_run: "conn_run grow s t \<Longrightarrow> moves grow (snd s) (snd t)"
proof (induction rule: rtranclp_induct)
  case (step t u)
  then have "conn_move grow (snd t) (snd u)" unfolding conn_move_def by (metis prod.collapse)
  then show ?case using step.IH by (rule rtranclp.rtrancl_into_rtrancl [rotated])
qed simp

lemma moves_ops: "ops grow c c' \<Longrightarrow> moves grow c c'"
  using moves_run [OF run_ops [of grow c c' False]] by simp

lemma moves_op: "conn_op grow c c' \<Longrightarrow> moves grow c c'"
  by (rule moves_ops [OF ops_op])

text \<open>The invariants that do not speak of the writer.\<close>

lemma moves_keep:
  assumes "\<And>s t. conn_step grow s t \<Longrightarrow> P (snd s) \<Longrightarrow> P (snd t)" "moves grow c c'" "P c"
  shows "P c'"
  using assms(2,3)
proof (induction rule: rtranclp_induct)
  case (step c c')
  then obtain w w' where "conn_step grow (w, c) (w', c')" by (auto simp: conn_move_def)
  then show ?case using assms(1) [of "(w, c)" "(w', c')"] step by simp
qed

lemma moves_table_ok: "moves grow c c' \<Longrightarrow> table_ok c \<Longrightarrow> table_ok c'"
  by (rule moves_keep) (rule table.keep)

lemma moves_life_ok: "moves grow c c' \<Longrightarrow> life_ok c \<Longrightarrow> life_ok c'"
  by (rule moves_keep) (rule life.keep)

section \<open>The loops\<close>

record turn =
  u_change :: "Conn \<Rightarrow> Conn"
  u_now :: int
  u_done :: bool

definition turns_ok :: "(nat \<Rightarrow> nat \<Rightarrow> nat) \<Rightarrow> turn list \<Rightarrow> bool" where
  "turns_ok grow us \<longleftrightarrow> (\<forall>u \<in> set us. between grow (u_change u))"

text \<open>A \<open>select\<close> can take \<open>ctx.Done()\<close> once the context of the connection has a cause.\<close>

definition ctx_done :: "Conn \<Rightarrow> Conn option" where
  "ctx_done c = (if c_cause c \<noteq> None then Some c else None)"

fun write_turns :: "codec \<Rightarrow> write_outcome \<Rightarrow> turn list \<Rightarrow> Conn \<Rightarrow> Conn option" where
  "write_turns q tw [] c = None"
| "write_turns q tw (u # us) c =
     (let c = u_change u c
      in if u_done u then ctx_done c
         else if c_controlWake c
         then (case writeLoop_round q tw (u_now u) c of
                 None \<Rightarrow> None
               | Some (True, c) \<Rightarrow> write_turns q tw us c
               | Some (False, c) \<Rightarrow> Some c)
         else None)"

definition writeLoop :: "codec \<Rightarrow> write_outcome \<Rightarrow> int \<Rightarrow> turn list \<Rightarrow> Conn \<Rightarrow> Conn option" where
  "writeLoop q tw now us c = do {
     (err, c) \<leftarrow> sendParameters q tw now c;
     (case err of
        None \<Rightarrow> write_turns q tw us c
      | Some e \<Rightarrow> Some (abort (write_failed e) c))
   }"

text \<open>Each turn of the reader comes with what \<open>readRecord\<close> returned.\<close>

fun readLoop ::
  "codec \<Rightarrow> (nat \<Rightarrow> nat \<Rightarrow> nat) \<Rightarrow> write_outcome \<Rightarrow> bool \<Rightarrow> (turn \<times> (go_error + bytes)) list \<Rightarrow> Conn \<Rightarrow> Conn option"
where
  "readLoop q grow tw cw [] c = None"
| "readLoop q grow tw cw ((u, res) # us) c =
     (case readLoop_round q grow tw cw (u_now u) res (u_change u c) of
        None \<Rightarrow> None
      | Some (True, c) \<Rightarrow> readLoop q grow tw cw us c
      | Some (False, c) \<Rightarrow> Some c)"

text \<open>A turn of \<open>idleLoop\<close> looks at the time and then waits; without a timeout only for the end of the
  connection. Before the turns it waits for the handshake.\<close>

fun idle_turns :: "codec \<Rightarrow> write_outcome \<Rightarrow> bool \<Rightarrow> turn list \<Rightarrow> Conn \<Rightarrow> Conn option" where
  "idle_turns q tw cw [] c = None"
| "idle_turns q tw cw (u # us) c =
     (case idle_round q tw cw (u_now u) c of
        None \<Rightarrow> None
      | Some (IdleClosed, c) \<Rightarrow> Some c
      | Some (IdleWait remaining, c) \<Rightarrow>
        (let c = u_change u c
         in if u_done u then ctx_done c
            else if remaining = None then None
            else idle_turns q tw cw us c))"

datatype handshake_case = HandshakeClosed | TimerFired | ContextDone

definition idleLoop ::
  "codec \<Rightarrow> write_outcome \<Rightarrow> bool \<Rightarrow> handshake_case \<Rightarrow> turn \<Rightarrow> turn list \<Rightarrow> Conn \<Rightarrow> Conn option" where
  "idleLoop q tw cw pick u us c =
     (let c = u_change u c
      in case pick of
           HandshakeClosed \<Rightarrow> if c_handshake c > 0 then idle_turns q tw cw us c else None
         | TimerFired \<Rightarrow> handshake_timeout q tw cw (u_now u) c
         | ContextDone \<Rightarrow> ctx_done c)"

fun keepAliveLoop :: "codec \<Rightarrow> write_outcome \<Rightarrow> bool \<Rightarrow> turn list \<Rightarrow> Conn \<Rightarrow> Conn option" where
  "keepAliveLoop q tw cw [] c = None"
| "keepAliveLoop q tw cw (u # us) c =
     (let c = u_change u c
      in if u_done u then ctx_done c
         else (case keepAlive_tick q tw cw (u_now u) c of
                 None \<Rightarrow> None
               | Some (True, c) \<Rightarrow> keepAliveLoop q tw cw us c
               | Some (False, c) \<Rightarrow> Some c))"

section \<open>Ends of the loops\<close>

definition ends :: "(nat \<Rightarrow> nat \<Rightarrow> nat) \<Rightarrow> Conn \<Rightarrow> Conn \<Rightarrow> bool" where
  "ends grow c c' \<longleftrightarrow> moves grow c c' \<and> c_closeErr c' \<noteq> None"

lemma ends_after: "moves grow a b \<Longrightarrow> ends grow b c \<Longrightarrow> ends grow a c"
  by (auto simp: ends_def intro: rtranclp_trans)

lemma turns_ok_Cons: "turns_ok grow (u # us) \<longleftrightarrow> (\<forall>c. moves grow c (u_change u c)) \<and> turns_ok grow us"
  by (auto simp: turns_ok_def between_def)

lemma ctx_done_ends: "ctx_done c = Some c' \<Longrightarrow> life_ok c \<Longrightarrow> ends grow c c'"
  by (auto simp: ctx_done_def ends_def life_of_def split: if_splits)

lemma abort_ends: "ends grow c (abort e c)"
  using moves_ops [OF abort_ops] abort_closed by (simp add: ends_def)

lemma terminate_closed: "c_closeErr (snd (terminate e c)) \<noteq> None"
  using terminate_life [of e c] by (auto simp: life_of_def split: if_splits)

lemma writeFrames_closeErr: "writeFramesLocked q tw now fs c = Some (e, c') \<Longrightarrow> c_closeErr c' = c_closeErr c"
proof -
  assume "writeFramesLocked q tw now fs c = Some (e, c')"
  then obtain b where "writeRecordLocked tw now b c = (e, c')" by (auto simp: writeFramesLocked_def Option.bind_eq_Some_conv)
  then have "life_of c' = life_of c" using life_of_ops(18) [of tw now b c] by simp
  then show ?thesis by (simp add: life_of_def)
qed

lemma closeGracefully_ends:
  assumes "closeGracefully q tw cw now e fr c = Some c'"
  shows "ends grow c c'"
proof -
  have "c_closeErr c' \<noteq> None"
    using assms terminate_closed [of e c] writeFrames_closeErr [of q tw now]
    by (auto simp: closeGracefully_def tr_close_def Let_def Option.bind_eq_Some_conv
        split: prod.splits bool.splits option.splits if_splits)
  then show ?thesis using moves_ops [OF closeGracefully_ops [OF assms]] by (simp add: ends_def)
qed

lemma writeLoop_round_moves:
  assumes "c_controlWake c" "writeLoop_round q tw now c = Some (b, c')"
  shows "moves grow c c'" "\<not> b \<Longrightarrow> ends grow c c'"
proof -
  show m: "moves grow c c'" using moves_run [OF writeLoop_round_run [OF assms]] by simp
  show "ends grow c c'" if "\<not> b"
    using m assms(2) that abort_closed by (auto simp: ends_def writeLoop_round_def Option.bind_eq_Some_conv split: option.splits)
qed

lemma timer_moves:
  "keepAlive_tick q tw cw now c = Some (b, c') \<Longrightarrow> moves grow c c'"
  "idle_round q tw cw now c = Some (res, c') \<Longrightarrow> moves grow c c'"
  by (simp_all add: timer_ops moves_ops)

lemma timer_ends:
  "keepAlive_tick q tw cw now c = Some (False, c') \<Longrightarrow> ends grow c c'"
  "idle_round q tw cw now c = Some (IdleClosed, c') \<Longrightarrow> ends grow c c'"
proof -
  have m: "moves grow c (snd (requestPing now c))" by (rule moves_op, rule op_requestPing)
  show "keepAlive_tick q tw cw now c = Some (False, c') \<Longrightarrow> ends grow c c'"
    using m by (auto simp: keepAlive_tick_def Option.bind_eq_Some_conv split: prod.splits bool.splits
        intro: ends_after closeGracefully_ends)
  show "idle_round q tw cw now c = Some (IdleClosed, c') \<Longrightarrow> ends grow c c'"
    by (auto simp: idle_round_def Option.bind_eq_Some_conv Let_def split: if_splits intro: closeGracefully_ends)
qed

lemma write_turns_ends:
  "turns_ok grow us \<Longrightarrow> life_ok c \<Longrightarrow> write_turns q tw us c = Some c' \<Longrightarrow> ends grow c c'"
proof (induction us arbitrary: c)
  case (Cons u us)
  let ?c = "u_change u c"
  have m: "moves grow c ?c" using Cons.prems(1) by (simp add: turns_ok_Cons)
  have l: "life_ok ?c" by (rule moves_life_ok [OF m Cons.prems(2)])
  have "ends grow ?c c'"
  proof (cases "u_done u")
    case True
    then show ?thesis using Cons.prems(3) ctx_done_ends [OF _ l] by simp
  next
    case False
    then obtain b c1 where r: "c_controlWake ?c" "writeLoop_round q tw (u_now u) ?c = Some (b, c1)"
      using Cons.prems(3) by (auto simp: Let_def split: if_splits option.splits)
    note w = writeLoop_round_moves [OF r, of grow]
    show ?thesis
    proof (cases b)
      case True
      then have "ends grow c1 c'"
        using Cons.IH [OF _ moves_life_ok [OF w(1) l]] Cons.prems(1,3) False r by (simp add: turns_ok_Cons)
      then show ?thesis by (rule ends_after [OF w(1)])
    next
      case b: False
      then show ?thesis using w(2) Cons.prems(3) False r by simp
    qed
  qed
  then show ?case by (rule ends_after [OF m])
qed simp

lemma idle_turns_ends:
  "turns_ok grow us \<Longrightarrow> life_ok c \<Longrightarrow> idle_turns q tw cw us c = Some c' \<Longrightarrow> ends grow c c'"
proof (induction us arbitrary: c)
  case (Cons u us)
  obtain res c1 where r: "idle_round q tw cw (u_now u) c = Some (res, c1)"
    using Cons.prems(3) by (auto split: option.splits)
  have m: "moves grow c (u_change u c1)"
    using timer_moves(2) [OF r, of grow] Cons.prems(1) by (auto simp: turns_ok_Cons intro: rtranclp_trans)
  note l = moves_life_ok [OF m Cons.prems(2)]
  show ?case
  proof (cases res)
    case IdleClosed
    then show ?thesis using timer_ends(2) r Cons.prems(3) by auto
  next
    case (IdleWait remaining)
    then have "ends grow (u_change u c1) c'"
      using Cons.IH [OF _ l] Cons.prems(1,3) ctx_done_ends [OF _ l] r by (auto simp: turns_ok_Cons Let_def split: if_splits)
    then show ?thesis by (rule ends_after [OF m])
  qed
qed simp

lemma keepAliveLoop_ends:
  "turns_ok grow us \<Longrightarrow> life_ok c \<Longrightarrow> keepAliveLoop q tw cw us c = Some c' \<Longrightarrow> ends grow c c'"
proof (induction us arbitrary: c)
  case (Cons u us)
  let ?c = "u_change u c"
  have m: "moves grow c ?c" using Cons.prems(1) by (simp add: turns_ok_Cons)
  have l: "life_ok ?c" by (rule moves_life_ok [OF m Cons.prems(2)])
  have go: "ends grow ?c c'" if "keepAlive_tick q tw cw (u_now u) ?c = Some (True, c1)" "keepAliveLoop q tw cw us c1 = Some c'" for c1
    using Cons.IH [OF _ moves_life_ok [OF timer_moves(1) [OF that(1), of grow] l] that(2)] Cons.prems(1)
      ends_after [OF timer_moves(1) [OF that(1)]] by (simp add: turns_ok_Cons)
  have "ends grow ?c c'"
    using Cons.prems(3) go ctx_done_ends [OF _ l] timer_ends(1)
    by (auto simp: Let_def split: if_splits option.splits prod.splits bool.splits)
  then show ?case by (rule ends_after [OF m])
qed simp

text \<open>What \<open>readRecord\<close> returns: a record, the report of a record that was skipped, or the error that
  ends the transport.\<close>

fun read_ok :: "go_error + bytes \<Rightarrow> bool" where
  "read_ok (Inr rec) \<longleftrightarrow> length rec < 2 ^ 62"
| "read_ok (Inl (WireError e)) \<longleftrightarrow> Code e \<le> 0x10"
| "read_ok (Inl e) \<longleftrightarrow> True"

lemma readLoop_round_ends:
  assumes "quicvarint q" "table_ok c" "read_ok res"
  shows "\<exists>b c'. readLoop_round q grow tw cw now res c = Some (b, c') \<and> moves grow c c' \<and>
    (\<not> b \<longrightarrow> c_closeErr c' \<noteq> None \<and> tr_closed (c_tr c')) \<and>
    (b \<longrightarrow> (\<exists>rec. res = Inr rec) \<or> (\<exists>e. res = Inl (WireError e)))"
proof (cases res)
  case (Inl e)
  have "\<exists>b c'. readLoop_round q grow tw cw now res c = Some (b, c') \<and>
    (\<not> b \<longrightarrow> c_closeErr c' \<noteq> None \<and> tr_closed (c_tr c')) \<and> (b \<longrightarrow> (\<exists>e. res = Inl (WireError e)))"
  proof (cases "\<exists>x. e = WireError x")
    case True
    then obtain x where x: "e = WireError x" by blast
    then obtain c' where "closeWithTransportError q tw cw now x c = Some c'"
      using closeWithTransportError_returns [OF assms(1), of x tw cw now c] assms(3) Inl by auto
    then show ?thesis using Inl x by (auto simp: readLoop_round_def)
  next
    case False
    then show ?thesis using Inl abort_closed by (cases e) (auto simp: readLoop_round_def tr_close_def)
  qed
  then obtain b c' where r: "readLoop_round q grow tw cw now res c = Some (b, c')"
    "\<not> b \<longrightarrow> c_closeErr c' \<noteq> None \<and> tr_closed (c_tr c')" "b \<longrightarrow> (\<exists>e. res = Inl (WireError e))" by blast
  moreover have "moves grow c c'" using moves_ops [OF readLoop_round_ops [OF assms(1,2) _ r(1)]] Inl by simp
  ultimately show ?thesis by blast
next
  case (Inr rec)
  then show ?thesis using readLoop_round_returns [OF assms(1,2)] assms(3) moves_ops by fastforce
qed

lemma readLoop_ends:
  assumes "quicvarint q"
  shows "(\<forall>(u, res) \<in> set us. between grow (u_change u) \<and> read_ok res) \<Longrightarrow> table_ok c \<Longrightarrow>
    (readLoop q grow tw cw us c = Some c' \<longrightarrow> ends grow c c' \<and> tr_closed (c_tr c')) \<and>
    ((\<exists>(u, res) \<in> set us. \<forall>rec e. res \<noteq> Inr rec \<and> res \<noteq> Inl (WireError e)) \<longrightarrow> readLoop q grow tw cw us c \<noteq> None)"
proof (induction us arbitrary: c)
  case (Cons ur us)
  obtain u res where ur: "ur = (u, res)" by fastforce
  let ?c = "u_change u c"
  have m: "moves grow c ?c" and ok: "read_ok res" using Cons.prems(1) by (simp_all add: ur between_def)
  obtain b c1 where r: "readLoop_round q grow tw cw (u_now u) res ?c = Some (b, c1)" "moves grow ?c c1"
    "\<not> b \<longrightarrow> c_closeErr c1 \<noteq> None \<and> tr_closed (c_tr c1)" "b \<longrightarrow> (\<exists>rec. res = Inr rec) \<or> (\<exists>e. res = Inl (WireError e))"
    using readLoop_round_ends [OF assms moves_table_ok [OF m Cons.prems(2)] ok] by blast
  have m1: "moves grow c c1" using m r(2) by (rule rtranclp_trans)
  show ?case
  proof (cases b)
    case True
    have ih: "(readLoop q grow tw cw us c1 = Some c' \<longrightarrow> ends grow c1 c' \<and> tr_closed (c_tr c')) \<and>
      ((\<exists>(u, res) \<in> set us. \<forall>rec e. res \<noteq> Inr rec \<and> res \<noteq> Inl (WireError e)) \<longrightarrow> readLoop q grow tw cw us c1 \<noteq> None)"
      using Cons.IH [OF _ moves_table_ok [OF m1 Cons.prems(2)]] Cons.prems(1) by (simp add: ur)
    show ?thesis using ih r(1,4) True ends_after [OF m1] by (auto simp: ur)
  next
    case False
    then show ?thesis using r(1,3) m1 by (auto simp: ur ends_def)
  qed
qed simp

section \<open>Properties\<close>



end
