(* ===== verification/Stream_Handles.thy ===== *)
theory Stream_Handles
  imports Conn_Loops
begin

text \<open>The stream types of the API (\<open>stream.go\<close>, \<open>conn.go\<close>): \<open>ReceiveStream\<close>, \<open>SendStream\<close> and \<open>Stream\<close> each hold a pointer
  to a stream and offer the methods of the directions it has. The calls that open and accept streams return
  them. The theory shows that an application that only has the handles these calls gave it never reads a
  stream that it cannot receive on, nor writes to one that it cannot send on, and that what it does is
  made of the steps of the connection.\<close>

section \<open>Opening and accepting\<close>

record ReceiveStream =
  rs_s :: ptr

record SendStream =
  ss_s :: ptr

record Stream_handle =
  st_s :: ptr

text \<open>The handle of a stream that a call returns, or its error.\<close>

definition hand_out :: "(ptr \<Rightarrow> 'h) \<Rightarrow> go_error + ptr \<Rightarrow> go_error + 'h" where
  "hand_out f res = (case res of Inl e \<Rightarrow> Inl e | Inr p \<Rightarrow> Inr (f p))"

definition AcceptStream :: "go_error \<Rightarrow> round list \<Rightarrow> Conn \<Rightarrow> ((go_error + Stream_handle) \<times> Conn) option" where
  "AcceptStream ctxErr rs c = do {
     (res, c) \<leftarrow> accept ctxErr dirBidi rs c;
     Some (hand_out (\<lambda>p. \<lparr>st_s = p\<rparr>) res, c)
   }"

definition AcceptUniStream :: "go_error \<Rightarrow> round list \<Rightarrow> Conn \<Rightarrow> ((go_error + ReceiveStream) \<times> Conn) option" where
  "AcceptUniStream ctxErr rs c = do {
     (res, c) \<leftarrow> accept ctxErr dirUni rs c;
     Some (hand_out (\<lambda>p. \<lparr>rs_s = p\<rparr>) res, c)
   }"

definition OpenStream :: "Conn \<Rightarrow> (go_error + Stream_handle) \<times> Conn" where
  "OpenStream c = (let (res, c) = openNow dirBidi c in (hand_out (\<lambda>p. \<lparr>st_s = p\<rparr>) res, c))"

definition OpenStreamSync :: "go_error \<Rightarrow> round list \<Rightarrow> Conn \<Rightarrow> ((go_error + Stream_handle) \<times> Conn) option" where
  "OpenStreamSync ctxErr rs c = do {
     (res, c) \<leftarrow> open_sync ctxErr dirBidi rs c;
     Some (hand_out (\<lambda>p. \<lparr>st_s = p\<rparr>) res, c)
   }"

definition OpenUniStream :: "Conn \<Rightarrow> (go_error + SendStream) \<times> Conn" where
  "OpenUniStream c = (let (res, c) = openNow dirUni c in (hand_out (\<lambda>p. \<lparr>ss_s = p\<rparr>) res, c))"

definition OpenUniStreamSync :: "go_error \<Rightarrow> round list \<Rightarrow> Conn \<Rightarrow> ((go_error + SendStream) \<times> Conn) option" where
  "OpenUniStreamSync ctxErr rs c = do {
     (res, c) \<leftarrow> open_sync ctxErr dirUni rs c;
     Some (hand_out (\<lambda>p. \<lparr>ss_s = p\<rparr>) res, c)
   }"

section \<open>The methods\<close>

text \<open>A context is given by its cause, \<open>None\<close> while it is not cancelled. That of a stream is derived from that
  of the connection. The methods that set a deadline return no error.\<close>

definition Conn_Context :: "Conn \<Rightarrow> go_error option" where
  "Conn_Context c = c_cause c"

definition stream_ctx :: "ptr \<Rightarrow> Conn \<Rightarrow> go_error option" where
  "stream_ctx p c = (if s_cause (obj c p) \<noteq> None then s_cause (obj c p) else Conn_Context c)"

subsection \<open>ReceiveStream\<close>

definition ReceiveStream_StreamID :: "ReceiveStream \<Rightarrow> Conn \<Rightarrow> StreamID" where
  "ReceiveStream_StreamID s c = s_id (obj c (rs_s s))"

definition ReceiveStream_Read ::
  "ReceiveStream \<Rightarrow> nat \<Rightarrow> round list \<Rightarrow> Conn \<Rightarrow> ((go_error + bytes) \<times> Conn) option" where
  "ReceiveStream_Read s k rs c = read (rs_s s) k rs c"

definition ReceiveStream_Peek ::
  "ReceiveStream \<Rightarrow> nat \<Rightarrow> round list \<Rightarrow> Conn \<Rightarrow> ((bytes \<times> go_error option) \<times> Conn) option" where
  "ReceiveStream_Peek s k rs c = peek (rs_s s) k rs c"

definition ReceiveStream_CancelRead :: "ReceiveStream \<Rightarrow> u64 \<Rightarrow> Conn \<Rightarrow> Conn" where
  "ReceiveStream_CancelRead s code c = cancelRead (rs_s s) code c"

definition ReceiveStream_SetReadDeadline :: "ReceiveStream \<Rightarrow> int option \<Rightarrow> Conn \<Rightarrow> go_error option \<times> Conn" where
  "ReceiveStream_SetReadDeadline s t c = (None, setReadDeadline (rs_s s) t c)"

subsection \<open>SendStream\<close>

definition SendStream_StreamID :: "SendStream \<Rightarrow> Conn \<Rightarrow> StreamID" where
  "SendStream_StreamID s c = s_id (obj c (ss_s s))"

definition SendStream_Write ::
  "codec \<Rightarrow> write_outcome \<Rightarrow> SendStream \<Rightarrow> bytes \<Rightarrow> write_step list \<Rightarrow> Conn \<Rightarrow>
   ((nat \<times> go_error option) \<times> Conn) option" where
  "SendStream_Write q tw s p ws c = stream_write q tw (ss_s s) p ws c"

definition SendStream_Close ::
  "codec \<Rightarrow> write_outcome \<Rightarrow> int \<Rightarrow> SendStream \<Rightarrow> Conn \<Rightarrow> (go_error option \<times> Conn) option" where
  "SendStream_Close q tw now s c = closeSend q tw now (ss_s s) c"

definition SendStream_CancelWrite :: "SendStream \<Rightarrow> u64 \<Rightarrow> Conn \<Rightarrow> Conn" where
  "SendStream_CancelWrite s code c = cancelWrite (ss_s s) code c"

definition SendStream_Context :: "SendStream \<Rightarrow> Conn \<Rightarrow> go_error option" where
  "SendStream_Context s c = stream_ctx (ss_s s) c"

definition SendStream_SetPriority :: "SendStream \<Rightarrow> int \<Rightarrow> bool \<Rightarrow> Conn \<Rightarrow> Conn" where
  "SendStream_SetPriority s urg inc c = setPriority (ss_s s) urg inc c"

definition SendStream_SetWriteDeadline :: "SendStream \<Rightarrow> int option \<Rightarrow> Conn \<Rightarrow> go_error option \<times> Conn" where
  "SendStream_SetWriteDeadline s t c = (None, setWriteDeadline (ss_s s) t c)"

subsection \<open>Stream\<close>

definition Stream_StreamID :: "Stream_handle \<Rightarrow> Conn \<Rightarrow> StreamID" where
  "Stream_StreamID s c = s_id (obj c (st_s s))"

definition Stream_Read :: "Stream_handle \<Rightarrow> nat \<Rightarrow> round list \<Rightarrow> Conn \<Rightarrow> ((go_error + bytes) \<times> Conn) option" where
  "Stream_Read s k rs c = read (st_s s) k rs c"

definition Stream_Write ::
  "codec \<Rightarrow> write_outcome \<Rightarrow> Stream_handle \<Rightarrow> bytes \<Rightarrow> write_step list \<Rightarrow> Conn \<Rightarrow>
   ((nat \<times> go_error option) \<times> Conn) option" where
  "Stream_Write q tw s p ws c = stream_write q tw (st_s s) p ws c"

definition Stream_Close ::
  "codec \<Rightarrow> write_outcome \<Rightarrow> int \<Rightarrow> Stream_handle \<Rightarrow> Conn \<Rightarrow> (go_error option \<times> Conn) option" where
  "Stream_Close q tw now s c = closeSend q tw now (st_s s) c"

definition Stream_CancelRead :: "Stream_handle \<Rightarrow> u64 \<Rightarrow> Conn \<Rightarrow> Conn" where
  "Stream_CancelRead s code c = cancelRead (st_s s) code c"

definition Stream_CancelWrite :: "Stream_handle \<Rightarrow> u64 \<Rightarrow> Conn \<Rightarrow> Conn" where
  "Stream_CancelWrite s code c = cancelWrite (st_s s) code c"

definition Stream_Context :: "Stream_handle \<Rightarrow> Conn \<Rightarrow> go_error option" where
  "Stream_Context s c = stream_ctx (st_s s) c"

definition Stream_SetPriority :: "Stream_handle \<Rightarrow> int \<Rightarrow> bool \<Rightarrow> Conn \<Rightarrow> Conn" where
  "Stream_SetPriority s urg inc c = setPriority (st_s s) urg inc c"

definition Stream_Peek ::
  "Stream_handle \<Rightarrow> nat \<Rightarrow> round list \<Rightarrow> Conn \<Rightarrow> ((bytes \<times> go_error option) \<times> Conn) option" where
  "Stream_Peek s k rs c = peek (st_s s) k rs c"

definition Stream_SetDeadline :: "Stream_handle \<Rightarrow> int option \<Rightarrow> Conn \<Rightarrow> go_error option \<times> Conn" where
  "Stream_SetDeadline s t c = (None, setWriteDeadline (st_s s) t (setReadDeadline (st_s s) t c))"

definition Stream_SetReadDeadline :: "Stream_handle \<Rightarrow> int option \<Rightarrow> Conn \<Rightarrow> go_error option \<times> Conn" where
  "Stream_SetReadDeadline s t c = (None, setReadDeadline (st_s s) t c)"

definition Stream_SetWriteDeadline :: "Stream_handle \<Rightarrow> int option \<Rightarrow> Conn \<Rightarrow> go_error option \<times> Conn" where
  "Stream_SetWriteDeadline s t c = (None, setWriteDeadline (st_s s) t c)"

section \<open>Streams keep their directions\<close>

lemma nth_update: "xs[i := x] ! p = (if i = p \<and> p < length xs then x else xs ! p)"
  by (cases "i < length xs") (auto simp: nth_list_update list_update_beyond)

lemma table_step_entry:
  assumes "table_step t t'" "p < length (tb_objs t)"
  shows "p < length (tb_objs t') \<and> e_id (tb_objs t' ! p) = e_id (tb_objs t ! p) \<and>
    e_canRecv (tb_objs t' ! p) = e_canRecv (tb_objs t ! p) \<and> e_canSend (tb_objs t' ! p) = e_canSend (tb_objs t ! p)"
  using assms
  by (induction rule: table_step.induct)
    (auto simp: tb_open_peer_def tb_open_local_def tb_new_def tb_accept_def tb_complete_def tb_end_def tb_allow_def
      nth_append nth_update Let_def)

lemma moves_refine: "moves grow c c' \<Longrightarrow> table_ok c \<Longrightarrow> table_step\<^sup>*\<^sup>* (table_of c) (table_of c')"
proof (induction rule: rtranclp_induct)
  case (step c1 c2)
  obtain w w' where s: "conn_step grow (w, c1) (w', c2)" using step(2) by (auto simp: conn_move_def)
  have "table_ok c1" by (rule moves_table_ok [OF step(1,4)])
  then have "table_step\<^sup>*\<^sup>* (table_of c1) (table_of c2)" using conn_step_refines [OF s] by simp
  then show ?case using step.IH [OF step(4)] by (rule rtranclp_trans [rotated])
qed simp

lemma moves_stream:
  assumes "moves grow c c'" "table_ok c" "p < length (c_objs c)"
  shows "p < length (c_objs c')" "s_id (obj c' p) = s_id (obj c p)"
    "s_canRecv (obj c' p) = s_canRecv (obj c p)" "s_canSend (obj c' p) = s_canSend (obj c p)"
proof -
  have "p < length (tb_objs t') \<and> e_id (tb_objs t' ! p) = e_id (tb_objs t ! p) \<and>
    e_canRecv (tb_objs t' ! p) = e_canRecv (tb_objs t ! p) \<and> e_canSend (tb_objs t' ! p) = e_canSend (tb_objs t ! p)"
    if "table_step\<^sup>*\<^sup>* t t'" "p < length (tb_objs t)" for t t'
    using that by (induction rule: rtranclp_induct) (auto dest: table_step_entry)
  from this [OF moves_refine [OF assms(1,2)]] assms(3)
  show "p < length (c_objs c')" "s_id (obj c' p) = s_id (obj c p)"
    "s_canRecv (obj c' p) = s_canRecv (obj c p)" "s_canSend (obj c' p) = s_canSend (obj c p)"
    by (auto simp: table_of_def entry_of_def)
qed

lemma moves_receiver: "moves grow c c' \<Longrightarrow> table_ok c \<Longrightarrow> receiver p c \<Longrightarrow> receiver p c'"
  using moves_stream by (auto simp: receiver_def)

lemma moves_sender: "moves grow c c' \<Longrightarrow> table_ok c \<Longrightarrow> sender p c \<Longrightarrow> sender p c'"
  using moves_stream by (auto simp: sender_def)

section \<open>Calls that wait\<close>

definition rounds_ok :: "(nat \<Rightarrow> nat \<Rightarrow> nat) \<Rightarrow> round list \<Rightarrow> bool" where
  "rounds_ok grow rs \<longleftrightarrow> (\<forall>r \<in> set rs. between grow (r_change r))"

definition steps_ok :: "(nat \<Rightarrow> nat \<Rightarrow> nat) \<Rightarrow> write_step list \<Rightarrow> bool" where
  "steps_ok grow ws \<longleftrightarrow> (\<forall>w \<in> set ws. rounds_ok grow (ws_rounds w) \<and> between grow (ws_change w))"

lemma rounds_ok_Cons: "rounds_ok grow (r # rs) \<longleftrightarrow> (\<forall>c. moves grow c (r_change r c)) \<and> rounds_ok grow rs"
  by (auto simp: rounds_ok_def between_def)

declare read.simps [simp del] peek_loop.simps [simp del] waitSendCredit.simps [simp del] write_loop.simps [simp del]
  open_sync.simps [simp del] accept.simps [simp del]

text \<open>An attempt, what happens meanwhile, and the attempts that follow.\<close>

lemma again:
  assumes "moves grow c c1" "rounds_ok grow (r # rs)" "\<And>c2. moves grow c c2 \<Longrightarrow> c2 = r_change r c1 \<Longrightarrow> moves grow c2 c'"
  shows "moves grow c c'"
proof -
  have "moves grow c (r_change r c1)" using assms(1,2) by (auto simp: rounds_ok_Cons intro: rtranclp_trans)
  then show ?thesis using assms(3) by (blast intro: rtranclp_trans)
qed

lemma read_moves:
  "rounds_ok grow rs \<Longrightarrow> table_ok c \<Longrightarrow> receiver p c \<Longrightarrow> read p k rs c = Some (res, c') \<Longrightarrow> moves grow c c'"
proof (induction rs arbitrary: c)
  case Nil
  have "moves grow c (snd (tryRead p k c))" by (rule moves_op [OF op_read [OF Nil(3)]])
  then show ?case using Nil(4) by (auto simp: read.simps [of _ _ "[]"] split: prod.splits try_read.splits if_splits)
next
  case (Cons r rs)
  have m: "moves grow c (snd (tryRead p k c))" by (rule moves_op [OF op_read [OF Cons.prems(3)]])
  show ?case
  proof (cases "moves grow c c'")
    case False
    then obtain ch t c1 where w: "tryRead p k c = (Wait ch t, c1)" "read p k rs (r_change r c1) = Some (res, c')"
      using Cons.prems(4) m by (auto simp: read.simps [of _ _ "_ # _"] split: prod.splits try_read.splits if_splits option.splits)
    have "moves grow c c1" using m w(1) by simp
    then show ?thesis
      using again [OF _ Cons.prems(1)] Cons.IH w(2) moves_table_ok [OF _ Cons.prems(2)] moves_receiver [OF _ Cons.prems(2,3)]
        Cons.prems(1) by (metis rounds_ok_Cons)
  qed
qed

lemma peek_moves:
  assumes "rounds_ok grow rs" "table_ok c" "receiver p c" "peek p k rs c = Some (res, c')"
  shows "moves grow c c'"
proof -
  have "moves grow c c'" if "rounds_ok grow rs" "table_ok c" "receiver p c" "peek_loop p k rs c = Some (res, c')" for rs c
    using that
  proof (induction rs arbitrary: c)
    case Nil
    have "moves grow c (snd (tryPeek p k c))" by (rule moves_op [OF op_peek [OF Nil(3)]])
    then show ?case using Nil(4) by (auto simp: peek_loop.simps [of _ _ "[]"] split: prod.splits try_peek.splits)
  next
    case (Cons r rs)
    have m: "moves grow c (snd (tryPeek p k c))" by (rule moves_op [OF op_peek [OF Cons.prems(3)]])
    show ?case
    proof (cases "moves grow c c'")
      case False
      then obtain ch t c1 where w: "tryPeek p k c = (PeekWait ch t, c1)" "peek_loop p k rs (r_change r c1) = Some (res, c')"
        using Cons.prems(4) m by (auto simp: peek_loop.simps [of _ _ "_ # _"] split: prod.splits try_peek.splits option.splits)
      have "moves grow c c1" using m w(1) by simp
      then show ?thesis
        using again [OF _ Cons.prems(1)] Cons.IH w(2) moves_table_ok [OF _ Cons.prems(2)] moves_receiver [OF _ Cons.prems(2,3)]
          Cons.prems(1) by (metis rounds_ok_Cons)
    qed
  qed
  then show ?thesis using assms by (auto simp: peek_def Let_def split: if_splits)
qed

lemma waitSendCredit_moves:
  "rounds_ok grow rs \<Longrightarrow> table_ok c \<Longrightarrow> sender p c \<Longrightarrow> waitSendCredit now p rs c = Some (e, rs', c') \<Longrightarrow> moves grow c c'"
proof (induction rs arbitrary: c now)
  case Nil
  have "moves grow c (snd (trySend now p c))" by (rule moves_op [OF op_trySend [OF Nil(3)]])
  then show ?case using Nil(4) by (auto simp: waitSendCredit.simps [of _ _ "[]"] split: prod.splits try_send.splits)
next
  case (Cons r rs)
  have m: "moves grow c (snd (trySend now p c))" by (rule moves_op [OF op_trySend [OF Cons.prems(3)]])
  show ?case
  proof (cases "moves grow c c'")
    case False
    then obtain ch ch' t c1 where w: "trySend now p c = (SendWait ch ch' t, c1)"
      "waitSendCredit (r_now r) p rs (r_change r c1) = Some (e, rs', c')"
      using Cons.prems(4) m by (auto simp: waitSendCredit.simps [of _ _ "_ # _"] split: prod.splits try_send.splits option.splits)
    have "moves grow c c1" using m w(1) by simp
    then show ?thesis
      using again [OF _ Cons.prems(1)] Cons.IH w(2) moves_table_ok [OF _ Cons.prems(2)] moves_sender [OF _ Cons.prems(2,3)]
        Cons.prems(1) by (metis rounds_ok_Cons)
  qed
qed

lemma write_loop_moves:
  "steps_ok grow ws \<Longrightarrow> table_ok c \<Longrightarrow> sender i c \<Longrightarrow> write_loop q tw i p sofar ws c = Some (res, c') \<Longrightarrow> moves grow c c'"
proof (induction ws arbitrary: c sofar)
  case Nil
  then show ?case by (simp add: write_loop.simps [of _ _ _ _ _ "[]"] split: if_splits)
next
  case (Cons w ws)
  have ok: "rounds_ok grow (ws_rounds w)" "\<And>c. moves grow c (ws_change w c)" "steps_ok grow ws"
    using Cons.prems(1) by (auto simp: steps_ok_def between_def)
  show ?case
  proof (cases "sofar \<ge> length p")
    case True
    then show ?thesis using Cons.prems(4) by (simp add: write_loop.simps [of _ _ _ _ _ "_ # _"])
  next
    case False
    then obtain e rs c1 where s: "waitSendCredit (ws_now w) i (ws_rounds w) c = Some (e, rs, c1)"
      using Cons.prems(4) by (auto simp: write_loop.simps [of _ _ _ _ _ "_ # _"] split: option.splits)
    note m1 = waitSendCredit_moves [OF ok(1) Cons.prems(2,3) s]
    show ?thesis
    proof (cases e)
      case (Some x)
      then show ?thesis using Cons.prems(4) False s m1 by (simp add: write_loop.simps [of _ _ _ _ _ "_ # _"])
    next
      case None
      have m2: "moves grow c (ws_change w c1)" using m1 ok(2) by (rule rtranclp_trans)
      obtain n x c2 where wc: "writeChunk q tw (ws_now w) i (drop sofar p) (ws_change w c1) = Some ((n, x), c2)"
        using Cons.prems(4) False s None by (auto simp: write_loop.simps [of _ _ _ _ _ "_ # _"] split: option.splits)
      have m3: "moves grow c c2"
        using moves_ops [OF writeChunk_ops [OF moves_sender [OF m2 Cons.prems(2,3)] wc]] by (rule rtranclp_trans [OF m2])
      have "x = None \<Longrightarrow> write_loop q tw i p (sofar + n) ws c2 = Some (res, c')" "x \<noteq> None \<Longrightarrow> c' = c2"
        using Cons.prems(4) False s None wc by (auto simp: write_loop.simps [of _ _ _ _ _ "_ # _"])
      then show ?thesis
        using Cons.IH [OF ok(3) moves_table_ok [OF m3 Cons.prems(2)] moves_sender [OF m3 Cons.prems(2,3)]] m3
        by (cases x) (auto intro: rtranclp_trans)
    qed
  qed
qed

section \<open>The directions of a new handle\<close>

lemma tryOpen_directions:
  assumes "table_ok c" "tryOpen d c = (Got p, c')"
  shows "sender p c'" "receiver p c' \<longleftrightarrow> d \<noteq> dirUni"
proof -
  have p: "p = length (c_objs c)" and c: "c_closeErr c = None" "o_next (c_out c d) < o_max (c_out c d)"
    using assms(2) by (auto simp: tryOpen_def newStreamLocked_def Let_def split: option.splits if_splits prod.splits)
  have "c' = snd (tryOpen d c)" using assms(2) by simp
  then have o: "c_objs c' = c_objs c @ [(new_stream c (streamID_of c (o_next (c_out c d)) d True))\<lparr>s_accepted := True\<rparr>]"
    using c by (auto simp: tryOpen_snd Let_def)
  show "sender p c'" "receiver p c' \<longleftrightarrow> d \<noteq> dirUni"
    by (auto simp: sender_def receiver_def o p new_stream_def streamID_of_local streamID_of_dir Let_def)
qed

lemma tryAccept_directions:
  assumes "table_ok c" "tryAccept d c = (Got p, c')"
  shows "receiver p c'" "sender p c' \<longleftrightarrow> d \<noteq> dirUni"
proof -
  have q: "p \<in> set (i_queue (c_in c d))"
    using assms(2) by (auto simp: tryAccept_def Let_def split: option.splits list.splits prod.splits)
  have "peer_ok (table_of c) d" using assms(1) by (simp add: table_ok_def table_inv_def)
  moreover have "p \<in> set (tb_queue (table_of c) d)" using q by (simp add: table_of_def)
  ultimately have "p < length (tb_objs (table_of c)) \<and> tb_peer (table_of c) d (tb_objs (table_of c) ! p)"
    unfolding peer_ok_def by blast
  moreover have "tb_objs (table_of c) = map entry_of (c_objs c)" by (simp add: table_of_def)
  ultimately have "p < length (c_objs c) \<and> tb_peer (table_of c) d (entry_of (obj c p))" by auto
  then have p: "p < length (c_objs c)" "\<not> initiatedLocally c (s_id (obj c p))" "streamDir (s_id (obj c p)) = d"
    by (auto simp: tb_peer_def entry_of_def)
  have m: "moves undefined c c'" using moves_op [OF op_accept, of undefined c d] assms(2) by simp
  show "receiver p c'" "sender p c' \<longleftrightarrow> d \<noteq> dirUni"
    using moves_stream [OF m assms(1) p(1)] table_ok_entry [OF assms(1) p(1)] p by (simp_all add: receiver_def sender_def)
qed

lemma openNow_directions:
  assumes "table_ok c" "openNow d c = (res, c')"
  shows "moves grow c c' \<and> (\<forall>p. res = Inr p \<longrightarrow> sender p c' \<and> (receiver p c' \<longleftrightarrow> d \<noteq> dirUni))"
  using assms(2) moves_op [OF op_open, of grow c d] tryOpen_directions [OF assms(1)]
  by (auto simp: openNow_def split: prod.splits try_stream.splits)

lemma open_sync_directions:
  "rounds_ok grow rs \<Longrightarrow> table_ok c \<Longrightarrow> open_sync e d rs c = Some (res, c') \<Longrightarrow>
   moves grow c c' \<and> (\<forall>p. res = Inr p \<longrightarrow> sender p c' \<and> (receiver p c' \<longleftrightarrow> d \<noteq> dirUni))"
proof (induction rs arbitrary: c)
  case Nil
  then show ?case
    using moves_op [OF op_open, of grow c d] tryOpen_directions [OF Nil(2)]
    by (auto simp: open_sync.simps [of _ _ "[]"] split: prod.splits try_stream.splits)
next
  case (Cons r rs)
  have m: "moves grow c (snd (tryOpen d c))" by (rule moves_op [OF op_open])
  show ?case
  proof (cases "\<exists>ch c1. tryOpen d c = (StreamWait ch, c1) \<and> \<not> r_expired r")
    case True
    then obtain ch c1 where w: "tryOpen d c = (StreamWait ch, c1)" "\<not> r_expired r" by blast
    have m1: "moves grow c (r_change r c1)" using m w(1) Cons.prems(1) by (auto simp: rounds_ok_Cons intro: rtranclp_trans)
    have "open_sync e d rs (r_change r c1) = Some (res, c')" using Cons.prems(3) w by (simp add: open_sync.simps [of _ _ "_ # _"])
    then show ?thesis
      using Cons.IH [OF _ moves_table_ok [OF m1 Cons.prems(2)]] Cons.prems(1) rtranclp_trans [OF m1] by (simp add: rounds_ok_Cons)
  next
    case False
    then show ?thesis
      using m Cons.prems(3) tryOpen_directions [OF Cons.prems(2)]
      by (auto simp: open_sync.simps [of _ _ "_ # _"] split: prod.splits try_stream.splits)
  qed
qed

lemma accept_directions:
  "rounds_ok grow rs \<Longrightarrow> table_ok c \<Longrightarrow> accept e d rs c = Some (res, c') \<Longrightarrow>
   moves grow c c' \<and> (\<forall>p. res = Inr p \<longrightarrow> receiver p c' \<and> (sender p c' \<longleftrightarrow> d \<noteq> dirUni))"
proof (induction rs arbitrary: c)
  case Nil
  then show ?case
    using moves_op [OF op_accept, of grow c d] tryAccept_directions [OF Nil(2)]
    by (auto simp: accept.simps [of _ _ "[]"] split: prod.splits try_stream.splits)
next
  case (Cons r rs)
  have m: "moves grow c (snd (tryAccept d c))" by (rule moves_op [OF op_accept])
  show ?case
  proof (cases "\<exists>ch c1. tryAccept d c = (StreamWait ch, c1) \<and> \<not> r_expired r")
    case True
    then obtain ch c1 where w: "tryAccept d c = (StreamWait ch, c1)" "\<not> r_expired r" by blast
    have m1: "moves grow c (r_change r c1)" using m w(1) Cons.prems(1) by (auto simp: rounds_ok_Cons intro: rtranclp_trans)
    have "accept e d rs (r_change r c1) = Some (res, c')" using Cons.prems(3) w by (simp add: accept.simps [of _ _ "_ # _"])
    then show ?thesis
      using Cons.IH [OF _ moves_table_ok [OF m1 Cons.prems(2)]] Cons.prems(1) rtranclp_trans [OF m1] by (simp add: rounds_ok_Cons)
  next
    case False
    then show ?thesis
      using m Cons.prems(3) tryAccept_directions [OF Cons.prems(2)]
      by (auto simp: accept.simps [of _ _ "_ # _"] split: prod.splits try_stream.splits)
  qed
qed

section \<open>An application and its handles\<close>

text \<open>The handles that an application has, and the directions of the streams behind them.\<close>

datatype handle = Receiving ReceiveStream | Sending SendStream | Both Stream_handle

fun handle_ok :: "Conn \<Rightarrow> handle \<Rightarrow> bool" where
  "handle_ok c (Receiving s) \<longleftrightarrow> receiver (rs_s s) c \<and> \<not> sender (rs_s s) c"
| "handle_ok c (Sending s) \<longleftrightarrow> sender (ss_s s) c \<and> \<not> receiver (ss_s s) c"
| "handle_ok c (Both s) \<longleftrightarrow> receiver (st_s s) c \<and> sender (st_s s) c"

definition hold :: "('h \<Rightarrow> handle) \<Rightarrow> go_error + 'h \<Rightarrow> handle set \<Rightarrow> handle set" where
  "hold f res hs = (case res of Inl _ \<Rightarrow> hs | Inr h \<Rightarrow> insert (f h) hs)"

text \<open>A step of an application with the handles \<open>hs\<close>: it opens or accepts a stream, or calls a method of a handle that
  it has; in between the rest of the program moves. Nothing is required of the handles.\<close>

inductive app_step ::
  "codec \<Rightarrow> write_outcome \<Rightarrow> (nat \<Rightarrow> nat \<Rightarrow> nat) \<Rightarrow> Conn \<times> handle set \<Rightarrow> Conn \<times> handle set \<Rightarrow> bool" for q tw grow where
  app_others: "moves grow c c' \<Longrightarrow> app_step q tw grow (c, hs) (c', hs)"
| app_AcceptStream: "rounds_ok grow rs \<Longrightarrow> AcceptStream e rs c = Some (res, c') \<Longrightarrow>
    app_step q tw grow (c, hs) (c', hold Both res hs)"
| app_AcceptUniStream: "rounds_ok grow rs \<Longrightarrow> AcceptUniStream e rs c = Some (res, c') \<Longrightarrow>
    app_step q tw grow (c, hs) (c', hold Receiving res hs)"
| app_OpenStream: "OpenStream c = (res, c') \<Longrightarrow> app_step q tw grow (c, hs) (c', hold Both res hs)"
| app_OpenStreamSync: "rounds_ok grow rs \<Longrightarrow> OpenStreamSync e rs c = Some (res, c') \<Longrightarrow>
    app_step q tw grow (c, hs) (c', hold Both res hs)"
| app_OpenUniStream: "OpenUniStream c = (res, c') \<Longrightarrow> app_step q tw grow (c, hs) (c', hold Sending res hs)"
| app_OpenUniStreamSync: "rounds_ok grow rs \<Longrightarrow> OpenUniStreamSync e rs c = Some (res, c') \<Longrightarrow>
    app_step q tw grow (c, hs) (c', hold Sending res hs)"
| app_receive_Read: "Receiving s \<in> hs \<Longrightarrow> rounds_ok grow rs \<Longrightarrow> ReceiveStream_Read s k rs c = Some (dat, c') \<Longrightarrow>
    app_step q tw grow (c, hs) (c', hs)"
| app_receive_Peek: "Receiving s \<in> hs \<Longrightarrow> rounds_ok grow rs \<Longrightarrow> ReceiveStream_Peek s k rs c = Some (dat', c') \<Longrightarrow>
    app_step q tw grow (c, hs) (c', hs)"
| app_receive_CancelRead: "Receiving s \<in> hs \<Longrightarrow> app_step q tw grow (c, hs) (ReceiveStream_CancelRead s code c, hs)"
| app_receive_deadline: "Receiving s \<in> hs \<Longrightarrow> app_step q tw grow (c, hs) (snd (ReceiveStream_SetReadDeadline s t c), hs)"
| app_send_Write: "Sending s' \<in> hs \<Longrightarrow> steps_ok grow ws \<Longrightarrow> SendStream_Write q tw s' p ws c = Some (n, c') \<Longrightarrow>
    app_step q tw grow (c, hs) (c', hs)"
| app_send_Close: "Sending s' \<in> hs \<Longrightarrow> SendStream_Close q tw now s' c = Some (err, c') \<Longrightarrow> app_step q tw grow (c, hs) (c', hs)"
| app_send_CancelWrite: "Sending s' \<in> hs \<Longrightarrow> app_step q tw grow (c, hs) (SendStream_CancelWrite s' code c, hs)"
| app_send_priority: "Sending s' \<in> hs \<Longrightarrow> app_step q tw grow (c, hs) (SendStream_SetPriority s' urg inc c, hs)"
| app_send_deadline: "Sending s' \<in> hs \<Longrightarrow> app_step q tw grow (c, hs) (snd (SendStream_SetWriteDeadline s' t c), hs)"
| app_Read: "Both s'' \<in> hs \<Longrightarrow> rounds_ok grow rs \<Longrightarrow> Stream_Read s'' k rs c = Some (dat, c') \<Longrightarrow> app_step q tw grow (c, hs) (c', hs)"
| app_Peek: "Both s'' \<in> hs \<Longrightarrow> rounds_ok grow rs \<Longrightarrow> Stream_Peek s'' k rs c = Some (dat', c') \<Longrightarrow> app_step q tw grow (c, hs) (c', hs)"
| app_CancelRead: "Both s'' \<in> hs \<Longrightarrow> app_step q tw grow (c, hs) (Stream_CancelRead s'' code c, hs)"
| app_Write: "Both s'' \<in> hs \<Longrightarrow> steps_ok grow ws \<Longrightarrow> Stream_Write q tw s'' p ws c = Some (n, c') \<Longrightarrow> app_step q tw grow (c, hs) (c', hs)"
| app_Close: "Both s'' \<in> hs \<Longrightarrow> Stream_Close q tw now s'' c = Some (err, c') \<Longrightarrow> app_step q tw grow (c, hs) (c', hs)"
| app_CancelWrite: "Both s'' \<in> hs \<Longrightarrow> app_step q tw grow (c, hs) (Stream_CancelWrite s'' code c, hs)"
| app_priority: "Both s'' \<in> hs \<Longrightarrow> app_step q tw grow (c, hs) (Stream_SetPriority s'' urg inc c, hs)"
| app_deadline: "Both s'' \<in> hs \<Longrightarrow> app_step q tw grow (c, hs) (snd (Stream_SetDeadline s'' t c), hs)"
| app_readDeadline: "Both s'' \<in> hs \<Longrightarrow> app_step q tw grow (c, hs) (snd (Stream_SetReadDeadline s'' t c), hs)"
| app_writeDeadline: "Both s'' \<in> hs \<Longrightarrow> app_step q tw grow (c, hs) (snd (Stream_SetWriteDeadline s'' t c), hs)"

lemma handle_ok_moves: "moves grow c c' \<Longrightarrow> table_ok c \<Longrightarrow> handle_ok c h \<Longrightarrow> handle_ok c' h"
  using moves_stream by (cases h) (auto simp: receiver_def sender_def)

lemma in_hold: "x \<in> hold f res hs \<longleftrightarrow> x \<in> hs \<or> (\<exists>h. res = Inr h \<and> x = f h)"
  by (cases res) (auto simp: hold_def)

lemma hand_out_Inr: "hand_out f res = Inr h \<longleftrightarrow> (\<exists>p. res = Inr p \<and> h = f p)"
  by (cases res) (auto simp: hand_out_def)

lemma receiving_moves:
  assumes "receiver p c"
  shows "moves grow c (cancelRead p code c)" "moves grow c (setReadDeadline p t c)"
  using assms op_cancelRead [OF assms] op_readDeadline by (auto simp: receiver_def intro!: moves_op)

lemma sending_moves:
  assumes "sender p c"
  shows "moves grow c (cancelWrite p code c)" "moves grow c (setPriority p urg inc c)" "moves grow c (setWriteDeadline p t c)"
    "closeSend q tw now p c = Some (err, c') \<Longrightarrow> moves grow c c'"
proof -
  show "moves grow c (cancelWrite p code c)" using moves_op [OF op_stop [OF _ assms]] by (auto simp: cancelWrite_def)
  show "moves grow c (setPriority p urg inc c)" "moves grow c (setWriteDeadline p t c)"
    using assms op_priority op_writeDeadline by (auto simp: sender_def intro!: moves_op)
  show "closeSend q tw now p c = Some (err, c') \<Longrightarrow> moves grow c c'" by (rule moves_ops [OF closeSend_ops [OF assms]])
qed

text \<open>The calls that hand out a handle.\<close>

lemma hand_out_moves:
  assumes "table_ok c"
  shows "rounds_ok grow rs \<Longrightarrow> AcceptStream e rs c = Some (res, c') \<Longrightarrow> moves grow c c' \<and> (\<forall>h. res = Inr h \<longrightarrow> handle_ok c' (Both h))"
    "rounds_ok grow rs \<Longrightarrow> AcceptUniStream e rs c = Some (res', c') \<Longrightarrow> moves grow c c' \<and> (\<forall>h. res' = Inr h \<longrightarrow> handle_ok c' (Receiving h))"
    "OpenStream c = (res, c') \<Longrightarrow> moves grow c c' \<and> (\<forall>h. res = Inr h \<longrightarrow> handle_ok c' (Both h))"
    "rounds_ok grow rs \<Longrightarrow> OpenStreamSync e rs c = Some (res, c') \<Longrightarrow> moves grow c c' \<and> (\<forall>h. res = Inr h \<longrightarrow> handle_ok c' (Both h))"
    "OpenUniStream c = (res'', c') \<Longrightarrow> moves grow c c' \<and> (\<forall>h. res'' = Inr h \<longrightarrow> handle_ok c' (Sending h))"
    "rounds_ok grow rs \<Longrightarrow> OpenUniStreamSync e rs c = Some (res'', c') \<Longrightarrow> moves grow c c' \<and> (\<forall>h. res'' = Inr h \<longrightarrow> handle_ok c' (Sending h))"
proof -
  note acc = accept_directions [OF _ assms, rotated] and opn = open_sync_directions [OF _ assms, rotated] and now = openNow_directions [OF assms, of _ _ _ grow]
  note defs = AcceptStream_def AcceptUniStream_def OpenStream_def OpenStreamSync_def OpenUniStream_def OpenUniStreamSync_def
  show "rounds_ok grow rs \<Longrightarrow> AcceptStream e rs c = Some (res, c') \<Longrightarrow> moves grow c c' \<and> (\<forall>h. res = Inr h \<longrightarrow> handle_ok c' (Both h))"
    by (auto simp: defs hand_out_Inr Option.bind_eq_Some_conv dest!: acc)
  show "rounds_ok grow rs \<Longrightarrow> AcceptUniStream e rs c = Some (res', c') \<Longrightarrow> moves grow c c' \<and> (\<forall>h. res' = Inr h \<longrightarrow> handle_ok c' (Receiving h))"
    by (auto simp: defs hand_out_Inr Option.bind_eq_Some_conv dest!: acc)
  show "rounds_ok grow rs \<Longrightarrow> OpenStreamSync e rs c = Some (res, c') \<Longrightarrow> moves grow c c' \<and> (\<forall>h. res = Inr h \<longrightarrow> handle_ok c' (Both h))"
    by (auto simp: defs hand_out_Inr Option.bind_eq_Some_conv dest!: opn)
  show "rounds_ok grow rs \<Longrightarrow> OpenUniStreamSync e rs c = Some (res'', c') \<Longrightarrow> moves grow c c' \<and> (\<forall>h. res'' = Inr h \<longrightarrow> handle_ok c' (Sending h))"
    by (auto simp: defs hand_out_Inr Option.bind_eq_Some_conv dest!: opn)
  show "OpenStream c = (res, c') \<Longrightarrow> moves grow c c' \<and> (\<forall>h. res = Inr h \<longrightarrow> handle_ok c' (Both h))"
    by (auto simp: defs hand_out_Inr dest!: now split: prod.split_asm)
  show "OpenUniStream c = (res'', c') \<Longrightarrow> moves grow c c' \<and> (\<forall>h. res'' = Inr h \<longrightarrow> handle_ok c' (Sending h))"
    by (auto simp: defs hand_out_Inr dest!: now split: prod.split_asm)
qed

lemmas handle_methods =
  ReceiveStream_Read_def ReceiveStream_Peek_def ReceiveStream_CancelRead_def ReceiveStream_SetReadDeadline_def
  SendStream_Write_def SendStream_Close_def SendStream_CancelWrite_def SendStream_SetPriority_def SendStream_SetWriteDeadline_def
  Stream_Read_def Stream_Peek_def Stream_CancelRead_def Stream_Write_def Stream_Close_def Stream_CancelWrite_def
  Stream_SetPriority_def Stream_SetReadDeadline_def Stream_SetWriteDeadline_def stream_write_def

lemma app_step_moves:
  assumes "app_step q tw grow s t" "table_ok (fst s)" "\<forall>h \<in> snd s. handle_ok (fst s) h"
  shows "moves grow (fst s) (fst t)"
  using assms
proof (induction rule: app_step.induct)
  case (app_deadline s hs c t)
  have r: "receiver (st_s s) c" "sender (st_s s) c" using app_deadline by auto
  note m = receiving_moves(2) [OF r(1), of grow t]
  have "table_ok c" using app_deadline(2) by simp
  then show ?case
    using sending_moves(3) [OF moves_sender [OF m _ r(2)], of grow t] rtranclp_trans [OF m] by (simp add: Stream_SetDeadline_def)
qed (auto simp: handle_methods hand_out_moves dest!: bspec
    intro: read_moves peek_moves write_loop_moves receiving_moves sending_moves)

lemma app_step_ok:
  assumes "app_step q tw grow s t" "table_ok (fst s)" "\<forall>h \<in> snd s. handle_ok (fst s) h"
  shows "\<forall>h \<in> snd t. handle_ok (fst t) h"
proof -
  have old: "\<forall>h \<in> snd s. handle_ok (fst t) h" using handle_ok_moves [OF app_step_moves [OF assms] assms(2)] assms(3) by blast
  note hands = hand_out_moves(1,2,4,6) [rotated 2] hand_out_moves(3,5) [rotated 1, of _ _ _ grow]
  show ?thesis
    using assms(1,2) old by (induction rule: app_step.induct) (auto simp: in_hold dest!: hands)
qed

section \<open>Contexts\<close>

text \<open>The context of a stream has the error of its sending side as its cause, or the plain cancellation of a stream that
  was closed.\<close>

definition ctx_ok :: "stream \<Rightarrow> bool" where
  "ctx_ok s \<longleftrightarrow> s_cause s = (if s_sendErr s \<noteq> None then s_sendErr s else if s_finSent s then Some ContextCanceled else None)"

interpretation ctx_law: stream_law ctx_ok
  by unfold_locales
    (auto simp: ctx_ok_def new_stream_def zero_stream_def data_obj_def bufferLocked_def reset_obj_def cancel_obj_def read_obj_def
      take_unread_def finish_obj_def stop_obj_def stream_cancel_def complete_obj_def sendDone_def Let_def)

section \<open>Properties\<close>

text \<open>C16. The types of the API tell what a stream can do: however an application uses the handles it was given, and
  whatever the rest of the program does, behind each \<open>ReceiveStream\<close> there is a stream of this connection that can
  receive and not send, behind each \<open>SendStream\<close> one that can send and not receive, and behind each \<open>Stream\<close> one
  that can do both, for good. So a method never meets a stream without the direction it works on, and all that
  the application does is made of steps of the connection.\<close>

theorem handles_typed:
  assumes "conn_start q' s" "(app_step q tw grow)\<^sup>*\<^sup>* (snd s, {}) (c, hs)"
  shows "(\<forall>h \<in> hs. handle_ok c h) \<and> moves grow (snd s) c"
proof -
  have "moves grow (snd s) (fst t) \<and> (\<forall>h \<in> snd t. handle_ok (fst t) h)" if "(app_step q tw grow)\<^sup>*\<^sup>* (snd s, {}) t" for t
    using that
  proof (induction rule: rtranclp_induct)
    case (step t u)
    have "table_ok (snd s)" using table.base [OF assms(1)] .
    then have "table_ok (fst t)" using moves_table_ok step.IH by blast
    then show ?case using app_step_moves [OF step(2)] app_step_ok [OF step(2)] step.IH by (meson rtranclp_trans)
  qed simp
  from this [OF assms(2)] show ?thesis by simp
qed

theorem handles_typed_witness:
  "\<exists>c'. AcceptStream ContextCanceled [] example_conn = Some (Inr \<lparr>st_s = 0\<rparr>, c') \<and> receiver 0 c' \<and> sender 0 c'"
proof -
  obtain c' where a: "AcceptStream ContextCanceled [] example_conn = Some (Inr \<lparr>st_s = 0\<rparr>, c')"
    by (simp add: AcceptStream_def accept.simps tryAccept_def example_conn_fields hand_out_def Let_def)
  have "app_step rfc9000 (\<lambda>ws b. Inr (length b)) example_grow (snd (False, example_start), {}) (example_conn, {})"
    using moves_run [OF example_run, of example_grow] app_others by fastforce
  moreover have "app_step rfc9000 (\<lambda>ws b. Inr (length b)) example_grow (example_conn, {}) (c', hold Both (Inr \<lparr>st_s = 0\<rparr>) {})"
    by (rule app_AcceptStream [OF _ a]) (simp add: rounds_ok_def)
  ultimately have "(app_step rfc9000 (\<lambda>ws b. Inr (length b)) example_grow)\<^sup>*\<^sup>* (snd (False, example_start), {}) (c', {Both \<lparr>st_s = 0\<rparr>})"
    by (simp add: hold_def)
  from handles_typed [OF conn_start_example this] a show ?thesis by simp
qed

text \<open>C24. \<open>Context\<close> tells what became of the sending side: in every reachable state the context of a stream is
  cancelled exactly if the stream was closed, was reset by \<open>CancelWrite\<close> or by the peer's STOP\_SENDING, or the
  connection has ended; its cause is the error of the reset, the cancellation of an orderly close, or else the reason
  for which the connection ended.\<close>

theorem context_follows_stream:
  assumes "conn_start q s" "conn_run grow s (w, c)" "sender p c"
  shows "SendStream_Context \<lparr>ss_s = p\<rparr> c =
      (if s_sendErr (obj c p) \<noteq> None then s_sendErr (obj c p)
       else if s_finSent (obj c p) then Some ContextCanceled else c_closeErr c) \<and>
    Stream_Context \<lparr>st_s = p\<rparr> c = SendStream_Context \<lparr>ss_s = p\<rparr> c"
proof -
  have "every ctx_ok c" "life_ok c" using ctx_law.streams.reachable [OF assms(1,2)] life.reachable [OF assms(1,2)] by simp_all
  moreover from this have "ctx_ok (obj c p)" using assms(3) by (simp add: every_obj sender_def)
  ultimately show ?thesis
    by (auto simp: SendStream_Context_def Stream_Context_def stream_ctx_def Conn_Context_def ctx_ok_def life_of_def)
qed

theorem context_follows_stream_witness:
  "sender 0 example_conn \<and> SendStream_Context \<lparr>ss_s = 0\<rparr> example_conn = None"
proof -
  have "sender 0 example_conn" "s_sendErr (obj example_conn 0) = None" "\<not> s_finSent (obj example_conn 0)" "c_closeErr example_conn = None"
    by (simp_all add: sender_def example_conn_fields new_stream_def streamDir_def zero_stream_def Let_def)
  then show ?thesis using context_follows_stream [OF conn_start_example example_run, of 0] by simp
qed

end
