(* ===== verification/Peer_Spec.thy ===== *)
theory Peer_Spec
  imports Conn_State
begin

text \<open>
  What two endpoints owe each other. An \<open>endpoint\<close> is what the other side can tell of a connection: the
  counters of streams, the limits declared and granted, the data sent and received on every stream,
  the control frames queued. Its steps emit frames (\<open>ep_step\<close>); a frame that arrives first opens the
  streams it implies (\<open>ep_pre\<close>) and then takes effect (\<open>ep_take\<close>). Two endpoints with a channel of frames
  in each direction are a pair.

  The invariant of the pair ties the two endpoints and the frames in flight together: the limits that
  one side grants to those that the other side works with, the data in flight to the counters at both
  ends. It follows that no frame that an endpoint emits is one that the other may refuse
  (\<open>accepts\<close>). That a connection is such an endpoint is shown in \<open>Peer_View\<close> and \<open>Peer_Refine\<close>.
\<close>

section \<open>Endpoints\<close>

text \<open>One direction of a stream: the bytes so far, the limit, and whether it has ended.\<close>

record half =
  h_off :: nat
  h_max :: nat
  h_ended :: bool

text \<open>\<open>p_params\<close> are the parameters that the endpoint declares, \<open>p_window\<close> is its receive window of a stream,
  \<open>p_dgram\<close> the largest datagram frame it accepts, \<open>p_pinged\<close> the last request it was sent, \<open>p_pong\<close> the
  request it has still to answer.\<close>

record endpoint =
  p_server :: bool
  p_params :: Parameters
  p_window :: nat
  p_dgram :: nat
  p_ready :: bool
  p_peer :: Parameters
  p_onext :: "dir \<Rightarrow> nat"
  p_omax :: "dir \<Rightarrow> nat"
  p_inext :: "dir \<Rightarrow> nat"
  p_imax :: "dir \<Rightarrow> nat"
  p_sendMax :: nat
  p_sent :: nat
  p_recvMax :: nat
  p_received :: nat
  p_send :: "StreamID \<Rightarrow> half"
  p_recv :: "StreamID \<Rightarrow> half"
  p_control :: "frame list"
  p_nextPing :: nat
  p_pinged :: "nat option"
  p_pong :: "nat option"

definition index_of :: "StreamID \<Rightarrow> nat" where
  "index_of i = unat (drop_bit 2 i)"

definition is_local :: "endpoint \<Rightarrow> StreamID \<Rightarrow> bool" where
  "is_local e i \<longleftrightarrow> (i AND 0x1 = 0x1) = p_server e"

definition can_send :: "endpoint \<Rightarrow> StreamID \<Rightarrow> bool" where
  "can_send e i \<longleftrightarrow> streamDir i \<noteq> dirUni \<or> is_local e i"

definition can_recv :: "endpoint \<Rightarrow> StreamID \<Rightarrow> bool" where
  "can_recv e i \<longleftrightarrow> streamDir i \<noteq> dirUni \<or> \<not> is_local e i"

text \<open>The endpoint knows of the stream; a frame on the stream is within its limits.\<close>

definition known :: "endpoint \<Rightarrow> StreamID \<Rightarrow> bool" where
  "known e i \<longleftrightarrow> index_of i < (if is_local e i then p_onext e (streamDir i) else p_inext e (streamDir i))"

definition reaches :: "endpoint \<Rightarrow> StreamID \<Rightarrow> bool" where
  "reaches e i \<longleftrightarrow> index_of i < (if is_local e i then p_onext e (streamDir i) else p_imax e (streamDir i))"

text \<open>The limit with which a stream starts to send.\<close>

definition initial_max :: "endpoint \<Rightarrow> StreamID \<Rightarrow> nat" where
  "initial_max e i = unat (if streamDir i = dirUni then InitialMaxStreamDataUni (p_peer e)
     else if is_local e i then InitialMaxStreamDataBidiRemote (p_peer e)
     else InitialMaxStreamDataBidiLocal (p_peer e))"

definition new_half :: "nat \<Rightarrow> half" where
  "new_half m = \<lparr>h_off = 0, h_max = m, h_ended = False\<rparr>"

section \<open>Steps\<close>

text \<open>The first six emit nothing, the others put frames on the channel.\<close>

inductive ep_step :: "endpoint \<Rightarrow> frame list \<Rightarrow> endpoint \<Rightarrow> bool" where
  l_recvMax: "p_recvMax e \<le> m \<Longrightarrow> ep_step e [] (e\<lparr>p_recvMax := m\<rparr>)"
| l_streamMax: "known e i \<Longrightarrow> can_recv e i \<Longrightarrow> h_max (p_recv e i) \<le> unat m \<Longrightarrow>
    ep_step e [] (e\<lparr>p_recv := (p_recv e)(i := (p_recv e i)\<lparr>h_max := unat m\<rparr>),
      p_control := p_control e @ [MaxStreamData i m]\<rparr>)"
| l_stop: "known e i \<Longrightarrow> can_recv e i \<Longrightarrow> ep_step e [] (e\<lparr>p_control := p_control e @ [StopSending i code]\<rparr>)"
| l_imax: "ep_step e [] (e\<lparr>p_imax := (p_imax e)(d := Suc (p_imax e d))\<rparr>)"
| l_open: "p_ready e \<Longrightarrow> p_onext e d < p_omax e d \<Longrightarrow> is_local e i \<Longrightarrow> streamDir i = d \<Longrightarrow> index_of i = p_onext e d \<Longrightarrow>
    ep_step e [] (e\<lparr>p_onext := (p_onext e)(d := Suc (p_onext e d)), p_send := (p_send e)(i := new_half (initial_max e i))\<rparr>)"
| l_reset: "known e i \<Longrightarrow> can_send e i \<Longrightarrow> \<not> h_ended (p_send e i) \<Longrightarrow> unat n = h_off (p_send e i) \<Longrightarrow>
    ep_step e [] (e\<lparr>p_send := (p_send e)(i := (p_send e i)\<lparr>h_ended := True\<rparr>),
      p_control := p_control e @ [ResetStream i code n]\<rparr>)"
| m_data: "known e i \<Longrightarrow> can_send e i \<Longrightarrow> \<not> h_ended (p_send e i) \<Longrightarrow> unat off = h_off (p_send e i) \<Longrightarrow>
    unat off + length d \<le> h_max (p_send e i) \<Longrightarrow> p_sent e + length d \<le> p_sendMax e \<Longrightarrow>
    ep_step e [Stream i off d False] (e\<lparr>p_send := (p_send e)(i := (p_send e i)\<lparr>h_off := unat off + length d\<rparr>),
      p_sent := p_sent e + length d\<rparr>)"
| m_fin: "known e i \<Longrightarrow> can_send e i \<Longrightarrow> \<not> h_ended (p_send e i) \<Longrightarrow> unat off = h_off (p_send e i) \<Longrightarrow>
    ep_step e [Stream i off [] True] (e\<lparr>p_send := (p_send e)(i := (p_send e i)\<lparr>h_ended := True\<rparr>)\<rparr>)"
| m_control: "ep_step e (p_control e) (e\<lparr>p_control := []\<rparr>)"
| m_maxData: "unat m = p_recvMax e \<Longrightarrow> ep_step e [MaxData m] e"
| m_maxStreams: "unat m = p_imax e (if uni then dirUni else dirBidi) \<Longrightarrow> ep_step e [MaxStreams uni m] e"
| m_pong: "p_pong e = Some (unat n) \<Longrightarrow> ep_step e [Ping True n] (e\<lparr>p_pong := None\<rparr>)"
| m_ping: "unat n = p_nextPing e \<Longrightarrow> ep_step e [Ping False n] (e\<lparr>p_nextPing := Suc (p_nextPing e)\<rparr>)"
| m_datagram: "1 + length d \<le> unat (MaxDatagramFrameSize (p_peer e)) \<Longrightarrow> ep_step e [Datagram d] e"
| m_close: "ep_step e [ConnectionClose app code ft reason] e"

text \<open>The stream that a frame is about.\<close>

fun frame_id :: "frame \<Rightarrow> StreamID option" where
  "frame_id (Stream i off d fin) = Some i"
| "frame_id (ResetStream i code n) = Some i"
| "frame_id (StopSending i code) = Some i"
| "frame_id (MaxStreamData i m) = Some i"
| "frame_id _ = None"

text \<open>A frame on a stream of the other side opens that stream and all before it, one at a time.\<close>

inductive ep_pre :: "endpoint \<Rightarrow> frame \<Rightarrow> endpoint \<Rightarrow> bool" where
  "p_ready e \<Longrightarrow> frame_id f = Some j \<Longrightarrow> \<not> is_local e j \<Longrightarrow> streamDir j = d \<Longrightarrow> p_inext e d \<le> index_of j \<Longrightarrow>
   \<not> is_local e i \<Longrightarrow> streamDir i = d \<Longrightarrow> index_of i = p_inext e d \<Longrightarrow>
   ep_pre e f (e\<lparr>p_inext := (p_inext e)(d := Suc (p_inext e d)),
     p_send := (if can_send e i then (p_send e)(i := new_half (initial_max e i)) else p_send e)\<rparr>)"

inductive ep_take :: "endpoint \<Rightarrow> frame \<Rightarrow> endpoint \<Rightarrow> bool" where
  t_params: "\<not> p_ready e \<Longrightarrow> ep_take e (TransportParameters p)
    (e\<lparr>p_ready := True, p_peer := p, p_sendMax := unat (InitialMaxData p),
       p_omax := (\<lambda>d. unat (case d of dirBidi \<Rightarrow> InitialMaxStreamsBidi p | dirUni \<Rightarrow> InitialMaxStreamsUni p))\<rparr>)"
| t_maxData: "p_ready e \<Longrightarrow> ep_take e (MaxData m) (e\<lparr>p_sendMax := max (p_sendMax e) (unat m)\<rparr>)"
| t_maxStreams: "d = (if uni then dirUni else dirBidi) \<Longrightarrow>
    ep_take e (MaxStreams uni m) (e\<lparr>p_omax := (p_omax e)(d := max (p_omax e d) (unat m))\<rparr>)"
| t_maxStreamData: "known e i \<Longrightarrow> can_send e i \<Longrightarrow> ep_take e (MaxStreamData i m)
    (e\<lparr>p_send := (p_send e)(i := (p_send e i)\<lparr>h_max := max (h_max (p_send e i)) (unat m)\<rparr>)\<rparr>)"
| t_maxStreamData_ended: "ep_take e (MaxStreamData i m) e"
| t_stop: "ep_take e (StopSending i code) e"
| t_stream: "\<not> h_ended (p_recv e i) \<Longrightarrow> h_off (p_recv e i) = unat off \<Longrightarrow>
    ep_take e (Stream i off d fin) (e\<lparr>p_recv := (p_recv e)(i := (p_recv e i)\<lparr>h_off := unat off + length d, h_ended := fin\<rparr>),
      p_received := p_received e + length d\<rparr>)"
| t_reset: "\<not> h_ended (p_recv e i) \<Longrightarrow> h_off (p_recv e i) = unat n \<Longrightarrow>
    ep_take e (ResetStream i code n) (e\<lparr>p_recv := (p_recv e)(i := (p_recv e i)\<lparr>h_ended := True\<rparr>)\<rparr>)"
| t_request: "ep_take e (Ping False n) (e\<lparr>p_pinged := Some (unat n), p_pong := Some (unat n)\<rparr>)"
| t_response: "ep_take e (Ping True n) e"
| t_datagram: "ep_take e (Datagram d) e"
| t_close: "ep_take e (ConnectionClose app code ft reason) e"

section \<open>What an endpoint accepts\<close>

fun accepts :: "endpoint \<Rightarrow> frame \<Rightarrow> bool" where
  "accepts e (TransportParameters p) \<longleftrightarrow> \<not> p_ready e"
| "accepts e (Stream i off d fin) \<longleftrightarrow> p_ready e \<and> can_recv e i \<and> reaches e i \<and> \<not> h_ended (p_recv e i) \<and>
     h_off (p_recv e i) = unat off \<and> unat off + length d \<le> h_max (p_recv e i) \<and> p_received e + length d \<le> p_recvMax e"
| "accepts e (ResetStream i code n) \<longleftrightarrow> p_ready e \<and> can_recv e i \<and> reaches e i \<and> \<not> h_ended (p_recv e i) \<and>
     h_off (p_recv e i) = unat n \<and> unat n \<le> h_max (p_recv e i) \<and> p_received e \<le> p_recvMax e"
| "accepts e (StopSending i code) \<longleftrightarrow> p_ready e \<and> can_send e i \<and> reaches e i"
| "accepts e (MaxStreamData i m) \<longleftrightarrow> p_ready e \<and> can_send e i \<and> reaches e i"
| "accepts e (Ping response n) \<longleftrightarrow> p_ready e \<and>
     (if response then unat n < p_nextPing e else \<forall>k. p_pinged e = Some k \<longrightarrow> k < unat n)"
| "accepts e (Datagram d) \<longleftrightarrow> p_ready e \<and> 1 + length d \<le> p_dgram e"
| "accepts e f \<longleftrightarrow> p_ready e"

section \<open>The invariant of a pair\<close>

text \<open>\<open>A\<close> sends, \<open>B\<close> receives; \<open>AB\<close> and \<open>BA\<close> are the frames in flight from \<open>A\<close> to \<open>B\<close> and back. Every part is
  about one direction, and the invariant has them for both.\<close>

fun is_params :: "frame \<Rightarrow> bool" where
  "is_params (TransportParameters p) = True"
| "is_params _ = False"

fun is_queued :: "frame \<Rightarrow> bool" where
  "is_queued (ResetStream i code n) = True"
| "is_queued (StopSending i code) = True"
| "is_queued (MaxStreamData i m) = True"
| "is_queued _ = False"

text \<open>What an endpoint keeps to itself.\<close>

definition ep_ok :: "endpoint \<Rightarrow> bool" where
  "ep_ok e \<longleftrightarrow> (\<forall>f \<in> set (p_control e). is_queued f) \<and>
     unat (InitialMaxStreamDataUni (p_params e)) = p_window e \<and> unat (InitialMaxStreamDataBidiLocal (p_params e)) = p_window e \<and>
     unat (InitialMaxStreamDataBidiRemote (p_params e)) = p_window e \<and> unat (MaxDatagramFrameSize (p_params e)) = p_dgram e \<and>
     (\<forall>i. \<not> known e i \<or> \<not> can_send e i \<longrightarrow> p_send e i = new_half 0) \<and>
     (\<not> p_ready e \<longrightarrow> p_sendMax e = 0 \<and> (\<forall>d. p_onext e d = 0) \<and> MaxDatagramFrameSize (p_peer e) = 0)"

text \<open>The parameters are the first frame, and only the first.\<close>

definition handshake :: "endpoint \<Rightarrow> endpoint \<Rightarrow> frame list \<Rightarrow> bool" where
  "handshake A B AB \<longleftrightarrow> p_server A = (\<not> p_server B) \<and>
     (if p_ready B then p_peer B = p_params A \<and> (\<forall>f \<in> set AB. \<not> is_params f)
      else AB \<noteq> [] \<and> hd AB = TransportParameters (p_params A) \<and> (\<forall>f \<in> set (tl AB). \<not> is_params f))"

text \<open>\<open>A\<close> opens no more streams than \<open>B\<close> allows.\<close>

definition limits :: "endpoint \<Rightarrow> endpoint \<Rightarrow> frame list \<Rightarrow> bool" where
  "limits A B BA \<longleftrightarrow> (\<forall>d. p_onext A d \<le> p_omax A d \<and> p_omax A d \<le> p_imax B d) \<and>
     (\<forall>uni m. MaxStreams uni m \<in> set BA \<longrightarrow> unat m \<le> p_imax B (if uni then dirUni else dirBidi)) \<and>
     unat (InitialMaxStreamsBidi (p_params B)) \<le> p_imax B dirBidi \<and> unat (InitialMaxStreamsUni (p_params B)) \<le> p_imax B dirUni"

text \<open>\<open>B\<close> knows of no stream that \<open>A\<close> has not opened, and the frames of \<open>A\<close> are on streams that it knows.\<close>

fun frame_ok :: "endpoint \<Rightarrow> frame \<Rightarrow> bool" where
  "frame_ok e (Stream i off d fin) \<longleftrightarrow> known e i \<and> can_send e i"
| "frame_ok e (ResetStream i code n) \<longleftrightarrow> known e i \<and> can_send e i"
| "frame_ok e (StopSending i code) \<longleftrightarrow> known e i \<and> can_recv e i"
| "frame_ok e (MaxStreamData i m) \<longleftrightarrow> known e i \<and> can_recv e i"
| "frame_ok e _ \<longleftrightarrow> True"

definition names :: "endpoint \<Rightarrow> endpoint \<Rightarrow> frame list \<Rightarrow> bool" where
  "names A B AB \<longleftrightarrow> (\<forall>d. p_inext B d \<le> p_onext A d) \<and> (\<forall>f \<in> set (AB @ p_control A). frame_ok A f)"

text \<open>The data of the connection.\<close>

fun frame_data :: "frame \<Rightarrow> nat" where
  "frame_data (Stream i off d fin) = length d"
| "frame_data _ = 0"

definition flow :: "endpoint \<Rightarrow> endpoint \<Rightarrow> frame list \<Rightarrow> frame list \<Rightarrow> bool" where
  "flow A B AB BA \<longleftrightarrow> p_received B + (\<Sum>f\<leftarrow>AB. frame_data f) = p_sent A \<and> p_sent A \<le> p_sendMax A \<and>
     p_sendMax A \<le> p_recvMax B \<and> (\<forall>m. MaxData m \<in> set BA \<longrightarrow> unat m \<le> p_recvMax B) \<and>
     unat (InitialMaxData (p_params B)) \<le> p_recvMax B"

text \<open>The data of a stream: what the frames in flight make of the bytes received and the end.\<close>

fun replay :: "StreamID \<Rightarrow> frame list \<Rightarrow> nat \<times> bool \<Rightarrow> (nat \<times> bool) option" where
  "replay i [] x = Some x"
| "replay i (Stream j off d fin # fs) x =
     (if j \<noteq> i then replay i fs x
      else if \<not> snd x \<and> fst x = unat off then replay i fs (unat off + length d, fin) else None)"
| "replay i (ResetStream j code n # fs) x =
     (if j \<noteq> i then replay i fs x
      else if \<not> snd x \<and> fst x = unat n then replay i fs (unat n, True) else None)"
| "replay i (f # fs) x = replay i fs x"

definition stream_flow :: "endpoint \<Rightarrow> endpoint \<Rightarrow> frame list \<Rightarrow> frame list \<Rightarrow> StreamID \<Rightarrow> bool" where
  "stream_flow A B AB BA i \<longleftrightarrow>
     h_off (p_send A i) \<le> h_max (p_send A i) \<and> h_max (p_send A i) \<le> h_max (p_recv B i) \<and> p_window B \<le> h_max (p_recv B i) \<and>
     (\<forall>m. MaxStreamData i m \<in> set (BA @ p_control B) \<longrightarrow> unat m \<le> h_max (p_recv B i)) \<and>
     replay i (AB @ p_control A) (h_off (p_recv B i), h_ended (p_recv B i)) = Some (h_off (p_send A i), h_ended (p_send A i))"

text \<open>Requests carry increasing numbers, and responses answer requests that were made.\<close>

fun requests :: "frame list \<Rightarrow> nat list" where
  "requests [] = []"
| "requests (Ping False n # fs) = unat n # requests fs"
| "requests (f # fs) = requests fs"

definition pings :: "endpoint \<Rightarrow> endpoint \<Rightarrow> frame list \<Rightarrow> bool" where
  "pings A B AB \<longleftrightarrow> sorted_wrt (<) (requests AB) \<and> (\<forall>k. p_pinged B = Some k \<longrightarrow> k < p_nextPing A) \<and>
     (\<forall>n \<in> set (requests AB). n < p_nextPing A \<and> (\<forall>k. p_pinged B = Some k \<longrightarrow> k < n)) \<and>
     (\<forall>n. Ping True n \<in> set AB \<longrightarrow> unat n < p_nextPing B) \<and> (\<forall>n. p_pong A = Some n \<longrightarrow> n < p_nextPing B)"

definition datagrams :: "endpoint \<Rightarrow> frame list \<Rightarrow> bool" where
  "datagrams B AB \<longleftrightarrow> (\<forall>d. Datagram d \<in> set AB \<longrightarrow> 1 + length d \<le> p_dgram B)"

definition linked :: "endpoint \<Rightarrow> endpoint \<Rightarrow> frame list \<Rightarrow> frame list \<Rightarrow> bool" where
  "linked A B AB BA \<longleftrightarrow> ep_ok A \<and> handshake A B AB \<and> limits A B BA \<and> names A B AB \<and> flow A B AB BA \<and>
     (\<forall>i. stream_flow A B AB BA i) \<and> pings A B AB \<and> datagrams B AB"

subsection \<open>No frame in flight is refused\<close>

lemma replay_append: "replay i (fs @ gs) x = Option.bind (replay i fs x) (replay i gs)"
  by (induction i fs x rule: replay.induct) auto

lemma replay_grows: "replay i fs x = Some y \<Longrightarrow> fst x \<le> fst y"
  by (induction i fs x rule: replay.induct) (auto split: if_splits)

lemma opposite_roles:
  assumes "handshake A B AB"
  shows "is_local B i \<longleftrightarrow> \<not> is_local A i" "can_recv B i \<longleftrightarrow> can_send A i" "can_send B i \<longleftrightarrow> can_recv A i"
  using assms by (auto simp: handshake_def is_local_def can_send_def can_recv_def)

lemma reaches_known:
  assumes "known A i" "handshake A B AB" "limits A B BA" "names B A BA"
  shows "reaches B i"
proof -
  have "p_onext A (streamDir i) \<le> p_imax B (streamDir i)" "p_inext A (streamDir i) \<le> p_onext B (streamDir i)"
    using assms(3,4) order_trans unfolding limits_def names_def by blast+
  then show ?thesis using assms(1) opposite_roles(1) [OF assms(2), of i] by (auto simp: known_def reaches_def)
qed

lemma linked_accepts:
  assumes "linked A B (f # AB) BA" "linked B A BA (f # AB)"
  shows "accepts B f"
proof (cases "is_params f")
  case True
  then show ?thesis using assms(1) by (cases f) (auto simp: linked_def handshake_def split: if_splits)
next
  case False
  have h: "handshake A B (f # AB)" "limits A B BA" "names A B (f # AB)" "names B A BA"
    using assms by (simp_all add: linked_def)
  have ready: "p_ready B" using h(1) False by (cases f) (auto simp: handshake_def split: if_splits)
  have ok: "frame_ok A f" using h(3) by (simp add: names_def)
  have fl: "flow A B (f # AB) BA" "\<And>i. stream_flow A B (f # AB) BA i" "pings A B (f # AB)" "datagrams B (f # AB)"
    using assms(1) by (simp_all add: linked_def)
  have limit: "y + z \<le> h_max (p_recv B i)"
    if "replay i (AB @ p_control A) (y + z, b) = Some (h_off (p_send A i), h_ended (p_send A i))" for i y z b
    using replay_grows [OF that] fl(2) [of i] by (simp add: stream_flow_def)
  show ?thesis
  proof (cases f)
    case (Stream i off d fin)
    then have "replay i (AB @ p_control A) (unat off + length d, fin) = Some (h_off (p_send A i), h_ended (p_send A i))"
      "\<not> h_ended (p_recv B i)" "h_off (p_recv B i) = unat off"
      using fl(2) [of i] by (auto simp: stream_flow_def split: if_splits)
    then show ?thesis
      using Stream ready ok opposite_roles [OF h(1)] reaches_known [OF _ h(1,2,4)] limit fl(1) by (auto simp: flow_def)
  next
    case (ResetStream i code n)
    then have "replay i (AB @ p_control A) (unat n + 0, True) = Some (h_off (p_send A i), h_ended (p_send A i))"
      "\<not> h_ended (p_recv B i)" "h_off (p_recv B i) = unat n"
      using fl(2) [of i] by (auto simp: stream_flow_def split: if_splits)
    then show ?thesis
      using ResetStream ready ok opposite_roles [OF h(1)] reaches_known [OF _ h(1,2,4)] limit [of i "unat n" 0] fl(1)
      by (auto simp: flow_def)
  next
    case (Ping response n)
    then show ?thesis using ready fl(3) by (cases response) (auto simp: pings_def)
  qed (use ready ok opposite_roles [OF h(1)] reaches_known [OF _ h(1,2,4)] fl(4) False in \<open>auto simp: datagrams_def\<close>)
qed

subsection \<open>Every step keeps the invariant\<close>

text \<open>An endpoint that takes a step of its own, opens a stream, or takes a frame. What it knows only grows.\<close>

lemmas ep_moves = ep_step.cases ep_pre.cases ep_take.cases

definition ep_move :: "endpoint \<Rightarrow> endpoint \<Rightarrow> bool" where
  "ep_move e e' \<longleftrightarrow> (\<exists>fs. ep_step e fs e') \<or> (\<exists>f. ep_pre e f e') \<or> (\<exists>f. ep_take e f e')"

lemma ep_moveI: "ep_step e fs e' \<Longrightarrow> ep_move e e'" "ep_pre e f e' \<Longrightarrow> ep_move e e'" "ep_take e f e' \<Longrightarrow> ep_move e e'"
  by (auto simp: ep_move_def)

lemma ep_move_static:
  assumes "ep_move e e'"
  shows "p_server e' = p_server e" "p_params e' = p_params e" "p_window e' = p_window e" "p_dgram e' = p_dgram e"
    "p_onext e d \<le> p_onext e' d" "p_inext e d \<le> p_inext e' d" "p_imax e d \<le> p_imax e' d" "p_recvMax e \<le> p_recvMax e'"
    "p_nextPing e \<le> p_nextPing e'" "h_max (p_recv e i) \<le> h_max (p_recv e' i)"
  using assms unfolding ep_move_def by (auto elim!: ep_moves)

lemma ep_move_roles:
  assumes "ep_move e e'"
  shows "is_local e' i = is_local e i" "can_send e' i = can_send e i" "can_recv e' i = can_recv e i" "known e i \<Longrightarrow> known e' i"
    "frame_ok e f \<Longrightarrow> frame_ok e' f"
proof -
  show r: "is_local e' i = is_local e i" "can_send e' i = can_send e i" "can_recv e' i = can_recv e i" for i
    using ep_move_static [OF assms] by (simp_all add: is_local_def can_send_def can_recv_def)
  show k: "known e i \<Longrightarrow> known e' i" for i
    using ep_move_static(5,6) [OF assms, of "streamDir i"] by (auto simp: known_def r split: if_splits)
  show "frame_ok e f \<Longrightarrow> frame_ok e' f" by (cases f) (auto simp: r k)
qed

text \<open>Only streams that the endpoint knows change.\<close>

lemma ep_move_send:
  assumes "ep_move e e'" "p_send e' i \<noteq> p_send e i"
  shows "known e' i \<and> can_send e' i"
  using assms unfolding ep_move_def
  by (auto elim!: ep_moves simp: known_def can_send_def is_local_def split: if_splits)

lemma ep_ok_move:
  assumes "ep_move e e'" "ep_ok e"
  shows "ep_ok e'"
proof -
  have "\<forall>f \<in> set (p_control e). is_queued f" "\<not> p_ready e \<longrightarrow> p_sendMax e = 0 \<and> (\<forall>d. p_onext e d = 0) \<and> MaxDatagramFrameSize (p_peer e) = 0"
    using assms(2) by (simp_all add: ep_ok_def)
  moreover have "p_control e' = p_control e \<or> p_control e' = [] \<or> (\<exists>f. is_queued f \<and> p_control e' = p_control e @ [f])"
    using assms(1) unfolding ep_move_def by (auto elim!: ep_moves)
  moreover have "p_ready e' \<or> \<not> p_ready e \<and> p_sendMax e' = p_sendMax e \<and> p_onext e' = p_onext e \<and> p_peer e' = p_peer e"
    using assms(1) unfolding ep_move_def by (auto elim!: ep_moves)
  ultimately have "\<forall>f \<in> set (p_control e'). is_queued f" "\<not> p_ready e' \<longrightarrow> p_sendMax e' = 0 \<and> (\<forall>d. p_onext e' d = 0) \<and> MaxDatagramFrameSize (p_peer e') = 0"
    by auto
  moreover have "\<not> known e i \<or> \<not> can_send e i \<longrightarrow> p_send e i = new_half 0" for i using assms(2) by (simp add: ep_ok_def)
  then have "p_send e' i = new_half 0" if "\<not> known e' i \<or> \<not> can_send e' i" for i
    using that ep_move_send [OF assms(1), of i] ep_move_roles(2,4) [OF assms(1), of i] by metis
  ultimately show ?thesis using assms(2) by (auto simp: ep_ok_def ep_move_static [OF assms(1)])
qed

text \<open>What a step says of itself by the frames it emits.\<close>

fun tells :: "endpoint \<Rightarrow> endpoint \<Rightarrow> frame \<Rightarrow> bool" where
  "tells e e' (TransportParameters p) \<longleftrightarrow> False"
| "tells e e' (MaxData m) \<longleftrightarrow> unat m = p_recvMax e'"
| "tells e e' (MaxStreams uni m) \<longleftrightarrow> unat m = p_imax e' (if uni then dirUni else dirBidi)"
| "tells e e' (Ping True n) \<longleftrightarrow> p_pong e = Some (unat n)"
| "tells e e' (Datagram d) \<longleftrightarrow> p_ready e \<and> 1 + length d \<le> unat (MaxDatagramFrameSize (p_peer e))"
| "tells e e' f \<longleftrightarrow> True"

lemma tells_queued: "is_queued f \<Longrightarrow> tells e e' f"
  by (cases f) auto

lemma ep_step_tells: "ep_step e fs e' \<Longrightarrow> ep_ok e \<Longrightarrow> f \<in> set fs \<Longrightarrow> tells e e' f"
  by (erule ep_step.cases) (auto simp: ep_ok_def tells_queued)

lemma ep_step_emits:
  assumes "ep_step e fs e'" "ep_ok e"
  shows "TransportParameters p \<notin> set fs" "MaxData m \<in> set fs \<Longrightarrow> unat m = p_recvMax e'"
    "MaxStreams uni m \<in> set fs \<Longrightarrow> unat m = p_imax e' (if uni then dirUni else dirBidi)"
    "Ping True n \<in> set fs \<Longrightarrow> p_pong e = Some (unat n)"
    "Datagram d \<in> set fs \<Longrightarrow> p_ready e \<and> 1 + length d \<le> unat (MaxDatagramFrameSize (p_peer e))"
  using ep_step_tells [OF assms] by force+

lemma ep_step_keeps:
  assumes "ep_step e fs e'"
  shows "p_ready e' = p_ready e" "p_peer e' = p_peer e" "p_omax e' = p_omax e" "p_inext e' = p_inext e" "p_sendMax e' = p_sendMax e"
    "p_received e' = p_received e" "p_pinged e' = p_pinged e"
    "h_off (p_recv e' i) = h_off (p_recv e i)" "h_ended (p_recv e' i) = h_ended (p_recv e i)"
  using assms by (auto elim!: ep_step.cases split: if_splits)

lemma ep_pre_keeps:
  assumes "ep_pre e f e'"
  shows "p_ready e' = p_ready e" "p_peer e' = p_peer e" "p_omax e' = p_omax e" "p_onext e' = p_onext e" "p_sendMax e' = p_sendMax e"
    "p_received e' = p_received e" "p_pinged e' = p_pinged e" "p_recv e' = p_recv e" "p_imax e' = p_imax e" "p_sent e' = p_sent e"
    "p_recvMax e' = p_recvMax e" "p_control e' = p_control e" "p_nextPing e' = p_nextPing e" "p_pong e' = p_pong e" "p_ready e"
  using assms by (auto elim!: ep_pre.cases)

lemma ep_take_keeps:
  assumes "ep_take e f e'"
  shows "p_onext e' = p_onext e" "p_inext e' = p_inext e" "p_imax e' = p_imax e" "p_sent e' = p_sent e" "p_recvMax e' = p_recvMax e"
    "p_control e' = p_control e" "p_nextPing e' = p_nextPing e" "h_max (p_recv e' i) = h_max (p_recv e i)"
    "h_off (p_send e' i) = h_off (p_send e i)" "h_ended (p_send e' i) = h_ended (p_send e i)"
  using assms by (auto elim!: ep_take.cases split: if_splits)

subsubsection \<open>Handshake\<close>

lemma handshake_step:
  assumes "ep_step A fs A'" "ep_ok A" "handshake A B AB"
  shows "handshake A' B (AB @ fs)"
proof -
  have "\<not> is_params f" if "f \<in> set fs" for f
    using ep_step_emits(1) [OF assms(1,2)] that by (cases f) auto
  then show ?thesis
    using assms(3) ep_move_static(1,2) [OF ep_moveI(1) [OF assms(1)]] by (auto simp: handshake_def split: if_splits)
qed

lemma handshake_peer: "ep_step B fs B' \<Longrightarrow> handshake A B AB \<Longrightarrow> handshake A B' AB"
  using ep_step_keeps(1,2) [of B fs B'] ep_move_static(1) [OF ep_moveI(1), of B fs B'] by (simp add: handshake_def)

lemma handshake_pre: "ep_pre B f B' \<Longrightarrow> handshake A B AB \<Longrightarrow> handshake A B' AB"
  "ep_pre A f A' \<Longrightarrow> handshake A B AB \<Longrightarrow> handshake A' B AB"
  by (erule ep_pre.cases, simp add: handshake_def)+

lemma handshake_take: "ep_take B f B' \<Longrightarrow> handshake A B (f # AB) \<Longrightarrow> handshake A B' AB"
  by (erule ep_take.cases) (simp_all add: handshake_def split: if_splits)

lemma handshake_take_peer: "ep_take A f A' \<Longrightarrow> handshake A B AB \<Longrightarrow> handshake A' B AB"
  using ep_move_static(1,2) [OF ep_moveI(3), of A f A'] by (simp add: handshake_def)

subsubsection \<open>Limits of streams\<close>

lemma limits_step: "ep_step A fs A' \<Longrightarrow> limits A B BA \<Longrightarrow> limits A' B BA"
  by (erule ep_step.cases) (simp_all add: limits_def)

lemma limits_grow:
  assumes "ep_move B B'" "limits A B BA" "\<forall>uni m. MaxStreams uni m \<in> set fs \<longrightarrow> unat m \<le> p_imax B' (if uni then dirUni else dirBidi)"
  shows "limits A B' (BA @ fs)"
  using assms(2,3) ep_move_static(2,7) [OF assms(1)] order_trans unfolding limits_def
  by (metis (no_types, lifting) Un_iff set_append)

lemma limits_peer: "ep_step B fs B' \<Longrightarrow> ep_ok B \<Longrightarrow> limits A B BA \<Longrightarrow> limits A B' (BA @ fs)"
  using limits_grow [OF ep_moveI(1)] ep_step_emits(3) by (metis order_refl)

lemma limits_pre: "ep_pre B f B' \<Longrightarrow> limits A B BA \<Longrightarrow> limits A B' BA"
  "ep_pre A f A' \<Longrightarrow> limits A B BA \<Longrightarrow> limits A' B BA"
  by (erule ep_pre.cases, simp add: limits_def)+

lemma limits_take: "ep_take B f B' \<Longrightarrow> limits A B BA \<Longrightarrow> limits A B' BA"
  using limits_grow [OF ep_moveI(3), of B f B' A BA "[]"] by simp

lemma limits_take_peer:
  assumes "ep_take A f A'" "ep_ok A" "handshake B A (f # BA)" "limits A B (f # BA)"
  shows "limits A' B BA"
  using assms(1)
proof cases
  case (t_params p)
  then have "p = p_params B" "\<And>d. p_onext A d = 0" using assms(2,3) by (simp_all add: handshake_def ep_ok_def)
  then show ?thesis using t_params assms(4) by (simp add: limits_def split: dir.split)
next
  case (t_maxStreams d uni m)
  then have "unat m \<le> p_imax B d" using assms(4) by (simp add: limits_def)
  then show ?thesis using t_maxStreams assms(4) by (cases uni) (auto simp: limits_def le_max_iff_disj)
qed (use assms(4) in \<open>simp_all add: limits_def\<close>)

subsubsection \<open>Streams in frames\<close>

lemma ep_step_frames: "ep_step e fs e' \<Longrightarrow> \<forall>f \<in> set (p_control e). frame_ok e f \<Longrightarrow> \<forall>f \<in> set (fs @ p_control e'). frame_ok e f"
  by (erule ep_step.cases) auto

lemma names_step:
  assumes "ep_step A fs A'" "names A B AB"
  shows "names A' B (AB @ fs)"
proof -
  note m = ep_moveI(1) [OF assms(1)]
  have "\<forall>f \<in> set (fs @ p_control A'). frame_ok A f" using ep_step_frames [OF assms(1)] assms(2) by (simp add: names_def)
  then have "\<forall>f \<in> set ((AB @ fs) @ p_control A'). frame_ok A f" using assms(2) by (auto simp: names_def)
  then show ?thesis using assms(2) ep_move_roles(5) [OF m] ep_move_static(5) [OF m] order_trans unfolding names_def by blast
qed

lemma names_peer: "ep_step B fs B' \<Longrightarrow> names A B AB \<Longrightarrow> names A B' AB"
  using ep_step_keeps(4) [of B fs B'] by (simp add: names_def)

lemma names_pre:
  assumes "ep_pre B f B'" "handshake A B (f # AB)" "names A B (f # AB)"
  shows "names A B' (f # AB)"
  using assms(1)
proof cases
  case (1 j d i)
  have "known A j" using assms(3) 1(3) by (cases f) (auto simp: names_def)
  then have "index_of j < p_onext A d" using 1 opposite_roles(1) [OF assms(2), of j] by (simp add: known_def)
  then show ?thesis using 1 assms(3) by (auto simp: names_def)
qed

lemma names_pre_peer: "ep_pre A f A' \<Longrightarrow> names A B AB \<Longrightarrow> names A' B AB"
  using ep_move_roles(5) [OF ep_moveI(2), of A f A'] ep_pre_keeps(4,12) [of A f A'] by (auto simp: names_def)

lemma names_take: "ep_take B f B' \<Longrightarrow> names A B (f # AB) \<Longrightarrow> names A B' AB"
  using ep_take_keeps(2) [of B f B'] by (auto simp: names_def)

lemma names_take_peer: "ep_take A f A' \<Longrightarrow> names A B AB \<Longrightarrow> names A' B AB"
  using ep_move_roles(5) [OF ep_moveI(3), of A f A'] ep_take_keeps(1,6) [of A f A'] by (auto simp: names_def)

subsubsection \<open>Data of the connection\<close>

lemma data_queued: "\<forall>f \<in> set fs. is_queued f \<Longrightarrow> (\<Sum>f\<leftarrow>fs. frame_data f) = 0"
proof (induction fs)
  case (Cons f fs)
  then show ?case by (cases f) auto
qed simp

lemma ep_step_data:
  assumes "ep_step e fs e'" "ep_ok e" "p_sent e \<le> p_sendMax e"
  shows "p_sent e' = p_sent e + (\<Sum>f\<leftarrow>fs. frame_data f)" "p_sent e' \<le> p_sendMax e"
  using assms by (auto elim!: ep_step.cases simp: ep_ok_def data_queued)

lemma flow_step:
  assumes "ep_step A fs A'" "ep_ok A" "flow A B AB BA"
  shows "flow A' B (AB @ fs) BA"
  using assms(3) ep_step_data [OF assms(1,2)] ep_step_keeps(5) [OF assms(1)] by (simp add: flow_def)

lemma flow_peer:
  assumes "ep_step B fs B'" "ep_ok B" "flow A B AB BA"
  shows "flow A B' AB (BA @ fs)"
  using assms(3) ep_step_keeps(6) [OF assms(1)] ep_move_static(2,8) [OF ep_moveI(1) [OF assms(1)]]
    ep_step_emits(2) [OF assms(1,2)] by (auto simp: flow_def intro: order_trans)

lemma flow_pre: "ep_pre B f B' \<Longrightarrow> flow A B AB BA \<Longrightarrow> flow A B' AB BA"
  "ep_pre A f A' \<Longrightarrow> flow A B AB BA \<Longrightarrow> flow A' B AB BA"
  by (erule ep_pre.cases, simp add: flow_def)+

lemma flow_take: "ep_take B f B' \<Longrightarrow> flow A B (f # AB) BA \<Longrightarrow> flow A B' AB BA"
  by (erule ep_take.cases) (simp_all add: flow_def)

lemma flow_take_peer:
  assumes "ep_take A f A'" "ep_ok A" "handshake B A (f # BA)" "flow A B AB (f # BA)"
  shows "flow A' B AB BA"
  using assms(1)
proof cases
  case (t_params p)
  then have "p = p_params B" "p_sendMax A = 0" using assms(2,3) by (simp_all add: handshake_def ep_ok_def)
  then show ?thesis using t_params assms(4) by (simp add: flow_def)
qed (use assms(4) in \<open>auto simp: flow_def\<close>)

subsubsection \<open>Data of a stream\<close>

lemma replay_other: "\<forall>f \<in> set fs. frame_data f = 0 \<and> (\<forall>off d fin. f \<noteq> Stream i off d fin) \<and> (\<forall>code n. f \<noteq> ResetStream i code n) \<Longrightarrow>
  replay i fs x = Some x"
  by (induction i fs x rule: replay.induct) auto

lemma replay_skip:
  "j \<noteq> i \<Longrightarrow> replay i (Stream j off d fin # fs) = replay i fs" "replay i (MaxStreamData j m # fs) = replay i fs"
  "replay i (StopSending j code # fs) = replay i fs" "replay i (MaxData m # fs) = replay i fs"
  "replay i (MaxStreams uni m # fs) = replay i fs" "replay i (Ping resp n # fs) = replay i fs" "replay i (Datagram b # fs) = replay i fs"
  "replay i (ConnectionClose app code ft reason # fs) = replay i fs" "replay i (fs @ [MaxStreamData j m]) = replay i fs"
  "replay i (fs @ [StopSending j code]) = replay i fs"
  by (simp_all add: fun_eq_iff replay_append split: Option.bind_split)

text \<open>Queued frames that do not end a stream leave it alone.\<close>

lemma replay_open_queue:
  assumes "\<forall>f \<in> set fs. is_queued f" "replay i fs x = Some (o1, False)"
  shows "x = (o1, False) \<and> replay i fs y = Some y"
proof -
  have "\<forall>f \<in> set fs. is_queued f \<Longrightarrow> replay i fs x = Some (o1, False) \<Longrightarrow>
      x = (o1, False) \<and> (\<forall>code n. ResetStream i code n \<notin> set fs)"
  proof (induction i fs x rule: replay.induct)
    case (3 i j code n fs x)
    have "\<not> snd y" if "replay i fs y = Some (o1, False)" for y
      using that by (induction i fs y rule: replay.induct) (auto split: if_splits)
    then show ?case using 3 by (auto split: if_splits)
  qed auto
  moreover have "frame_data f = 0" "f \<noteq> Stream i off d fin" if "is_queued f" for f off d fin
    using that by (cases f; simp)+
  ultimately show ?thesis using assms replay_other by metis
qed

lemma fresh_stream:
  assumes "\<not> known A i" "can_send A i" "ep_ok A" "ep_ok B" "p_ready A" "handshake B A BA" "stream_flow A B AB BA i"
  shows "stream_flow (A\<lparr>p_send := (p_send A)(i := new_half (initial_max A i))\<rparr>) B AB BA i"
proof -
  have "p_send A i = new_half 0" using assms(1,3) by (simp add: ep_ok_def)
  moreover have "initial_max A i = p_window B" using assms(4,5,6) by (simp add: initial_max_def ep_ok_def handshake_def)
  ultimately show ?thesis using assms(7) by (simp add: stream_flow_def new_half_def)
qed

lemma stream_flow_cong:
  "stream_flow A B AB BA i \<Longrightarrow> p_send A' i = p_send A i \<Longrightarrow> replay i (AB' @ p_control A') = replay i (AB @ p_control A) \<Longrightarrow>
   stream_flow A' B AB' BA i"
  by (simp add: stream_flow_def)

lemma stream_flow_step:
  assumes "ep_step A fs A'" "ep_ok A" "ep_ok B" "handshake B A BA" "stream_flow A B AB BA i"
  shows "stream_flow A' B (AB @ fs) BA i"
  using assms(1)
proof cases
  case (l_open d j)
  then have "\<not> known A j" "can_send A j" by (auto simp: known_def can_send_def)
  then show ?thesis using fresh_stream [OF _ _ assms(2,3) l_open(3) assms(4,5)] l_open assms(5)
    by (cases "j = i") (auto simp: stream_flow_def)
next
  case (l_reset j n code)
  then show ?thesis using assms(5) by (auto simp: stream_flow_def replay_append simp flip: append_assoc)
next
  case (m_data j off d)
  show ?thesis
  proof (cases "j = i")
    case True
    obtain x where x: "replay i AB (h_off (p_recv B i), h_ended (p_recv B i)) = Some x"
      "replay i (p_control A) x = Some (h_off (p_send A i), False)"
      using assms(5) m_data True by (auto simp: stream_flow_def replay_append Option.bind_eq_Some_conv)
    then have "x = (unat off, False)" "\<And>y. replay i (p_control A) y = Some y"
      using replay_open_queue [of "p_control A" i x] assms(2) m_data True by (auto simp: ep_ok_def)
    then show ?thesis using assms(5) m_data True x(1) by (simp add: stream_flow_def replay_append)
  next
    case False
    then show ?thesis using assms(5) m_data by (simp add: stream_flow_def replay_append replay_skip)
  qed
next
  case (m_fin j off)
  show ?thesis
  proof (cases "j = i")
    case True
    obtain x where x: "replay i AB (h_off (p_recv B i), h_ended (p_recv B i)) = Some x"
      "replay i (p_control A) x = Some (h_off (p_send A i), False)"
      using assms(5) m_fin True by (auto simp: stream_flow_def replay_append Option.bind_eq_Some_conv)
    then have "x = (unat off, False)" "\<And>y. replay i (p_control A) y = Some y"
      using replay_open_queue [of "p_control A" i x] assms(2) m_fin True by (auto simp: ep_ok_def)
    then show ?thesis using assms(5) m_fin True x(1) by (simp add: stream_flow_def replay_append)
  next
    case False
    then show ?thesis using assms(5) m_fin by (simp add: stream_flow_def replay_append replay_skip)
  qed
qed (use assms(5) in \<open>simp_all add: stream_flow_def replay_append replay_skip\<close>)

lemma stream_flow_peer:
  assumes "ep_step B fs B'" "stream_flow A B AB BA i"
  shows "stream_flow A B' AB (BA @ fs) i"
proof -
  have "unat m \<le> h_max (p_recv B' i)" if "MaxStreamData i m \<in> set ((BA @ fs) @ p_control B')" for m
    using assms(1) that assms(2) by cases (auto simp: stream_flow_def)
  moreover have "h_max (p_recv B i) \<le> h_max (p_recv B' i)" "p_window B' = p_window B"
    using ep_move_static(3,10) [OF ep_moveI(1) [OF assms(1)]] by simp_all
  ultimately show ?thesis using assms(2) ep_step_keeps(8,9) [OF assms(1)] by (auto simp: stream_flow_def)
qed

lemma stream_flow_pre: "ep_pre B f B' \<Longrightarrow> stream_flow A B AB BA i \<Longrightarrow> stream_flow A B' AB BA i"
  by (erule ep_pre.cases) (simp add: stream_flow_def)

lemma stream_flow_pre_peer:
  assumes "ep_pre A f A'" "ep_ok A" "ep_ok B" "handshake B A BA" "stream_flow A B AB BA i"
  shows "stream_flow A' B AB BA i"
  using assms(1)
proof cases
  case (1 j d k)
  then have "\<not> known A k" by (simp add: known_def)
  then show ?thesis using fresh_stream [OF _ _ assms(2,3) 1(2) assms(4,5)] 1 assms(5)
    by (cases "k = i") (auto simp: stream_flow_def)
qed

lemma stream_flow_take:
  assumes "ep_take B f B'" "stream_flow A B (f # AB) BA i"
  shows "stream_flow A B' AB BA i"
  using assms by cases (auto simp: stream_flow_def split: if_splits)

lemma stream_flow_take_peer:
  assumes "ep_take A f A'" "stream_flow A B AB (f # BA) i"
  shows "stream_flow A' B AB BA i"
  using assms by cases (auto simp: stream_flow_def)

subsubsection \<open>Pings and datagrams\<close>

lemma requests_append: "requests (fs @ gs) = requests fs @ requests gs"
  by (induction fs rule: requests.induct) auto

lemma requests_queued: "\<forall>f \<in> set fs. is_queued f \<Longrightarrow> requests fs = []"
  by (induction fs rule: requests.induct) auto

lemma ep_step_requests:
  assumes "ep_step e fs e'" "ep_ok e"
  shows "requests fs = [] \<or> requests fs = [p_nextPing e] \<and> p_nextPing e' = Suc (p_nextPing e)"
  using assms by (auto elim!: ep_step.cases simp: ep_ok_def requests_queued)

lemma ep_step_pong: "ep_step e fs e' \<Longrightarrow> p_pong e' = Some n \<Longrightarrow> p_pong e = Some n"
  by (erule ep_step.cases) simp_all

lemma pings_step:
  assumes "ep_step A fs A'" "ep_ok A" "pings A B AB"
  shows "pings A' B (AB @ fs)"
proof -
  have "p_nextPing A \<le> p_nextPing A'" using ep_move_static(9) [OF ep_moveI(1) [OF assms(1)]] .
  note le = this
  have p: "sorted_wrt (<) (requests AB)" "\<And>k. p_pinged B = Some k \<Longrightarrow> k < p_nextPing A" "\<And>n. n \<in> set (requests AB) \<Longrightarrow> n < p_nextPing A"
    "\<And>n k. n \<in> set (requests AB) \<Longrightarrow> p_pinged B = Some k \<Longrightarrow> k < n" "\<And>n. Ping True n \<in> set AB \<Longrightarrow> unat n < p_nextPing B"
    "\<And>n. p_pong A = Some n \<Longrightarrow> n < p_nextPing B"
    using assms(3) by (auto simp: pings_def)
  show ?thesis unfolding pings_def
  proof (intro conjI allI ballI impI)
    show "sorted_wrt (<) (requests (AB @ fs))"
      using ep_step_requests [OF assms(1,2)] p(1,3) by (auto simp: requests_append sorted_wrt_append)
    show "k < p_nextPing A'" if "p_pinged B = Some k" for k using p(2) [OF that] le by simp
    show "n < p_nextPing A'" "p_pinged B = Some k \<Longrightarrow> k < n" if "n \<in> set (requests (AB @ fs))" for n k
      using that ep_step_requests [OF assms(1,2)] p(2,3,4) le by (auto simp: requests_append dest: less_le_trans)
    show "unat n < p_nextPing B" if "Ping True n \<in> set (AB @ fs)" for n
      using that p(5,6) ep_step_emits(4) [OF assms(1,2)] by auto
    show "n < p_nextPing B" if "p_pong A' = Some n" for n
      using p(6) ep_step_pong [OF assms(1) that] by simp
  qed
qed

lemma pings_peer: "ep_step B fs B' \<Longrightarrow> pings A B AB \<Longrightarrow> pings A B' AB"
  using ep_step_keeps(7) [of B fs B'] ep_move_static(9) [OF ep_moveI(1), of B fs B'] by (auto simp: pings_def dest: less_le_trans)

lemma pings_pre: "ep_pre B f B' \<Longrightarrow> pings A B AB \<Longrightarrow> pings A B' AB" "ep_pre A f A' \<Longrightarrow> pings A B AB \<Longrightarrow> pings A' B AB"
  by (erule ep_pre.cases, simp add: pings_def)+

lemma pings_take: "ep_take B f B' \<Longrightarrow> pings A B (f # AB) \<Longrightarrow> pings A B' AB"
  by (erule ep_take.cases) (auto simp: pings_def)

lemma pings_take_peer:
  assumes "ep_take A f A'" "pings A B AB" "pings B A (f # BA)"
  shows "pings A' B AB"
  using assms(1) by cases (use assms(2,3) in \<open>auto simp: pings_def\<close>)

lemma datagrams_step:
  assumes "ep_step A fs A'" "ep_ok A" "ep_ok B" "handshake B A BA" "datagrams B AB"
  shows "datagrams B (AB @ fs)"
  using assms(3,4,5) ep_step_emits(5) [OF assms(1,2)] by (auto simp: datagrams_def handshake_def ep_ok_def)

lemma datagrams_move: "ep_move B B' \<Longrightarrow> datagrams B AB \<Longrightarrow> datagrams B' AB"
  using ep_move_static(4) [of B B'] by (simp add: datagrams_def)

subsubsection \<open>All together\<close>

definition paired :: "endpoint \<Rightarrow> endpoint \<Rightarrow> frame list \<Rightarrow> frame list \<Rightarrow> bool" where
  "paired A B AB BA \<longleftrightarrow> linked A B AB BA \<and> linked B A BA AB"

lemma paired_sym: "paired A B AB BA \<Longrightarrow> paired B A BA AB"
  by (simp add: paired_def)

lemma paired_step:
  assumes "ep_step A fs A'" "paired A B AB BA"
  shows "paired A' B (AB @ fs) BA"
proof -
  have A: "ep_ok A" "ep_ok B" "handshake A B AB" "handshake B A BA" using assms(2) by (simp_all add: paired_def linked_def)
  note m = ep_moveI(1) [OF assms(1)]
  have "linked A' B (AB @ fs) BA"
    using assms(2) ep_ok_move [OF m A(1)] handshake_step [OF assms(1) A(1,3)] limits_step [OF assms(1)] names_step [OF assms(1)]
      flow_step [OF assms(1) A(1)] stream_flow_step [OF assms(1) A(1,2,4)] pings_step [OF assms(1) A(1)] datagrams_step [OF assms(1) A(1,2,4)]
    by (simp add: paired_def linked_def)
  moreover have "linked B A' BA (AB @ fs)"
    using assms(2) handshake_peer [OF assms(1) A(4)] limits_peer [OF assms(1) A(1)] names_peer [OF assms(1)]
      flow_peer [OF assms(1) A(1)] stream_flow_peer [OF assms(1)] pings_peer [OF assms(1)] datagrams_move [OF m]
    by (simp add: paired_def linked_def)
  ultimately show ?thesis by (simp add: paired_def)
qed

lemma paired_pre:
  assumes "ep_pre B f B'" "paired A B (f # AB) BA"
  shows "paired A B' (f # AB) BA"
proof -
  have A: "ep_ok A" "ep_ok B" "handshake A B (f # AB)" "handshake B A BA" using assms(2) by (simp_all add: paired_def linked_def)
  note m = ep_moveI(2) [OF assms(1)]
  have "linked A B' (f # AB) BA"
    using assms(2) handshake_pre(1) [OF assms(1)] limits_pre(1) [OF assms(1)] names_pre [OF assms(1) A(3)]
      flow_pre(1) [OF assms(1)] stream_flow_pre [OF assms(1)] pings_pre(1) [OF assms(1)] datagrams_move [OF m]
    by (simp add: paired_def linked_def)
  moreover have "linked B' A BA (f # AB)"
    using assms(2) ep_ok_move [OF m A(2)] handshake_pre(2) [OF assms(1)] limits_pre(2) [OF assms(1)] names_pre_peer [OF assms(1)]
      flow_pre(2) [OF assms(1)] stream_flow_pre_peer [OF assms(1) A(2,1,3)] pings_pre(2) [OF assms(1)]
    by (simp add: paired_def linked_def)
  ultimately show ?thesis by (simp add: paired_def)
qed

lemma paired_take:
  assumes "ep_take B f B'" "paired A B (f # AB) BA"
  shows "paired A B' AB BA"
proof -
  have A: "ep_ok A" "ep_ok B" "handshake A B (f # AB)" "handshake B A BA" "pings A B (f # AB)"
    using assms(2) by (simp_all add: paired_def linked_def)
  note m = ep_moveI(3) [OF assms(1)]
  have "datagrams B AB" using assms(2) by (simp add: paired_def linked_def datagrams_def)
  then have "linked A B' AB BA"
    using assms(2) handshake_take [OF assms(1)] limits_take [OF assms(1)] names_take [OF assms(1)]
      flow_take [OF assms(1)] stream_flow_take [OF assms(1)] pings_take [OF assms(1)] datagrams_move [OF m]
    by (simp add: paired_def linked_def)
  moreover have "linked B' A BA AB"
    using assms(2) ep_ok_move [OF m A(2)] handshake_take_peer [OF assms(1)] limits_take_peer [OF assms(1) A(2,3)]
      names_take_peer [OF assms(1)] flow_take_peer [OF assms(1) A(2,3)] stream_flow_take_peer [OF assms(1)]
      pings_take_peer [OF assms(1) _ A(5)]
    by (simp add: paired_def linked_def)
  ultimately show ?thesis by (simp add: paired_def)
qed

end
