(* ===== verification/Peer_View.thy ===== *)
theory Peer_View
  imports Peer_Spec Recv_Flow Send_Flow Conn_Runs
begin

text \<open>
  A connection as an endpoint. \<open>view\<close> reads from a connection what the other side can tell of it. The
  operations of this theory put nothing on the transport: each is a sequence of silent steps of the
  endpoint, or leaves the view as it is.
\<close>

section \<open>The view of a connection\<close>

definition send_half :: "stream \<Rightarrow> half" where
  "send_half s = \<lparr>h_off = unat (s_sendOffset s), h_max = unat (s_sendMax s), h_ended = (s_finSent s \<or> s_sendErr s \<noteq> None)\<rparr>"

definition recv_half :: "stream \<Rightarrow> half" where
  "recv_half s = \<lparr>h_off = unat (s_recvOffset s), h_max = unat (s_recvMax s), h_ended = (s_finRecv s \<or> s_recvReset s)\<rparr>"

type_synonym stream_view = "StreamID \<times> half option \<times> half option"

definition stream_view :: "stream \<Rightarrow> stream_view" where
  "stream_view s = (s_id s, if s_canSend s then Some (send_half s) else None, if s_canRecv s then Some (recv_half s) else None)"

text \<open>The halves of the stream with an identifier, among all streams ever made; a direction that does not
  exist looks like one in which nothing has happened.\<close>

definition half_of :: "nat \<Rightarrow> half option option \<Rightarrow> half" where
  "half_of m h = (case h of Some (Some h) \<Rightarrow> h | _ \<Rightarrow> new_half m)"

definition send_of :: "stream_view list \<Rightarrow> StreamID \<Rightarrow> half" where
  "send_of vs i = half_of 0 (map_of (map (\<lambda>(i, s, r). (i, s)) vs) i)"

definition recv_of :: "nat \<Rightarrow> stream_view list \<Rightarrow> StreamID \<Rightarrow> half" where
  "recv_of w vs i = half_of w (map_of (map (\<lambda>(i, s, r). (i, r)) vs) i)"

abbreviation views :: "Conn \<Rightarrow> stream_view list" where
  "views c \<equiv> map stream_view (c_objs c)"

definition view :: "Conn \<Rightarrow> endpoint" where
  "view c = \<lparr>p_server = c_isServer c, p_params = params_received (localParameters (c_config c)),
     p_window = unat (stream_window c), p_dgram = unat (cf_MaxDatagramFrameSize (c_config c)),
     p_ready = c_ready c, p_peer = c_peer c,
     p_onext = (\<lambda>d. unat (o_next (c_out c d))), p_omax = (\<lambda>d. unat (o_max (c_out c d))),
     p_inext = (\<lambda>d. unat (i_next (c_in c d))), p_imax = (\<lambda>d. unat (i_max (c_in c d))),
     p_sendMax = unat (c_sendMax c), p_sent = unat (c_sent c), p_recvMax = unat (c_recvMax c), p_received = unat (c_received c),
     p_send = send_of (views c), p_recv = recv_of (unat (stream_window c)) (views c), p_control = c_control c,
     p_nextPing = unat (c_nextPing c), p_pinged = (if c_peerPinged c then Some (unat (c_peerPingLast c)) else None),
     p_pong = (if c_pongPending c then Some (unat (c_pongSequence c)) else None)\<rparr>"

lemma view_roles [simp]:
  "is_local (view c) i = initiatedLocally c i"
  "can_send (view c) i = (streamDir i \<noteq> dirUni \<or> initiatedLocally c i)"
  "can_recv (view c) i = (streamDir i \<noteq> dirUni \<or> \<not> initiatedLocally c i)"
  by (simp_all add: is_local_def can_send_def can_recv_def view_def initiatedLocally_def)

lemma view_fields [simp]:
  "p_control (view c) = c_control c" "p_ready (view c) = c_ready c" "p_recvMax (view c) = unat (c_recvMax c)"
  "p_received (view c) = unat (c_received c)" "p_sent (view c) = unat (c_sent c)" "p_sendMax (view c) = unat (c_sendMax c)"
  "p_send (view c) = send_of (views c)" "p_recv (view c) = recv_of (unat (stream_window c)) (views c)" "p_peer (view c) = c_peer c"
  "p_onext (view c) d = unat (o_next (c_out c d))" "p_omax (view c) d = unat (o_max (c_out c d))"
  "p_inext (view c) d = unat (i_next (c_in c d))" "p_imax (view c) d = unat (i_max (c_in c d))"
  "p_nextPing (view c) = unat (c_nextPing c)" "p_dgram (view c) = unat (cf_MaxDatagramFrameSize (c_config c))"
  "p_pinged (view c) = (if c_peerPinged c then Some (unat (c_peerPingLast c)) else None)"
  "p_pong (view c) = (if c_pongPending c then Some (unat (c_pongSequence c)) else None)"
  by (simp_all add: view_def)

section \<open>Changes of one stream\<close>

lemma map_of_update:
  assumes "distinct (map fst xs)" "k < length xs" "fst (xs ! k) = i"
  shows "map_of (xs[k := (i, v)]) = (map_of xs)(i \<mapsto> v)"
  using assms
proof (induction xs arbitrary: k)
  case (Cons x xs)
  show ?case
  proof (cases k)
    case 0
    then show ?thesis using Cons.prems by (cases x) auto
  next
    case (Suc n)
    then have "fst x \<noteq> i" using Cons.prems nth_mem [of n xs] by (auto simp: image_iff)
    then show ?thesis using Cons Suc by (cases x) (auto simp: fun_eq_iff)
  qed
qed simp

lemma send_of_update:
  assumes "distinct (map fst vs)" "k < length vs" "fst (vs ! k) = i"
  shows "send_of (vs[k := (i, s, r)]) = (send_of vs)(i := half_of 0 (Some s))"
proof -
  let ?p = "map (\<lambda>(i, s, r). (i, s)) vs"
  have "distinct (map fst ?p)" "fst (?p ! k) = i" using assms by (simp_all add: o_def case_prod_beta)
  from map_of_update [OF this(1) _ this(2), of s] assms(2) show ?thesis
    by (simp add: send_of_def fun_eq_iff map_update)
qed

lemma recv_of_update:
  assumes "distinct (map fst vs)" "k < length vs" "fst (vs ! k) = i"
  shows "recv_of w (vs[k := (i, s, r)]) = (recv_of w vs)(i := half_of w (Some r))"
proof -
  let ?p = "map (\<lambda>(i, s, r). (i, r)) vs"
  have "distinct (map fst ?p)" "fst (?p ! k) = i" using assms by (simp_all add: o_def case_prod_beta)
  from map_of_update [OF this(1) _ this(2), of r] assms(2) show ?thesis
    by (simp add: recv_of_def fun_eq_iff map_update)
qed

lemma map_of_snoc: "i \<notin> fst ` set xs \<Longrightarrow> map_of (xs @ [(i, v)]) = (map_of xs)(i \<mapsto> v)"
  by (induction xs) auto

lemma send_of_snoc: "i \<notin> fst ` set vs \<Longrightarrow> send_of (vs @ [(i, s, r)]) = (send_of vs)(i := half_of 0 (Some s))"
  using map_of_snoc [of i "map (\<lambda>(i, s, r). (i, s)) vs" s] by (force simp: send_of_def fun_eq_iff)

lemma recv_of_snoc: "i \<notin> fst ` set vs \<Longrightarrow> recv_of w (vs @ [(i, s, r)]) = (recv_of w vs)(i := half_of w (Some r))"
  using map_of_snoc [of i "map (\<lambda>(i, s, r). (i, r)) vs" r] by (force simp: recv_of_def fun_eq_iff)

lemma half_of_obj:
  assumes "distinct (map s_id ss)" "s \<in> set ss"
  shows "send_of (map stream_view ss) (s_id s) = (if s_canSend s then send_half s else new_half 0)"
    and "recv_of w (map stream_view ss) (s_id s) = (if s_canRecv s then recv_half s else new_half w)"
proof -
  have "map_of (map (\<lambda>s. (s_id s, f s)) ss) (s_id s) = Some (f s)" for f :: "stream \<Rightarrow> half option"
    using assms by (intro map_of_is_SomeI) (auto simp: o_def)
  note this [of "\<lambda>s. if s_canSend s then Some (send_half s) else None"] this [of "\<lambda>s. if s_canRecv s then Some (recv_half s) else None"]
  then show "send_of (map stream_view ss) (s_id s) = (if s_canSend s then send_half s else new_half 0)"
    and "recv_of w (map stream_view ss) (s_id s) = (if s_canRecv s then recv_half s else new_half w)"
    by (simp_all add: send_of_def recv_of_def half_of_def o_def stream_view_def)
qed

section \<open>What the table of streams tells\<close>

lemma table_distinct: "table_ok c \<Longrightarrow> distinct (map s_id (c_objs c))"
  by (simp add: table_ok_def table_inv_def table_of_def entry_of_def o_def)

lemma table_known:
  assumes "table_ok c" "i < length (c_objs c)"
  shows "known (view c) (s_id (obj c i))"
proof -
  have "entry_of (obj c i) \<in> set (tb_objs (table_of c))" using assms(2) by (simp add: table_of_def)
  then have "entry_ok (table_of c) (entry_of (obj c i))" using assms(1) by (simp add: table_ok_def table_inv_def)
  then show ?thesis
    by (simp add: entry_ok_def Let_def known_def index_of_def word_less_nat_alt tb_local_def initiatedLocally_def entry_of_def
        table_of_def split: if_splits)
qed

lemma table_roles:
  assumes "table_ok c" "i < length (c_objs c)"
  shows "s_canSend (obj c i) \<longleftrightarrow> can_send (view c) (s_id (obj c i))" "s_canRecv (obj c i) \<longleftrightarrow> can_recv (view c) (s_id (obj c i))"
  using table_ok_entry [OF assms] by simp_all

lemma table_imax:
  assumes "table_ok c"
  shows "unat (i_max (c_in c d)) < 2 ^ 63"
proof -
  have p: "peer_ok (table_of c) d" using assms by (simp add: table_ok_def table_inv_def)
  let ?t = "table_of c"
  have "filter (\<lambda>e. tb_peer ?t d e \<and> e_done e) (tb_objs ?t) = filter e_done (filter (tb_peer ?t d) (tb_objs ?t))"
    by (simp add: conj_commute)
  then have "length (filter (\<lambda>e. tb_peer ?t d e \<and> e_done e) (tb_objs ?t)) \<le> length (filter (tb_peer ?t d) (tb_objs ?t))"
    by (metis length_filter_le)
  then have "unat (tb_imax ?t d) \<le> 2 ^ 60 + 2 ^ 62" using p by (simp add: peer_ok_def)
  then show ?thesis by (simp add: table_of_def)
qed

lemma view_obj:
  assumes "table_ok c" "i < length (c_objs c)"
  shows "s_canSend (obj c i) \<Longrightarrow> p_send (view c) (s_id (obj c i)) = send_half (obj c i)"
    "s_canRecv (obj c i) \<Longrightarrow> p_recv (view c) (s_id (obj c i)) = recv_half (obj c i)"
  using half_of_obj [OF table_distinct [OF assms(1)] nth_mem [OF assms(2)]] by simp_all

section \<open>Operations that the other side cannot see\<close>

abbreviation ep_silent :: "endpoint \<Rightarrow> endpoint \<Rightarrow> bool" where
  "ep_silent \<equiv> (\<lambda>e e'. ep_step e [] e')\<^sup>*\<^sup>*"

lemma silent_step: "ep_step e [] e' \<Longrightarrow> ep_silent e e'"
  by (rule r_into_rtranclp)

lemma view_same:
  assumes "views c' = views c" "c_config c' = c_config c" "c_isServer c' = c_isServer c" "c_ready c' = c_ready c" "c_peer c' = c_peer c"
    "\<And>d. o_next (c_out c' d) = o_next (c_out c d)" "\<And>d. o_max (c_out c' d) = o_max (c_out c d)"
    "\<And>d. i_next (c_in c' d) = i_next (c_in c d)" "\<And>d. i_max (c_in c' d) = i_max (c_in c d)"
    "c_sendMax c' = c_sendMax c" "c_sent c' = c_sent c" "c_recvMax c' = c_recvMax c" "c_received c' = c_received c"
    "c_control c' = c_control c" "c_nextPing c' = c_nextPing c" "c_peerPinged c' = c_peerPinged c"
    "c_peerPingLast c' = c_peerPingLast c" "c_pongPending c' = c_pongPending c" "c_pongSequence c' = c_pongSequence c"
  shows "view c' = view c"
  using assms by (simp add: view_def)

lemma stream_view_simps [simp]:
  "stream_view (complete_obj s) = stream_view s" "stream_view (silent s) = stream_view s"
  "stream_view (s\<lparr>s_readSignal := g\<rparr>) = stream_view s" "stream_view (s\<lparr>s_writeSignal := g\<rparr>) = stream_view s"
  "stream_view (s\<lparr>s_readDeadline := t\<rparr>) = stream_view s" "stream_view (s\<lparr>s_writeDeadline := t\<rparr>) = stream_view s"
  "stream_view (s\<lparr>s_accepted := b\<rparr>) = stream_view s" "stream_view (s\<lparr>s_urgency := u, s_incremental := b\<rparr>) = stream_view s"
  "stream_view (take_unread n s) = stream_view s"
  by (simp_all add: stream_view_def complete_obj_def silent_def send_half_def recv_half_def take_unread_def Let_def)

lemma views_update [simp]: "stream_view t = stream_view (xs ! i) \<Longrightarrow> map stream_view (xs[i := t]) = map stream_view xs"
  by (rule map_view_update)

text \<open>The end of a stream lets the peer open another one.\<close>

lemma complete_view:
  assumes "unat (i_max (c_in c (streamDir (s_id (obj c i))))) < 2 ^ 63"
  shows "ep_silent (view c) (view (completeLocked i c))"
proof (cases "frees c (obj c i) (streamDir (s_id (obj c i)))")
  case True
  let ?d = "streamDir (s_id (obj c i))"
  have fr: "frees c (obj c i) d \<longleftrightarrow> d = ?d" for d using True by (auto simp: frees_def)
  have "unat (i_max (c_in c ?d) + 1) = Suc (unat (i_max (c_in c ?d)))" using assms by (simp add: unat_add_u64)
  then have "view (completeLocked i c) = (view c)\<lparr>p_imax := (p_imax (view c))(?d := Suc (p_imax (view c) ?d))\<rparr>"
    by (simp add: view_def completeLocked_eq fr fun_eq_iff)
  then show ?thesis using l_imax [of "view c" ?d] silent_step by simp
next
  case False
  then have "frees c (obj c i) d = False" for d by (auto simp: frees_def)
  then have "view (completeLocked i c) = view c" by (simp add: view_def completeLocked_eq)
  then show ?thesis by simp
qed

text \<open>Consumption of data raises the limit of the connection.\<close>

definition consumes :: "u64 \<Rightarrow> Conn \<Rightarrow> bool" where
  "consumes n c \<longleftrightarrow> unat (c_recvMax c) \<le> unat (c_consumed c) + unat (conn_window c) \<and>
     unat (c_consumed c) + unat n \<le> unat (c_recvMax c) \<and> unat (c_recvMax c) < 2 ^ 62 \<and> unat (conn_window c) < 2 ^ 62"

lemma known_recvMax: "known (e\<lparr>p_recvMax := m\<rparr>) i = known e i" "can_recv (e\<lparr>p_recvMax := m\<rparr>) i = can_recv e i"
  by (simp_all add: known_def can_recv_def is_local_def)

lemma view_consume: "view (consumeLocked n c) = (view c)\<lparr>p_recvMax := unat (c_recvMax (consumeLocked n c))\<rparr>"
  by (simp add: view_def consumeLocked_eq)

lemma consume_view:
  assumes "consumes n c"
  shows "ep_silent (view c) (view (consumeLocked n c))"
proof -
  have C: "unat (c_consumed c + n) = unat (c_consumed c) + unat n"
    using assms by (subst unat_add_u64) (auto simp: consumes_def)
  have "unat (c_consumed c + n + conn_window c) = unat (c_consumed c) + unat n + unat (conn_window c)"
    using assms C by (subst unat_add_u64) (auto simp: consumes_def)
  then have "unat (c_recvMax c) \<le> unat (c_recvMax (consumeLocked n c))"
    using assms by (simp add: consumeLocked_eq consumes_def)
  then have "ep_step (view c) [] ((view c)\<lparr>p_recvMax := unat (c_recvMax (consumeLocked n c))\<rparr>)" by (intro l_recvMax) simp
  then show ?thesis unfolding view_consume by (rule silent_step)
qed

text \<open>The counters of received data, as the invariant has them.\<close>

lemma recv_counters:
  assumes "recv_ok c" "recv_bounds c" "i < length (c_objs c)"
  shows "unat (c_consumed c) + length (unread (obj c i)) \<le> unat (c_received c)" "unat (c_received c) \<le> unat (c_recvMax c)"
    "unat (c_recvMax c) \<le> unat (c_consumed c) + unat (conn_window c)" "unat (c_recvMax c) < 2 ^ 62" "unat (conn_window c) < 2 ^ 62"
    "unat (stream_window c) < 2 ^ 62" "recv_stream_ok (stream_window c) (obj c i)" "unat (s_recvMax (obj c i)) < 2 ^ 62"
proof -
  have "length (unread (obj c i)) \<le> (\<Sum>s\<leftarrow>c_objs c. length (unread s))"
    using assms(3) by (intro member_le_sum_list) auto
  then show "unat (c_consumed c) + length (unread (obj c i)) \<le> unat (c_received c)"
    using assms(1) by (simp add: recv_ok_def recv_inv_def)
qed (use assms in \<open>simp_all add: recv_ok_def recv_inv_def recv_bounds_def\<close>)

text \<open>A change of the stream behind a pointer.\<close>

lemma view_update:
  assumes "distinct (map s_id (c_objs c))" "i < length (c_objs c)" "s_id t = s_id (obj c i)"
  shows "view (c\<lparr>c_objs := (c_objs c)[i := t]\<rparr>) = (view c)\<lparr>
    p_send := (p_send (view c))(s_id t := if s_canSend t then send_half t else new_half 0),
    p_recv := (p_recv (view c))(s_id t := if s_canRecv t then recv_half t else new_half (p_window (view c)))\<rparr>"
proof -
  have d: "distinct (map fst (views c))" using assms(1) by (simp add: o_def stream_view_def)
  have k: "fst (views c ! i) = s_id t" using assms(2,3) by (simp add: stream_view_def)
  have v: "map stream_view ((c_objs c)[i := t]) =
      (views c)[i := (s_id t, if s_canSend t then Some (send_half t) else None, if s_canRecv t then Some (recv_half t) else None)]"
    by (simp add: map_update) (simp add: stream_view_def)
  have l: "i < length (views c)" using assms(2) by simp
  have h: "half_of m (Some (if b then Some h else None)) = (if b then h else new_half m)" for m b h
    by (simp add: half_of_def)
  show ?thesis unfolding view_def
    by (simp add: v send_of_update [OF d l k] recv_of_update [OF d l k] h)
qed

lemma view_update_recv:
  assumes "distinct (map s_id (c_objs c))" "i < length (c_objs c)" "s_id t = s_id (obj c i)" "s_canSend t = s_canSend (obj c i)"
    "send_half t = send_half (obj c i)" "s_canRecv t"
  shows "view (c\<lparr>c_objs := (c_objs c)[i := t]\<rparr>) = (view c)\<lparr>p_recv := (p_recv (view c))(s_id t := recv_half t)\<rparr>"
proof -
  have "(p_send (view c))(s_id t := if s_canSend t then send_half t else new_half 0) = p_send (view c)"
    using half_of_obj(1) [OF assms(1) nth_mem [OF assms(2)]] assms(3-5) by (auto simp: fun_eq_iff)
  then show ?thesis using view_update [OF assms(1-3)] assms(6) by (simp del: view_fields)
qed

lemma view_update_send:
  assumes "distinct (map s_id (c_objs c))" "i < length (c_objs c)" "s_id t = s_id (obj c i)" "s_canRecv t = s_canRecv (obj c i)"
    "recv_half t = recv_half (obj c i)" "s_canSend t"
  shows "view (c\<lparr>c_objs := (c_objs c)[i := t]\<rparr>) = (view c)\<lparr>p_send := (p_send (view c))(s_id t := send_half t)\<rparr>"
proof -
  have "(p_recv (view c))(s_id t := if s_canRecv t then recv_half t else new_half (p_window (view c))) = p_recv (view c)"
    using half_of_obj(2) [OF assms(1) nth_mem [OF assms(2)]] assms(3-5) by (auto simp: fun_eq_iff view_def)
  then show ?thesis using view_update [OF assms(1-3)] assms(6) by (simp del: view_fields)
qed

lemma view_queue: "view (queueLocked f c) = (view c)\<lparr>p_control := c_control c @ [f]\<rparr>"
  by (simp add: view_def queueLocked_def wakeWriter_def)

text \<open>\<open>readLocked\<close> raises the limits of the connection and of the stream.\<close>

lemma readLocked_view:
  assumes "distinct (map s_id (c_objs c))" "i < length (c_objs c)" "s_canRecv (obj c i)" "known (view c) (s_id (obj c i))"
    "can_recv (view c) (s_id (obj c i))" "consumes n c" "unat (s_readOffset (obj c i)) + unat n \<le> unat (s_recvMax (obj c i))"
    "unat (s_recvMax (obj c i)) \<le> unat (s_readOffset (obj c i)) + unat (stream_window c)"
    "unat (s_recvMax (obj c i)) < 2 ^ 62" "unat (stream_window c) < 2 ^ 62"
  shows "ep_silent (view c) (view (readLocked i n c))"
proof -
  define s where "s = (obj c i)\<lparr>s_readOffset := s_readOffset (obj c i) + n\<rparr>"
  define c2 where "c2 = c\<lparr>c_objs := (c_objs c)[i := s]\<rparr>"
  define c3 where "c3 = consumeLocked n c2"
  have v2: "view c2 = view c"
    by (rule view_same) (simp_all add: c2_def s_def stream_view_def send_half_def recv_half_def)
  have "consumes n c2" using assms(6) by (simp add: consumes_def c2_def)
  from consume_view [OF this] have v3: "ep_silent (view c) (view c3)" by (simp only: v2 c3_def)
  have o3: "c_objs c3 = (c_objs c)[i := s]" "obj c3 i = s" "c_config c3 = c_config c" "i < length (c_objs c3)"
    using assms(2) by (simp_all add: c3_def c2_def consumeLocked_eq)
  have ids: "map s_id (c_objs c3) = map s_id (c_objs c)" by (simp add: o3(1) map_view_update s_def)
  let ?m = "s_readOffset s + stream_window c" and ?low = "\<not> s_finRecv s \<and> s_recvMax s - s_readOffset s < stream_window c div 2"
  let ?t = "s\<lparr>s_recvMax := ?m\<rparr>"
  have r: "readLocked i n c = (if ?low then queueLocked (MaxStreamData (s_id s) ?m) (c3\<lparr>c_objs := (c_objs c3)[i := ?t]\<rparr>) else c3)"
  proof -
    have "upd_obj i (\<lambda>s. s\<lparr>s_readOffset := s_readOffset s + n\<rparr>) c = c2" by (simp add: upd_obj_def c2_def s_def)
    then show ?thesis using assms(2) by (simp add: readLocked_def Let_def c3_def [symmetric] o3(1,3) upd_obj_def)
  qed
  show ?thesis
  proof (cases ?low)
    case low: True
    have ro: "unat (s_readOffset s) = unat (s_readOffset (obj c i)) + unat n"
      using assms(7,9) unfolding s_def by simp (subst unat_add_u64, simp_all)
    then have m: "unat ?m = unat (s_readOffset s) + unat (stream_window c)" using assms(7,9,10) by (subst unat_add_u64) simp_all
    have e3: "view c3 = (view c)\<lparr>p_recvMax := unat (c_recvMax c3)\<rparr>" using view_consume [of n c2] v2 by (simp add: c3_def)
    have sid: "s_id s = s_id (obj c i)" "s_canRecv s" "recv_half s = recv_half (obj c i)"
      using assms(3) by (simp_all add: s_def recv_half_def)
    have rc: "p_recv (view c3) (s_id s) = recv_half s" "known (view c3) (s_id s)" "can_recv (view c3) (s_id s)"
      using half_of_obj(2) [OF assms(1) nth_mem [OF assms(2)]] assms(3-5) sid unfolding e3
      by (simp_all add: known_recvMax del: view_roles)
    have "view (c3\<lparr>c_objs := (c_objs c3)[i := ?t]\<rparr>) = (view c3)\<lparr>p_recv := (p_recv (view c3))(s_id ?t := recv_half ?t)\<rparr>"
      by (rule view_update_recv) (use o3 ids assms(1) sid in \<open>simp_all add: send_half_def\<close>)
    moreover have "recv_half ?t = (recv_half s)\<lparr>h_max := unat ?m\<rparr>" by (simp add: recv_half_def)
    ultimately have v4: "view (readLocked i n c) = (view c3)\<lparr>
        p_recv := (p_recv (view c3))(s_id s := (p_recv (view c3) (s_id s))\<lparr>h_max := unat ?m\<rparr>),
        p_control := p_control (view c3) @ [MaxStreamData (s_id s) ?m]\<rparr>"
      unfolding r if_P [OF low] view_queue rc(1) by simp
    have "h_max (p_recv (view c3) (s_id s)) \<le> unat ?m"
      unfolding rc(1) m ro using assms(8) by (simp add: recv_half_def s_def)
    from l_streamMax [OF rc(2,3) this] have "ep_silent (view c3) (view (readLocked i n c))" unfolding v4 by (rule silent_step)
    then show ?thesis using v3 by (rule rtranclp_trans [rotated])
  next
    case False
    show ?thesis unfolding r if_not_P [OF False] by (rule v3)
  qed
qed

lemma tryRead_view:
  assumes "table_ok c" "recv_ok c" "recv_bounds c" "receiver i c"
  shows "ep_silent (view c) (view (snd (tryRead i k c)))"
proof -
  have i: "i < length (c_objs c)" "s_canRecv (obj c i)" using assms(4) by (simp_all add: receiver_def)
  note cnt = recv_counters [OF assms(2,3) i(1)]
  let ?s = "obj c i"
  let ?d = "take k (drop (s_roff ?s) (s_rbuf ?s))"
  have wait: "view (snd (read_wait i c)) = view c"
    by (rule view_same) (simp_all add: read_wait_def signal_wait_eq upd_obj_def)
  show ?thesis
  proof (cases "c_closeErr c = None \<and> s_recvErr ?s = None \<and> s_roff ?s < length (s_rbuf ?s)")
    case False
    then have "snd (tryRead i k c) \<in> {c, snd (read_wait i c)}"
      by (auto simp: tryRead_def Let_def split: option.splits prod.splits)
    then show ?thesis using wait by auto
  next
    case True
    define c1 where "c1 = c\<lparr>c_objs := (c_objs c)[i := take_unread (length ?d) ?s]\<rparr>"
    define c4 where "c4 = readLocked i (u64_len ?d) c1"
    have r: "snd (tryRead i k c) = completeLocked i c4"
      using True by (simp add: tryRead_def c4_def c1_def Let_def upd_obj_def)
    have len: "length ?d \<le> length (unread ?s)" by (simp add: unread_def)
    have "length (unread ?s) < 2 ^ 62" using cnt(1,2,4) by linarith
    then have n: "unat (u64_len ?d) = length ?d" using len by (simp add: unat_u64_len)
    have v1: "view c1 = view c" by (rule view_same) (simp_all add: c1_def)
    have o1: "c_objs c1 = (c_objs c)[i := take_unread (length ?d) ?s]" "obj c1 i = take_unread (length ?d) ?s" "c_in c1 = c_in c"
      using i(1) by (simp_all add: c1_def)
    have fields: "s_id (take_unread m s) = s_id s" "s_canRecv (take_unread m s) = s_canRecv s"
      "s_readOffset (take_unread m s) = s_readOffset s" "s_recvMax (take_unread m s) = s_recvMax s" for m s
      by (simp_all add: take_unread_def Let_def)
    have "\<not> (s_readCancelled ?s \<or> s_recvReset ?s)" using cnt(7) True by (auto simp: recv_stream_ok_def)
    then have ro: "unat (s_readOffset ?s) + length ?d \<le> unat (s_recvMax ?s)"
      "unat (s_recvMax ?s) \<le> unat (s_readOffset ?s) + unat (stream_window c)"
      using cnt(7) len by (simp_all add: recv_stream_ok_def)
    have "ep_silent (view c1) (view c4)" unfolding c4_def
    proof (rule readLocked_view)
      show "consumes (u64_len ?d) c1" using cnt n len by (simp add: consumes_def c1_def)
      show "distinct (map s_id (c_objs c1))"
        using table_distinct [OF assms(1)] by (simp add: o1(1) map_view_update fields)
    qed (use i cnt ro n table_known [OF assms(1) i(1)] table_roles(2) [OF assms(1) i(1)] in
        \<open>simp_all add: o1 v1 fields del: view_roles\<close>, simp_all add: c1_def)
    moreover have "c_in c4 = c_in c"
      by (simp add: c4_def readLocked_def Let_def upd_obj_def consumeLocked_eq queueLocked_def wakeWriter_def o1(3))
    then have "ep_silent (view c4) (view (completeLocked i c4))" using table_imax [OF assms(1)] complete_view by simp
    ultimately show ?thesis unfolding r v1 by (rule rtranclp_trans)
  qed
qed

lemma view_cancel: "view (recv_update i (cancel_obj code (obj c i)) 0 c) = view c"
  by (rule view_same) (simp_all add: recv_update_def cancel_obj_def stream_view_def send_half_def recv_half_def)

lemma cancelRead_view:
  assumes "table_ok c" "recv_ok c" "recv_bounds c" "receiver i c"
  shows "ep_silent (view c) (view (cancelRead i code c))"
proof (cases "cancel_accepted i c")
  case False
  then show ?thesis using assms(4) by (simp add: cancelRead_eq receiver_def)
next
  case True
  have i: "i < length (c_objs c)" "s_canRecv (obj c i)" using assms(4) by (simp_all add: receiver_def)
  note cnt = recv_counters [OF assms(2,3) i(1)]
  let ?n = "of_nat (length (s_rbuf (obj c i)) - s_roff (obj c i)) :: u64"
  define c1 where "c1 = recv_update i (cancel_obj code (obj c i)) 0 c"
  define c2 where "c2 = consumeLocked ?n c1"
  define c3 where "c3 = (if s_finRecv (obj c i) then id else queueLocked (StopSending (s_id (obj c i)) code)) c2"
  have len: "length (s_rbuf (obj c i)) - s_roff (obj c i) = length (unread (obj c i))" by (simp add: unread_def)
  have "length (unread (obj c i)) < 2 ^ 62" using cnt(1,2,4) by linarith
  then have n: "unat ?n = length (unread (obj c i))" unfolding len by (simp add: unat_of_nat_u64)
  have v1: "view c1 = view c" by (simp add: c1_def view_cancel)
  have "consumes ?n c1" using cnt n by (simp add: consumes_def c1_def recv_update_def)
  from consume_view [OF this] have v2: "ep_silent (view c) (view c2)" by (simp only: v1 c2_def)
  have e2: "view c2 = (view c)\<lparr>p_recvMax := unat (c_recvMax c2)\<rparr>" using view_consume [of ?n c1] v1 by (simp add: c2_def)
  have "known (view c2) (s_id (obj c i))" "can_recv (view c2) (s_id (obj c i))"
    using table_known [OF assms(1) i(1)] table_roles(2) [OF assms(1) i(1)] i(2)
    unfolding e2 known_recvMax by simp_all
  from silent_step [OF l_stop [OF this]] have v3: "ep_silent (view c2) (view c3)"
    by (simp add: c3_def view_queue)
  have "c_in c3 = c_in c" by (simp add: c3_def c2_def c1_def recv_update_def consumeLocked_eq queueLocked_def wakeWriter_def)
  then have "ep_silent (view c3) (view (completeLocked i c3))" using table_imax [OF assms(1)] complete_view by simp
  moreover have "cancelRead i code c = completeLocked i c3"
    using True i(1) by (simp add: cancelRead_eq c3_def c2_def c1_def)
  ultimately show ?thesis using v2 v3 by simp
qed

lemma view_send_update:
  assumes "table_ok c" "i < length (c_objs c)" "s_id t = s_id (obj c i)" "s_canRecv t = s_canRecv (obj c i)"
    "recv_half t = recv_half (obj c i)" "s_canSend t"
  shows "view (send_update i t c) = (view c)\<lparr>p_send := (p_send (view c))(s_id t := send_half t)\<rparr>"
proof -
  have "view (send_update i t c) = view (c\<lparr>c_objs := (c_objs c)[i := t\<lparr>s_writeSignal := None\<rparr>]\<rparr>)"
    by (rule view_same) (simp_all add: send_update_def)
  also have "\<dots> = (view c)\<lparr>p_send := (p_send (view c))(s_id (t\<lparr>s_writeSignal := None\<rparr>) := send_half (t\<lparr>s_writeSignal := None\<rparr>))\<rparr>"
    by (rule view_update_send) (use assms table_distinct in \<open>simp_all add: recv_half_def\<close>)
  finally show ?thesis by (simp add: send_half_def)
qed

lemma resetSend_view:
  assumes "table_ok c" "sender i c"
  shows "ep_silent (view c) (view (resetSendLocked i code remote c))"
proof (cases "sendDone (obj c i)")
  case True
  then show ?thesis using assms(2) by (simp add: resetSendLocked_eq sender_def)
next
  case False
  have i: "i < length (c_objs c)" "s_canSend (obj c i)" using assms(2) by (simp_all add: sender_def)
  let ?s = "obj c i" and ?t = "stop_obj code remote (obj c i)"
  define c1 where "c1 = queueLocked (ResetStream (s_id ?s) code (s_sendOffset ?s)) (send_update i ?t c)"
  have p: "p_send (view c) (s_id ?s) = send_half ?s" using view_obj(1) [OF assms(1) i] .
  have "send_half ?t = (send_half ?s)\<lparr>h_ended := True\<rparr>" by (simp add: send_half_def)
  then have v: "view c1 = (view c)\<lparr>p_send := (p_send (view c))(s_id ?s := (p_send (view c) (s_id ?s))\<lparr>h_ended := True\<rparr>),
      p_control := p_control (view c) @ [ResetStream (s_id ?s) code (s_sendOffset ?s)]\<rparr>"
    unfolding c1_def view_queue p
    by (subst view_send_update [OF assms(1) i(1)]) (use i in \<open>simp_all add: recv_half_def send_update_def\<close>)
  have "\<not> h_ended (p_send (view c) (s_id ?s))" unfolding p using False by (simp add: send_half_def sendDone_def)
  moreover have "unat (s_sendOffset ?s) = h_off (p_send (view c) (s_id ?s))" unfolding p by (simp add: send_half_def)
  ultimately have "ep_step (view c) [] (view c1)" unfolding v
    using table_known [OF assms(1) i(1)] table_roles(1) [OF assms(1) i(1)] i(2) by (intro l_reset) simp_all
  then have "ep_silent (view c) (view c1)" by (rule silent_step)
  moreover have "c_in c1 = c_in c" by (simp add: c1_def send_update_def queueLocked_def wakeWriter_def)
  then have "ep_silent (view c1) (view (completeLocked i c1))" using table_imax [OF assms(1)] complete_view by simp
  moreover have "resetSendLocked i code remote c = completeLocked i c1"
    using False i(1) by (simp add: resetSendLocked_eq c1_def)
  ultimately show ?thesis by simp
qed

text \<open>A new stream.\<close>

lemma stream_view_new:
  "stream_view (new_stream c i) = (i, if can_send (view c) i then Some (new_half (initial_max (view c) i)) else None,
     if can_recv (view c) i then Some (new_half (unat (stream_window c))) else None)"
  unfolding initial_max_def view_roles
  by (simp add: stream_view_def new_stream_def zero_stream_def Let_def send_half_def recv_half_def new_half_def)

lemma unnamed_halves:
  assumes "i \<notin> s_id ` set ss"
  shows "send_of (map stream_view ss) i = new_half 0" "recv_of w (map stream_view ss) i = new_half w"
proof -
  have "map_of (map (\<lambda>s. (s_id s, f s)) ss) i = None" for f :: "stream \<Rightarrow> half option"
    using assms by (auto simp: map_of_eq_None_iff)
  note this [of "\<lambda>s. if s_canSend s then Some (send_half s) else None"] this [of "\<lambda>s. if s_canRecv s then Some (recv_half s) else None"]
  then show "send_of (map stream_view ss) i = new_half 0" "recv_of w (map stream_view ss) i = new_half w"
    by (simp_all add: send_of_def recv_of_def half_of_def o_def stream_view_def)
qed

lemma views_new:
  assumes "i \<notin> s_id ` set (c_objs c)"
  shows "send_of (views c @ [stream_view (new_stream c i)]) =
      (if can_send (view c) i then (send_of (views c))(i := new_half (initial_max (view c) i)) else send_of (views c))"
    "recv_of (unat (stream_window c)) (views c @ [stream_view (new_stream c i)]) = recv_of (unat (stream_window c)) (views c)"
proof -
  have n: "i \<notin> fst ` set (views c)" using assms by (auto simp: stream_view_def)
  note u = unnamed_halves [OF assms]
  show "send_of (views c @ [stream_view (new_stream c i)]) =
      (if can_send (view c) i then (send_of (views c))(i := new_half (initial_max (view c) i)) else send_of (views c))"
    unfolding stream_view_new send_of_snoc [OF n] using u(1) by (auto simp: half_of_def fun_eq_iff)
  show "recv_of (unat (stream_window c)) (views c @ [stream_view (new_stream c i)]) = recv_of (unat (stream_window c)) (views c)"
    unfolding stream_view_new recv_of_snoc [OF n] using u(2) [of "unat (stream_window c)"] by (auto simp: half_of_def fun_eq_iff)
qed

lemma index_of_streamID: "unat n < 2 ^ 62 \<Longrightarrow> index_of (streamID_of c n d local) = unat n"
  by (simp add: index_of_def streamID_of_index)

lemma table_fresh:
  assumes "table_ok c" "drop_bit 2 i = (if initiatedLocally c i then o_next (c_out c (streamDir i)) else i_next (c_in c (streamDir i)))"
  shows "i \<notin> s_id ` set (c_objs c)"
proof -
  have "i \<notin> e_id ` set (tb_objs (table_of c))"
    using assms by (intro table_inv_fresh) (simp_all add: table_ok_def, simp add: table_of_def)
  then show ?thesis by (simp add: table_of_def entry_of_def image_image)
qed

lemma tryOpen_view:
  assumes "table_ok c"
  shows "ep_silent (view c) (view (snd (tryOpen d c)))"
proof (cases "c_closeErr c = None \<and> o_next (c_out c d) < o_max (c_out c d)")
  case False
  have "view (snd (out_wait d c)) = view c" by (rule view_same) (simp_all add: out_wait_def signal_wait_eq upd_out_def)
  then show ?thesis using False by (auto simp: tryOpen_snd)
next
  case True
  let ?n = "o_next (c_out c d)"
  let ?i = "streamID_of c ?n d True"
  have inv: "table_inv (table_of c)" using assms by (simp add: table_ok_def)
  then have "unat (o_max (c_out c d)) \<le> 2 ^ 60" "c_ready c \<or> o_max (c_out c d) = 0"
    by (simp_all add: table_inv_def) (auto simp: table_of_def)
  then have n: "unat ?n < 2 ^ 62" and ready: "c_ready c" using True by (auto simp: word_less_nat_alt)
  have "?i \<notin> s_id ` set (c_objs c)"
    by (rule table_fresh [OF assms]) (use n in \<open>simp add: streamID_of_local streamID_of_dir streamID_of_index\<close>)
  note new = views_new [OF this]
  have "unat (?n + 1) = Suc (unat ?n)" using True next_u64 by blast
  then have v: "view (snd (tryOpen d c)) = (view c)\<lparr>p_onext := (p_onext (view c))(d := Suc (p_onext (view c) d)),
      p_send := (p_send (view c))(?i := new_half (initial_max (view c) ?i))\<rparr>"
    using True new by (auto simp: tryOpen_snd Let_def view_def [of "c\<lparr>c_objs := _, c_streams := _, c_out := _\<rparr>"]
        streamID_of_local fun_eq_iff) (auto simp: view_def)
  have "ep_step (view c) [] (view (snd (tryOpen d c)))" unfolding v
    by (rule l_open) (use True n ready in \<open>simp_all add: streamID_of_local streamID_of_dir index_of_streamID word_less_nat_alt\<close>)
  then show ?thesis by (rule silent_step)
qed

lemma tryAccept_view:
  assumes "table_ok c"
  shows "ep_silent (view c) (view (snd (tryAccept d c)))"
proof (cases "i_queue (c_in c d)")
  case Nil
  have "view (snd (in_wait d c)) = view c" by (rule view_same) (simp_all add: in_wait_def signal_wait_eq upd_in_def)
  then show ?thesis using Nil by (simp add: tryAccept_snd)
next
  case (Cons p ps)
  define c1 where "c1 = c\<lparr>c_in := (c_in c)(d := (c_in c d)\<lparr>i_queue := ps\<rparr>), c_objs := (c_objs c)[p := (obj c p)\<lparr>s_accepted := True\<rparr>]\<rparr>"
  have "view c1 = view c" by (rule view_same) (simp_all add: c1_def)
  moreover have "i_max (c_in c1 d') = i_max (c_in c d')" for d' by (simp add: c1_def)
  then have "ep_silent (view c1) (view (completeLocked p c1))" using table_imax [OF assms] complete_view by simp
  ultimately show ?thesis using Cons by (simp add: tryAccept_snd c1_def)
qed

text \<open>Operations that change nothing that the other side could tell.\<close>

lemma terminate_view: "view (snd (terminate err c)) = view c"
proof (cases "terminate err c")
  case (Pair b c')
  show ?thesis
  proof (cases b)
    case True
    then have t0: "terminate err c = (True, c')" using Pair by simp
    note t = terminate_True [OF t0]
    have "views c' = views c" using t(4) by (rule map_silent) simp
    then show ?thesis unfolding Pair snd_conv by (intro view_same) (use t in simp_all)
  next
    case False
    then show ?thesis using terminate_False [of err c c'] Pair by simp
  qed
qed

lemma view_waits:
  "view (snd (read_wait i c)) = view c" "view (snd (write_wait i c)) = view c" "view (snd (send_wait c)) = view c"
  "view (read_broadcast i c) = view c" "view (write_broadcast i c) = view c" "view (send_broadcast c) = view c"
  "view (out_broadcast d c) = view c" "view (in_broadcast d c) = view c"
  by (rule view_same; simp add: wait_defs broadcast_defs upd_defs)+

lemma others_view:
  "view (snd (tryPeek i k c)) = view c" "view (setReadDeadline i t c) = view c" "view (setWriteDeadline i t c) = view c"
  "view (setPriority i urg inc c) = view c" "view (snd (trySend now i c)) = view c" "view (c\<lparr>c_datagrams := ds\<rparr>) = view c"
  "view (snd (requestPing now c)) = view c" "view (snd (writeRecordLocked tw now buf c)) = view c" "view (c\<lparr>c_tr := tr\<rparr>) = view c"
  "view (touch now (c\<lparr>c_bytesReceived := nb, c_recordsReceived := nr\<rparr>)) = view c" "view (snd (handleDatagramLocked dat c)) = view c"
proof -
  have up: "view (upd_obj i f c) = view c" if "stream_view (f (obj c i)) = stream_view (obj c i)" for f
    by (rule view_same) (simp_all add: upd_obj_def that)
  show "view (snd (tryPeek i k c)) = view c"
    using view_waits(1) [of i c] by (auto simp: tryPeek_def Let_def split: option.splits prod.splits)
  show "view (setReadDeadline i t c) = view c" "view (setWriteDeadline i t c) = view c" "view (setPriority i urg inc c) = view c"
    by (simp_all add: setReadDeadline_def setWriteDeadline_def setPriority_def view_waits up)
  show "view (snd (trySend now i c)) = view c"
    using view_waits(2) [of i c] view_waits(3)
    by (auto simp: trySend_def Let_def split: option.splits prod.splits) (metis snd_conv)+
  show "view (snd (writeRecordLocked tw now buf c)) = view c"
    by (rule view_same) (simp_all add: writeRecordLocked_def Let_def touch_def split: sum.split)
  show "view (snd (requestPing now c)) = view c" "view (snd (handleDatagramLocked dat c)) = view c"
    by (rule view_same; simp add: requestPing_def handleDatagramLocked_def wakeWriter_def)+
qed (simp_all add: view_def touch_def)

end
