(* ===== verification/Peer_Refine.thy ===== *)
theory Peer_Refine
  imports Peer_View Wake_Ups
begin

text \<open>
  A connection refines an endpoint: the operations that put frames on the transport are steps of the
  endpoint that emit these frames, and the handler of a frame that the endpoint accepts returns no
  error, opens the streams that the frame implies and takes it.
\<close>

section \<open>The state of a connection\<close>

text \<open>Every stream that the counters know of was made.\<close>

definition tb_named :: "table \<Rightarrow> bool" where
  "tb_named t \<longleftrightarrow> (\<forall>i. drop_bit 2 i < (if tb_local t i then tb_onext t (streamDir i) else tb_inext t (streamDir i)) \<longrightarrow>
     i \<in> e_id ` set (tb_objs t))"

lemma same_stream:
  assumes "drop_bit 2 i = drop_bit 2 j" "streamDir i = streamDir j" "tb_local t i = tb_local t j"
  shows "i = j"
proof -
  fix c :: Conn
  have "initiatedLocally c i = initiatedLocally c j" using assms(3) by (auto simp: tb_local_def initiatedLocally_def)
  then have "streamID_of c (drop_bit 2 i) (streamDir i) (initiatedLocally c i) = streamID_of c (drop_bit 2 j) (streamDir j) (initiatedLocally c j)"
    by (simp only: assms(1,2))
  then show ?thesis by (simp only: streamID_of_parts)
qed

lemma tb_named_open:
  assumes "tb_named t" "drop_bit 2 j = (if tb_local t j then tb_onext t (streamDir j) else tb_inext t (streamDir j))"
    "\<And>i. tb_local t' i = tb_local t i" "e_id ` set (tb_objs t') = insert j (e_id ` set (tb_objs t))"
    "\<And>i. drop_bit 2 i < (if tb_local t i then tb_onext t' (streamDir i) else tb_inext t' (streamDir i)) \<Longrightarrow>
       drop_bit 2 i < (if tb_local t i then tb_onext t (streamDir i) else tb_inext t (streamDir i)) \<or>
       tb_local t i = tb_local t j \<and> streamDir i = streamDir j \<and> drop_bit 2 i = drop_bit 2 j"
  shows "tb_named t'"
  using assms(1,5) same_stream [of _ j t] unfolding tb_named_def assms(3,4) by blast

lemma less_next_u64: "(k :: u64) < n + 1 \<Longrightarrow> n < m \<Longrightarrow> k < n \<or> k = n"
  using next_u64 [of n m] by (auto simp: word_less_nat_alt less_Suc_eq intro: word_unat_eq_iff [THEN iffD2])

lemma table_step_named: "table_step t t' \<Longrightarrow> tb_named t \<Longrightarrow> tb_named t'"
proof (induction rule: table_step.induct)
  case (table_open_peer t i d)
  show ?case
  proof (rule tb_named_open [OF table_open_peer(8), of i])
    fix k assume "drop_bit 2 k < (if tb_local t k then tb_onext (tb_open_peer i d t) (streamDir k) else tb_inext (tb_open_peer i d t) (streamDir k))"
    then show "drop_bit 2 k < (if tb_local t k then tb_onext t (streamDir k) else tb_inext t (streamDir k)) \<or>
       tb_local t k = tb_local t i \<and> streamDir k = streamDir i \<and> drop_bit 2 k = drop_bit 2 i"
      using table_open_peer less_next_u64 [OF _ table_open_peer(6), of "drop_bit 2 k"]
      by (auto simp: tb_open_peer_def tb_new_def split: if_splits)
  qed (use table_open_peer in \<open>auto simp: tb_local_def tb_open_peer_def tb_new_def\<close>)
next
  case (table_open_local t i d)
  show ?case
  proof (rule tb_named_open [OF table_open_local(6), of i])
    fix k assume "drop_bit 2 k < (if tb_local t k then tb_onext (tb_open_local i d t) (streamDir k) else tb_inext (tb_open_local i d t) (streamDir k))"
    then show "drop_bit 2 k < (if tb_local t k then tb_onext t (streamDir k) else tb_inext t (streamDir k)) \<or>
       tb_local t k = tb_local t i \<and> streamDir k = streamDir i \<and> drop_bit 2 k = drop_bit 2 i"
      using table_open_local less_next_u64 [OF _ table_open_local(5), of "drop_bit 2 k"]
      by (auto simp: tb_open_local_def tb_new_def split: if_splits)
  qed (use table_open_local in \<open>auto simp: tb_local_def tb_open_local_def tb_new_def\<close>)
next
  case (table_accept t d)
  have "e_id ` set (tb_objs (tb_accept d t)) = e_id ` set (tb_objs t)"
    unfolding tb_accept_def by (simp add: map_view_update flip: set_map)
  then show ?case using table_accept(3) by (simp add: tb_named_def tb_local_def) (simp add: tb_accept_def)
next
  case (table_complete p t)
  have "e_id ` set (tb_objs (tb_complete p t)) = e_id ` set (tb_objs t)"
    unfolding tb_complete_def Let_def by (simp add: map_view_update flip: set_map)
  then show ?case using table_complete(4) by (simp add: tb_named_def tb_local_def) (simp add: tb_complete_def Let_def)
next
  case (table_end t)
  then show ?case by (simp add: tb_named_def tb_local_def tb_end_def)
next
  case (table_allow t m)
  then show ?case by (simp add: tb_named_def tb_local_def tb_allow_def)
qed

lemma conn_op_named:
  assumes "conn_op grow c c'" "table_ok c" "tb_named (table_of c)"
  shows "tb_named (table_of c')"
  using conn_op_refines [OF assms(1,2)] assms(3) by (induction rule: rtranclp_induct) (auto intro: table_step_named)

text \<open>The invariants of a connection in one.\<close>

definition conn_ok :: "Conn \<Rightarrow> bool" where
  "conn_ok c \<longleftrightarrow> table_ok c \<and> recv_ok c \<and> send_ok c \<and> tb_named (table_of c) \<and> all_ended_ok c"

lemma conn_op_ok: "conn_op grow c c' \<Longrightarrow> conn_ok c \<Longrightarrow> recv_bounds c \<Longrightarrow> conn_ok c'"
  using conn_op_table_ok conn_op_recv conn_op_send conn_op_named conn_op_ended unfolding conn_ok_def by blast

lemma newConn_ok: "conn_ok (newConn (normalized q config) isServer now)"
  using newConn_table_ok [of q config isServer now] newConn_recv_ok [of "normalized q config" isServer now]
  by (simp add: conn_ok_def) (simp add: send_ok_def send_inv_def tb_named_def all_ended_ok_def table_of_def newConn_def new_outgoing_def new_incoming_def split: dir.split)

section \<open>What an endpoint emits\<close>

inductive ep_run :: "endpoint \<Rightarrow> frame list \<Rightarrow> endpoint \<Rightarrow> bool" where
  run_nil: "ep_run e [] e"
| run_step: "ep_step e fs e' \<Longrightarrow> ep_run e' gs e'' \<Longrightarrow> ep_run e (fs @ gs) e''"

lemma ep_run_single: "ep_step e fs e' \<Longrightarrow> ep_run e fs e'"
  using run_step [OF _ run_nil] by fastforce

lemma ep_run_append: "ep_run e fs e' \<Longrightarrow> ep_run e' gs e'' \<Longrightarrow> ep_run e (fs @ gs) e''"
  by (induction rule: ep_run.induct) (simp_all add: run_step)

lemma ep_run_silent: "ep_silent e e' \<Longrightarrow> ep_run e [] e'"
  by (induction rule: rtranclp_induct) (use run_nil ep_run_append [OF _ ep_run_single] in fastforce)+

lemma reserve_view:
  assumes "conn_ok c" "sender i c" "reserve i (length p) c = (Inr (off, n), c')"
  shows "ep_step (view c) [Stream (s_id (obj c i)) off (take n p) False] (view c')" "n = 0 \<Longrightarrow> view c' = view c"
proof -
  have i: "i < length (c_objs c)" "s_canSend (obj c i)" using assms(2) by (simp_all add: sender_def)
  have ok: "table_ok c" "send_inv (c_sendMax c) (c_sent c) (c_objs c)" using assms(1) by (simp_all add: conn_ok_def send_ok_def)
  have none: "sendErrLocked i c = None" using assms(3) by (auto simp: reserve_eq split: option.splits)
  let ?s = "obj c i"
  let ?t = "?s\<lparr>s_sendOffset := s_sendOffset ?s + of_nat n\<rparr>"
  have r: "off = s_sendOffset ?s" "n = granted i (length p) c"
    "c' = c\<lparr>c_objs := (c_objs c)[i := ?t], c_sent := c_sent c + of_nat n\<rparr>"
    using assms(3) none by (auto simp: reserve_eq)
  note g = granted_le [of i "length p" c, folded r(2)]
  note inv = send_inv_reserve [OF ok(2) i(1) g(3,4)]
  have le: "unat (s_sendOffset ?s) \<le> unat (s_sendMax ?s)" "unat (c_sent c) \<le> unat (c_sendMax c)"
    using ok(2) i(1) by (simp_all add: send_inv_def word_le_nat_alt)
  have "n < 2 ^ 64" using g(4) unat_lt_u64 [of "c_sendMax c"] by simp
  then have "unat (of_nat n :: u64) = n" by (simp add: unat_of_nat_u64)
  then have sent: "unat (c_sent c + of_nat n) = unat (c_sent c) + n"
    using g(4) le(2) unat_lt_u64 [of "c_sendMax c"] by (simp add: unat_add_u64)
  have len: "length (take n p) = n" using g(1) by simp
  have p: "p_send (view c) (s_id ?s) = send_half ?s" using view_obj(1) [OF ok(1) i] .
  have "view (c\<lparr>c_objs := (c_objs c)[i := ?t]\<rparr>) = (view c)\<lparr>p_send := (p_send (view c))(s_id ?t := send_half ?t)\<rparr>"
    by (rule view_update_send) (use i table_distinct [OF ok(1)] in \<open>simp_all add: recv_half_def\<close>)
  moreover have "send_half ?t = (send_half ?s)\<lparr>h_off := unat off + length (take n p)\<rparr>"
    using inv(2) len by (simp add: send_half_def r(1))
  moreover have "view c' = (view (c\<lparr>c_objs := (c_objs c)[i := ?t]\<rparr>))\<lparr>p_sent := unat (c_sent c) + n\<rparr>"
    unfolding r(3) sent [symmetric] by (simp add: view_def)
  ultimately have v: "view c' = (view c)\<lparr>p_send := (p_send (view c))(s_id ?s := (p_send (view c) (s_id ?s))\<lparr>h_off := unat off + length (take n p)\<rparr>),
      p_sent := p_sent (view c) + length (take n p)\<rparr>"
    unfolding p len by simp
  show "ep_step (view c) [Stream (s_id ?s) off (take n p) False] (view c')" unfolding v
  proof (rule m_data)
    show "known (view c) (s_id ?s)" "can_send (view c) (s_id ?s)" using table_known [OF ok(1) i(1)] table_roles(1) [OF ok(1) i(1)] i(2) by auto
    show "\<not> h_ended (p_send (view c) (s_id ?s))" unfolding p using none by (auto simp: send_half_def sendErrLocked_def Let_def split: if_splits)
    show "unat off = h_off (p_send (view c) (s_id ?s))" "unat off + length (take n p) \<le> h_max (p_send (view c) (s_id ?s))"
      unfolding p len using g(3) le(1) by (simp_all add: send_half_def r(1))
    show "p_sent (view c) + length (take n p) \<le> p_sendMax (view c)" unfolding len using g(4) le(2) by simp
  qed
  show "view c' = view c" if "n = 0"
    by (rule view_same) (use that r(3) in simp_all)
qed

lemma finish_view:
  assumes "conn_ok c" "sender i c" "finish i c = (Inr (Some n), c')"
  shows "ep_run (view c) [Stream (s_id (obj c i)) n [] True] (view c')"
proof -
  have i: "i < length (c_objs c)" "s_canSend (obj c i)" using assms(2) by (simp_all add: sender_def)
  have ok: "table_ok c" using assms(1) by (simp add: conn_ok_def)
  let ?s = "obj c i" and ?t = "finish_obj (obj c i)"
  define c1 where "c1 = send_update i ?t c"
  have g: "c_closeErr c = None" "\<not> s_finSent ?s" "s_sendErr ?s = None" using assms(3) by (auto simp: finish_def Let_def split: option.splits if_splits)
  then have c': "c' = completeLocked i c1" using finish_snd [OF i(1)] assms(3) by (simp add: c1_def)
  have "n = s_sendOffset (obj c' i)" using assms(3) g by (auto simp: finish_def Let_def)
  then have n: "n = s_sendOffset ?s" using i(1) by (simp add: c' c1_def completeLocked_eq send_update_def)
  have p: "p_send (view c) (s_id ?s) = send_half ?s" using view_obj(1) [OF ok(1) i] .
  have "view c1 = (view c)\<lparr>p_send := (p_send (view c))(s_id ?t := send_half ?t)\<rparr>"
    unfolding c1_def by (rule view_send_update [OF ok i(1)]) (use i(2) in \<open>simp_all add: recv_half_def\<close>)
  moreover have "send_half ?t = (send_half ?s)\<lparr>h_ended := True\<rparr>" by (simp add: send_half_def)
  ultimately have v: "view c1 = (view c)\<lparr>p_send := (p_send (view c))(s_id ?s := (p_send (view c) (s_id ?s))\<lparr>h_ended := True\<rparr>)\<rparr>"
    unfolding p by simp
  have "ep_step (view c) [Stream (s_id ?s) n [] True] (view c1)" unfolding v
  proof (rule m_fin)
    show "known (view c) (s_id ?s)" "can_send (view c) (s_id ?s)" using table_known [OF ok(1) i(1)] table_roles(1) [OF ok(1) i(1)] i(2) by auto
    show "\<not> h_ended (p_send (view c) (s_id ?s))" "unat n = h_off (p_send (view c) (s_id ?s))"
      unfolding p using g n by (simp_all add: send_half_def)
  qed
  moreover have "c_in c1 = c_in c" by (simp add: c1_def send_update_def)
  then have "ep_silent (view c1) (view c')" unfolding c' using table_imax [OF ok] complete_view by simp
  ultimately show ?thesis using ep_run_append [OF ep_run_single ep_run_silent] by fastforce
qed

lemma takeControl_view:
  assumes "c_pingPending c \<Longrightarrow> unat (c_nextPing c) < 2 ^ 62"
  shows "ep_run (view c) (fst (takeControl now c)) (view (snd (takeControl now c)))"
proof (cases "c_closeErr c = None")
  case False
  then show ?thesis by (simp add: takeControl_def run_nil)
next
  case open_conn: True
  let ?e1 = "(view c)\<lparr>p_control := []\<rparr>"
  let ?e2 = "if c_pongPending c then ?e1\<lparr>p_pong := None\<rparr> else ?e1"
  let ?e3 = "if c_pingPending c then ?e2\<lparr>p_nextPing := Suc (p_nextPing ?e2)\<rparr> else ?e2"
  have "ep_run (view c) (c_control c) ?e1" using m_control [of "view c"] ep_run_single by simp
  moreover have "ep_run ?e1 (take_flag (c_maxDataPending c) (MaxData (c_recvMax c))) ?e1"
    by (auto simp: take_flag_def intro!: run_nil ep_run_single m_maxData)
  moreover have "ep_run ?e1 (take_flag (i_pending (c_in c dirBidi)) (MaxStreams False (i_max (c_in c dirBidi)))) ?e1"
    by (auto simp: take_flag_def intro!: run_nil ep_run_single m_maxStreams)
  moreover have "ep_run ?e1 (take_flag (i_pending (c_in c dirUni)) (MaxStreams True (i_max (c_in c dirUni)))) ?e1"
    by (auto simp: take_flag_def intro!: run_nil ep_run_single m_maxStreams)
  moreover have "ep_run ?e1 (take_flag (c_pongPending c) (Ping True (c_pongSequence c))) ?e2"
    by (auto simp: take_flag_def intro!: run_nil ep_run_single m_pong)
  moreover have "ep_run ?e2 (take_flag (c_pingPending c) (Ping False (c_nextPing c))) ?e3"
    using ep_run_single [OF m_ping [of "c_nextPing c" ?e2]] run_nil [of ?e2] by (simp add: take_flag_def)
  ultimately have "ep_run (view c) (fst (takeControl now c)) ?e3"
    using open_conn by (simp add: takeControl_def Let_def ep_run_append)
  moreover have "view (snd (takeControl now c)) = ?e3"
  proof -
    have "unat (c_nextPing c + 1) = Suc (unat (c_nextPing c))" if "c_pingPending c" using assms that by (simp add: unat_add_u64)
    moreover have "(\<lambda>d. unat (i_next (if d = dirUni then c_in c dirUni\<lparr>i_pending := False\<rparr> else if d = dirBidi then c_in c dirBidi\<lparr>i_pending := False\<rparr> else c_in c d))) = (\<lambda>d. unat (i_next (c_in c d)))"
      by (simp add: fun_eq_iff)
    ultimately show ?thesis using open_conn
      by (simp add: takeControl_def Let_def view_def upd_in_def) (auto simp: fun_eq_iff)
  qed
  ultimately show ?thesis by simp
qed

lemma datagram_view:
  assumes "quicvarint q" "length p < 2 ^ 62" "of_nat (Datagram_Len q p) \<le> datagramLimit c"
  shows "ep_step (view c) [Datagram p] (view c)"
proof -
  have "Datagram_Len q p < 2 ^ 64" using assms(2) quicvarint.vlen_bounds [OF assms(1), of "u64_len p"] quicvarint.size_fits [OF assms(1,2)] by (simp add: Datagram_Len_def)
  then have "Datagram_Len q p \<le> unat (datagramLimit c)" using assms(3) by (simp add: word_le_nat_alt unat_of_nat_u64)
  moreover have "unat (datagramLimit c) \<le> unat (MaxDatagramFrameSize (c_peer c))"
    by (simp add: datagramLimit_def min_def word_le_nat_alt)
  ultimately show ?thesis by (intro m_datagram) (simp add: Datagram_Len_def)
qed

section \<open>What an endpoint takes\<close>

text \<open>A frame that arrives: the streams that it opens, its effect, and what follows from it.\<close>

definition takes :: "frame \<Rightarrow> endpoint \<Rightarrow> endpoint \<Rightarrow> bool" where
  "takes f e e' \<longleftrightarrow> (\<exists>e1 e2. (\<lambda>e e'. ep_pre e f e')\<^sup>*\<^sup>* e e1 \<and> ep_take e1 f e2 \<and> ep_silent e2 e')"

lemma open_next_view:
  assumes "table_ok c" "c_ready c" "frame_id f = Some j" "\<not> initiatedLocally c j" "streamDir j = d" "i_next (c_in c d) \<le> drop_bit 2 j"
  shows "ep_pre (view c) f (view (open_next d c))"
proof -
  let ?n = "i_next (c_in c d)"
  let ?i = "streamID_of c ?n d False"
  have n: "unat ?n < 2 ^ 62" using assms(6) drop_bit_u64_lt [of j] by (simp add: word_le_nat_alt)
  have "?i \<notin> s_id ` set (c_objs c)"
    by (rule table_fresh [OF assms(1)]) (use n in \<open>simp add: streamID_of_local streamID_of_dir streamID_of_index\<close>)
  note new = views_new [OF this]
  have "unat (?n + 1) = Suc (unat ?n)" using next_index [OF assms(6)] by simp
  then have v: "view (open_next d c) = (view c)\<lparr>p_inext := (p_inext (view c))(d := Suc (p_inext (view c) d)),
      p_send := (if can_send (view c) ?i then (p_send (view c))(?i := new_half (initial_max (view c) ?i)) else p_send (view c))\<rparr>"
    using new by (auto simp: open_next_eq Let_def view_def [of "c\<lparr>c_objs := _, c_streams := _, c_in := _, c_closed := _\<rparr>"]
        fun_eq_iff simp del: view_roles) (auto simp: view_def)
  show ?thesis unfolding v
    by (rule ep_pre.intros [OF _ assms(3)]) (use assms n in \<open>simp_all add: streamID_of_local streamID_of_dir streamID_of_index index_of_def word_le_nat_alt\<close>)
qed

lemma open_incoming_view:
  assumes "conn_ok c" "recv_bounds c" "c_ready c" "c_closeErr c = None" "frame_id f = Some j" "\<not> initiatedLocally c j"
    "drop_bit 2 j < i_max (c_in c (streamDir j))"
  shows "(\<lambda>e e'. ep_pre e f e')\<^sup>*\<^sup>* (view c) (view (open_incoming (streamDir j) j c)) \<and> conn_ok (open_incoming (streamDir j) j c) \<and>
     recv_bounds (open_incoming (streamDir j) j c) \<and> drop_bit 2 j < i_next (c_in (open_incoming (streamDir j) j c) (streamDir j))"
  using assms
proof (induction "streamDir j" j c rule: open_incoming.induct)
  case (1 j c)
  show ?case
  proof (cases "i_next (c_in c (streamDir j)) \<le> drop_bit 2 j")
    case True
    let ?c = "open_next (streamDir j) c"
    have "conn_ok ?c" using conn_op_ok [OF op_open_next [where grow = "\<lambda>k n. n", OF 1(5,4) True 1(8)] 1(2,3)] .
    moreover have "\<not> initiatedLocally ?c j" using 1(7) by (simp add: initiatedLocally_def open_next_fields)
    moreover have "ep_pre (view c) f (view ?c)" using open_next_view [OF _ 1(4,6,7) refl True] 1(2) by (simp add: conn_ok_def)
    ultimately show ?thesis using 1 True open_next_bounds [of c "streamDir j"]
      by (subst (1 2 3 4) open_incoming.simps) (simp add: open_next_fields converse_rtranclp_into_rtranclp [of "\<lambda>e e'. ep_pre e f e'"])
  next
    case False
    then show ?thesis using 1 by (subst (1 2 3 4) open_incoming.simps) simp
  qed
qed

text \<open>\<open>streamLocked\<close> returns no error for a stream within the limits, and finds it unless it is done.\<close>

lemma streamLocked_view:
  assumes "conn_ok c" "recv_bounds c" "c_ready c" "c_closeErr c = None" "frame_id f = Some j" "reaches (view c) j"
    "if recv then can_recv (view c) j else can_send (view c) j"
  obtains c1 where "streamLocked j recv c = (Inr (c_streams c1 j), c1)" "(\<lambda>e e'. ep_pre e f e')\<^sup>*\<^sup>* (view c) (view c1)" "conn_ok c1"
    "recv_bounds c1" "c_ready c1" "c_closeErr c1 = None" "known (view c1) j"
proof (cases "initiatedLocally c j")
  case True
  then have "drop_bit 2 j < o_next (c_out c (streamDir j))" using assms(6) by (simp add: reaches_def index_of_def word_less_nat_alt)
  then have "streamLocked j recv c = (Inr (c_streams c j), c)" using assms(7) True by (cases recv) (auto simp: streamLocked_def Let_def not_le)
  moreover have "known (view c) j" using assms(6) True by (simp add: reaches_def known_def)
  ultimately show ?thesis using that [of c] assms by simp
next
  case False
  let ?c = "open_incoming (streamDir j) j c"
  have l: "drop_bit 2 j < i_max (c_in c (streamDir j))" using assms(6) False by (simp add: reaches_def index_of_def word_less_nat_alt)
  then have r: "streamLocked j recv c = (Inr (c_streams ?c j), ?c)" using assms(7) False by (cases recv) (auto simp: streamLocked_def Let_def not_le)
  note o = open_incoming_view [OF assms(1-5) False l]
  have "\<not> initiatedLocally ?c j" using False by (simp add: initiatedLocally_def open_incoming_fields)
  then have "known (view ?c) j" using o by (simp add: known_def index_of_def word_less_nat_alt)
  then show ?thesis using that [OF r] o assms(3,4) by (simp add: open_incoming_fields)
qed

lemma stream_found:
  assumes "conn_ok c" "c_closeErr c = None" "known (view c) j"
  obtains p where "p < length (c_objs c)" "s_id (obj c p) = j" "c_streams c j = (if s_done (obj c p) then None else Some p)"
proof -
  have ok: "table_inv (table_of c)" "tb_named (table_of c)" using assms(1) by (simp_all add: conn_ok_def table_ok_def)
  have "drop_bit 2 j < (if initiatedLocally c j then tb_onext (table_of c) (streamDir j) else tb_inext (table_of c) (streamDir j))"
    using assms(3) by (simp add: known_def index_of_def word_less_nat_alt table_of_def split: if_splits)
  then have "j \<in> e_id ` set (tb_objs (table_of c))" using ok(2) unfolding tb_named_def tb_local_table_of by blast
  then obtain p where p: "p < length (c_objs c)" "s_id (obj c p) = j"
    by (auto simp: table_of_def entry_of_def image_image in_set_conv_nth)
  let ?t = "table_of c"
  have e: "tb_objs ?t ! p = entry_of (obj c p)" "p < length (tb_objs ?t)" using p(1) by (simp_all add: table_of_def)
  have "c_streams c j = Some p" if "\<not> s_done (obj c p)"
  proof -
    have "\<not> tb_ended ?t" using assms(2) by (simp add: table_of_def)
    then have "\<not> e_done (tb_objs ?t ! p) \<longrightarrow> tb_streams ?t (e_id (tb_objs ?t ! p)) = Some p" using ok(1) e(2) by (simp add: table_inv_def)
    then show ?thesis using that p(2) unfolding e(1) by (simp add: entry_of_def table_of_def)
  qed
  moreover have "c_streams c j = None" if d: "s_done (obj c p)"
  proof (rule ccontr)
    assume "c_streams c j \<noteq> None"
    then obtain p' where p': "c_streams c j = Some p'" by blast
    note t = table_ok_lookup [OF _ p']
    have tok: "table_ok c" using ok(1) by (simp add: table_ok_def)
    have "p' = p" using t(1,2) [OF tok] p table_distinct [OF tok] by (auto simp: distinct_conv_nth)
    then show False using t(3) [OF tok] d by simp
  qed
  ultimately show ?thesis using that [OF p] by simp
qed

lemma pre_keeps:
  "(\<lambda>e e'. ep_pre e f e')\<^sup>*\<^sup>* e e' \<Longrightarrow> p_recv e' = p_recv e \<and> p_received e' = p_received e \<and> p_recvMax e' = p_recvMax e"
  by (induction rule: rtranclp_induct) (auto simp: ep_pre_keeps)

text \<open>Data and the end of a stream.\<close>

lemma receive_data_fst: "data_accepted i off d c \<Longrightarrow> fst (receive_data grow i sid off d fin c) = None"
  by (auto simp: receive_data_def receivedLocked_def data_accepted_def Let_def not_less split: option.splits prod.splits)

lemma view_recv_update:
  assumes "table_ok c" "i < length (c_objs c)" "s_id t = s_id (obj c i)" "s_canSend t = s_canSend (obj c i)"
    "send_half t = send_half (obj c i)" "s_canRecv t"
  shows "view (recv_update i t r c) = (view c)\<lparr>p_recv := (p_recv (view c))(s_id t := recv_half t), p_received := unat (c_received c + r)\<rparr>"
proof -
  have "view (recv_update i t r c) = (view (c\<lparr>c_objs := (c_objs c)[i := t]\<rparr>))\<lparr>p_received := unat (c_received c + r)\<rparr>"
    by (simp add: recv_update_def view_def)
  then show ?thesis using view_update_recv [OF table_distinct [OF assms(1)] assms(2-)] by simp
qed

lemma receive_data_view:
  assumes "conn_ok c" "recv_bounds c" "receiver i c" "length d < 2 ^ 62" "\<not> h_ended (recv_half (obj c i))" "h_off (recv_half (obj c i)) = unat off"
    "unat off + length d \<le> h_max (recv_half (obj c i))" "p_received (view c) + length d \<le> p_recvMax (view c)"
  obtains c' e where "receive_data grow i sid off d fin c = (None, c')" "ep_take (view c) (Stream (s_id (obj c i)) off d fin) e" "ep_silent e (view c')"
proof -
  have i: "i < length (c_objs c)" "s_canRecv (obj c i)" using assms(3) by (simp_all add: receiver_def)
  have ok: "table_ok c" "recv_ok c" using assms(1) by (simp_all add: conn_ok_def)
  note cnt = recv_counters [OF ok(2) assms(2) i(1)]
  let ?s = "obj c i" and ?n = "u64_len d"
  let ?t = "data_obj grow d fin ?s"
  have h: "off = s_recvOffset ?s" "\<not> s_finRecv ?s" "\<not> s_recvReset ?s" "unat (s_recvOffset ?s) + length d \<le> unat (s_recvMax ?s)"
    "unat (c_received c) + length d \<le> unat (c_recvMax c)"
    using assms(5-8) by (auto simp: recv_half_def word_unat_eq_iff)
  have n: "unat ?n = length d" using assms(4) by (simp add: unat_u64_len)
  have a: "unat (s_recvOffset ?s + ?n) = unat (s_recvOffset ?s) + length d" using h(4) n unat_lt_u64 [of "s_recvMax ?s"] by (simp add: unat_add_u64)
  have b: "unat (c_received c + ?n) = unat (c_received c) + length d" using h(5) n unat_lt_u64 [of "c_recvMax c"] by (simp add: unat_add_u64)
  have acc: "data_accepted i off d c" using h a b by (simp add: data_accepted_def Let_def word_le_nat_alt)
  define c1 where "c1 = recv_update i ?t ?n c"
  define c2 where "c2 = (if s_readCancelled ?s then consumeLocked ?n else id) c1"
  have r: "receive_data grow i sid off d fin c = (None, completeLocked i c2)"
    using receive_data_snd [OF i(1), of grow sid off d fin] receive_data_fst [OF acc, of grow sid fin] acc
    by (simp add: c1_def c2_def prod_eq_iff)
  have t: "s_id ?t = s_id ?s" "s_canSend ?t = s_canSend ?s" "s_canRecv ?t = s_canRecv ?s" "send_half ?t = send_half ?s"
    "recv_half ?t = (recv_half ?s)\<lparr>h_off := unat off + length d, h_ended := fin\<rparr>"
    using h(1,3) a by (simp_all add: data_obj_def Let_def send_half_def recv_half_def)
  have p: "p_recv (view c) (s_id ?s) = recv_half ?s" using view_obj(2) [OF ok(1) i] .
  have v1: "view c1 = (view c)\<lparr>p_recv := (p_recv (view c))(s_id ?s := (p_recv (view c) (s_id ?s))\<lparr>h_off := unat off + length d, h_ended := fin\<rparr>),
      p_received := p_received (view c) + length d\<rparr>"
    unfolding c1_def p using view_recv_update [OF ok(1) i(1) t(1,2,4), of ?n] i(2) t(1,3,5) b by simp
  have "ep_take (view c) (Stream (s_id ?s) off d fin) (view c1)" unfolding v1
    by (rule t_stream) (use assms(5,6) in \<open>simp_all only: p not_False_eq_True\<close>)
  moreover have "consumes ?n c1" using cnt n h(5) by (simp add: consumes_def c1_def recv_update_def)
  then have "ep_silent (view c1) (view c2)" using consume_view by (simp add: c2_def)
  moreover have "c_in c2 = c_in c" by (simp add: c2_def c1_def recv_update_def consumeLocked_eq)
  then have "ep_silent (view c2) (view (completeLocked i c2))" using table_imax [OF ok(1)] complete_view by simp
  ultimately show ?thesis using that [OF r] by (meson rtranclp_trans)
qed

lemma receive_reset_fst: "reset_accepted i n c \<Longrightarrow> fst (receive_reset i sid code n c) = None"
  by (auto simp: receive_reset_def receivedLocked_def reset_accepted_def Let_def not_less split: option.splits prod.splits)

lemma receive_reset_view:
  assumes "conn_ok c" "recv_bounds c" "receiver i c" "\<not> h_ended (recv_half (obj c i))" "h_off (recv_half (obj c i)) = unat n"
  obtains c' e where "receive_reset i sid code n c = (None, c')" "ep_take (view c) (ResetStream (s_id (obj c i)) code' n) e" "ep_silent e (view c')"
proof -
  have i: "i < length (c_objs c)" "s_canRecv (obj c i)" using assms(3) by (simp_all add: receiver_def)
  have ok: "table_ok c" "recv_ok c" using assms(1) by (simp_all add: conn_ok_def)
  note cnt = recv_counters [OF ok(2) assms(2) i(1)]
  let ?s = "obj c i"
  let ?t = "reset_obj code n ?s"
  have h: "n = s_recvOffset ?s" "\<not> s_finRecv ?s" "\<not> s_recvReset ?s" using assms(4,5) by (auto simp: recv_half_def word_unat_eq_iff)
  have acc: "reset_accepted i n c" using h cnt(2,7) by (simp add: reset_accepted_def Let_def word_le_nat_alt recv_stream_ok_def)
  let ?k = "of_nat (length (s_rbuf ?s) - s_roff ?s) :: u64"
  define c1 where "c1 = recv_update i ?t 0 c"
  define c2 where "c2 = consumeLocked ?k c1"
  have r: "receive_reset i sid code n c = (None, completeLocked i c2)"
    using receive_reset_snd [OF i(1), of sid code n] receive_reset_fst [OF acc, of sid code] acc h(1)
    by (simp add: c1_def c2_def prod_eq_iff)
  have t: "s_id ?t = s_id ?s" "s_canSend ?t = s_canSend ?s" "s_canRecv ?t = s_canRecv ?s" "send_half ?t = send_half ?s"
    "recv_half ?t = (recv_half ?s)\<lparr>h_ended := True\<rparr>"
    using h(1) by (simp_all add: reset_obj_def send_half_def recv_half_def)
  have p: "p_recv (view c) (s_id ?s) = recv_half ?s" using view_obj(2) [OF ok(1) i] .
  have v1: "view c1 = (view c)\<lparr>p_recv := (p_recv (view c))(s_id ?s := (p_recv (view c) (s_id ?s))\<lparr>h_ended := True\<rparr>)\<rparr>"
    unfolding c1_def p using view_recv_update [OF ok(1) i(1) t(1,2,4), of 0] i(2) t(1,3,5) by simp
  have "ep_take (view c) (ResetStream (s_id ?s) code' n) (view c1)" unfolding v1
    by (rule t_reset) (use assms(4,5) in \<open>simp_all only: p not_False_eq_True\<close>)
  moreover have "length (unread ?s) < 2 ^ 62" using cnt(1,2,4) by linarith
  then have k: "unat ?k = length (unread ?s)" by (simp add: unat_of_nat_u64 unread_def)
  have "consumes ?k c1" using cnt k by (simp add: consumes_def c1_def recv_update_def)
  then have "ep_silent (view c1) (view c2)" using consume_view by (simp add: c2_def)
  moreover have "c_in c2 = c_in c" by (simp add: c2_def c1_def recv_update_def consumeLocked_eq)
  then have "ep_silent (view c2) (view (completeLocked i c2))" using table_imax [OF ok(1)] complete_view by simp
  ultimately show ?thesis using that [OF r] by (meson rtranclp_trans)
qed

text \<open>The frames that refer to a stream, with the stream found or already done.\<close>

lemma takesI: "(\<lambda>e e'. ep_pre e f e')\<^sup>*\<^sup>* e e1 \<Longrightarrow> ep_take e1 f e2 \<Longrightarrow> ep_silent e2 e' \<Longrightarrow> takes f e e'"
  by (auto simp: takes_def)

lemma takes_now: "ep_take e f e' \<Longrightarrow> takes f e e'"
  using takesI [of f e e e' e'] by blast

lemma streamLocked_roles:
  assumes "conn_ok c" "c_ready c" "c_closeErr c = None" "streamLocked j recv c = (res, c1)"
  shows "can_recv (view c1) j = can_recv (view c) j" "can_send (view c1) j = can_send (view c) j"
  using streamLocked_table(5) [OF _ assms(2-4)] assms(1) by (simp_all add: conn_ok_def initiatedLocally_def)

lemma received_stream:
  assumes "conn_ok c" "recv_bounds c" "c_closeErr c = None" "c_ready c" "frame_id f = Some j" "can_recv (view c) j" "reaches (view c) j"
    "\<not> h_ended (p_recv (view c) j)"
  obtains c1 p where "streamLocked j True c = (Inr (Some p), c1)" "(\<lambda>e e'. ep_pre e f e')\<^sup>*\<^sup>* (view c) (view c1)" "conn_ok c1"
    "recv_bounds c1" "c_closeErr c1 = None" "receiver p c1" "s_id (obj c1 p) = j" "recv_half (obj c1 p) = p_recv (view c) j"
proof -
  obtain c1 where c1: "streamLocked j True c = (Inr (c_streams c1 j), c1)" "(\<lambda>e e'. ep_pre e f e')\<^sup>*\<^sup>* (view c) (view c1)" "conn_ok c1"
    "recv_bounds c1" "c_ready c1" "c_closeErr c1 = None" "known (view c1) j"
    by (rule streamLocked_view [OF assms(1,2,4,3,5,7), of True]) (use assms(6) in simp_all)
  obtain p where p: "p < length (c_objs c1)" "s_id (obj c1 p) = j" "c_streams c1 j = (if s_done (obj c1 p) then None else Some p)"
    by (rule stream_found [OF c1(3,6,7)])
  have t: "table_ok c1" "all_ended_ok c1" using c1(3) by (simp_all add: conn_ok_def)
  have "s_canRecv (obj c1 p)"
    using table_roles(2) [OF t(1) p(1)] streamLocked_roles(1) [OF assms(1,4,3) c1(1)] assms(6) p(2) by simp
  then have r: "receiver p c1" using p(1) by (simp add: receiver_def)
  have h: "recv_half (obj c1 p) = p_recv (view c) j"
    using view_obj(2) [OF t(1) p(1)] r pre_keeps [OF c1(2)] p(2) by (simp add: receiver_def)
  have "\<not> h_ended (recv_half (obj c1 p))" unfolding h by (rule assms(8))
  then have "\<not> s_done (obj c1 p)" using ended_obj [OF t(2) p(1)] r by (auto simp: ended_ok_def recv_half_def receiver_def)
  then show ?thesis using that [OF _ c1(2-4,6) r p(2) h] c1(1) p(3) by simp
qed

lemma handleStream_view:
  assumes "conn_ok c" "recv_bounds c" "c_closeErr c = None" "accepts (view c) (Stream j off d fin)" "length d < 2 ^ 62"
  shows "\<exists>c'. handleStreamLocked grow j off d fin c = (None, c') \<and> takes (Stream j off d fin) (view c) (view c') \<and> conn_ok c'"
proof -
  let ?f = "Stream j off d fin"
  have a: "p_ready (view c)" "can_recv (view c) j" "reaches (view c) j" "\<not> h_ended (p_recv (view c) j)" "h_off (p_recv (view c) j) = unat off"
    "unat off + length d \<le> h_max (p_recv (view c) j)" "p_received (view c) + length d \<le> p_recvMax (view c)"
    using assms(4) by (simp_all del: view_fields view_roles)
  obtain c1 p where c1: "streamLocked j True c = (Inr (Some p), c1)" "(\<lambda>e e'. ep_pre e ?f e')\<^sup>*\<^sup>* (view c) (view c1)" "conn_ok c1"
    "recv_bounds c1" "c_closeErr c1 = None" "receiver p c1" "s_id (obj c1 p) = j" "recv_half (obj c1 p) = p_recv (view c) j"
    by (rule received_stream [OF assms(1-3) _ _ a(2-4), of ?f]) (use a(1) in simp_all)
  obtain c' e where c': "receive_data grow p j off d fin c1 = (None, c')" "ep_take (view c1) (Stream (s_id (obj c1 p)) off d fin) e" "ep_silent e (view c')"
    by (rule receive_data_view [OF c1(3,4,6) assms(5), of off grow j fin])
      (use a pre_keeps [OF c1(2)] in \<open>simp_all only: c1(8) not_False_eq_True\<close>)
  have "conn_op grow c1 c'" using op_data [OF c1(5,6) assms(5), of grow j off fin] c'(1) by simp
  then have "conn_ok c'" using conn_op_ok c1(3,4) by blast
  then show ?thesis using c1(1) c'(1) takesI [OF c1(2) c'(2) [unfolded c1(7)] c'(3)] by (simp add: handleStreamLocked_def)
qed

lemma handleResetStream_view:
  assumes "conn_ok c" "recv_bounds c" "c_closeErr c = None" "accepts (view c) (ResetStream j code n)"
  shows "\<exists>c'. handleResetStreamLocked j code n c = (None, c') \<and> takes (ResetStream j code n) (view c) (view c') \<and> conn_ok c'"
proof -
  let ?f = "ResetStream j code n"
  have a: "p_ready (view c)" "can_recv (view c) j" "reaches (view c) j" "\<not> h_ended (p_recv (view c) j)" "h_off (p_recv (view c) j) = unat n"
    using assms(4) by (simp_all del: view_fields view_roles)
  obtain c1 p where c1: "streamLocked j True c = (Inr (Some p), c1)" "(\<lambda>e e'. ep_pre e ?f e')\<^sup>*\<^sup>* (view c) (view c1)" "conn_ok c1"
    "recv_bounds c1" "c_closeErr c1 = None" "receiver p c1" "s_id (obj c1 p) = j" "recv_half (obj c1 p) = p_recv (view c) j"
    by (rule received_stream [OF assms(1-3) _ _ a(2-4), of ?f]) (use a(1) in simp_all)
  obtain c' e where c': "receive_reset p j code n c1 = (None, c')" "ep_take (view c1) (ResetStream (s_id (obj c1 p)) code n) e" "ep_silent e (view c')"
    by (rule receive_reset_view [OF c1(3,4,6), of n j code code]) (use a in \<open>simp_all only: c1(8) not_False_eq_True\<close>)
  have "conn_op (\<lambda>k n. n) c1 c'" using op_reset [OF c1(5,6), of _ j code n] c'(1) by simp
  then have "conn_ok c'" using conn_op_ok c1(3,4) by blast
  then show ?thesis using c1(1) c'(1) takesI [OF c1(2) c'(2) [unfolded c1(7)] c'(3)] by (simp add: handleResetStreamLocked_def)
qed

text \<open>Frames about data that the endpoint sends; the stream may be done already.\<close>

lemma sent_stream:
  assumes "conn_ok c" "recv_bounds c" "c_closeErr c = None" "c_ready c" "frame_id f = Some j" "can_send (view c) j" "reaches (view c) j"
  obtains c1 res where "streamLocked j False c = (Inr res, c1)" "(\<lambda>e e'. ep_pre e f e')\<^sup>*\<^sup>* (view c) (view c1)" "conn_ok c1"
    "recv_bounds c1" "c_closeErr c1 = None" "\<And>p. res = Some p \<Longrightarrow> sender p c1 \<and> s_id (obj c1 p) = j"
proof -
  obtain c1 where c1: "streamLocked j False c = (Inr (c_streams c1 j), c1)" "(\<lambda>e e'. ep_pre e f e')\<^sup>*\<^sup>* (view c) (view c1)" "conn_ok c1"
    "recv_bounds c1" "c_ready c1" "c_closeErr c1 = None" "known (view c1) j"
    by (rule streamLocked_view [OF assms(1,2,4,3,5,7), of False]) (use assms(6) in simp_all)
  have "sender p c1 \<and> s_id (obj c1 p) = j" if "c_streams c1 j = Some p" for p
    using streamLocked_table(6) [OF _ assms(4,3) c1(1), of p] that assms(1) by (simp add: conn_ok_def sender_def)
  then show ?thesis using that [OF c1(1-4,6)] by blast
qed

lemma handle_StopSending_view:
  assumes "conn_ok c" "recv_bounds c" "c_closeErr c = None" "accepts (view c) (StopSending j code)"
  shows "\<exists>c'. handle_StopSending j code c = (None, c') \<and> takes (StopSending j code) (view c) (view c') \<and> conn_ok c'"
proof -
  let ?f = "StopSending j code"
  obtain c1 res where c1: "streamLocked j False c = (Inr res, c1)" "(\<lambda>e e'. ep_pre e ?f e')\<^sup>*\<^sup>* (view c) (view c1)" "conn_ok c1"
    "recv_bounds c1" "c_closeErr c1 = None" "\<And>p. res = Some p \<Longrightarrow> sender p c1 \<and> s_id (obj c1 p) = j"
    by (rule sent_stream [OF assms(1-3), of ?f j]) (use assms(4) in \<open>simp_all del: view_roles\<close>)
  define c' where "c' = (case res of None \<Rightarrow> c1 | Some p \<Rightarrow> stopSendingLocked p code c1)"
  have "handle_StopSending j code c = (None, c')" using c1(1) by (simp add: handle_StopSending_def c'_def split: option.split)
  moreover have "ep_silent (view c1) (view c') \<and> conn_ok c'"
  proof (cases res)
    case (Some p)
    then have s: "sender p c1" using c1(6) by blast
    have "table_ok c1" using c1(3) by (simp add: conn_ok_def)
    then show ?thesis using resetSend_view [OF _ s] conn_op_ok [OF op_stop [where grow = "\<lambda>k n. n", OF c1(5) s] c1(3,4)] Some
      by (simp add: c'_def stopSendingLocked_def)
  qed (use c1(3) in \<open>simp add: c'_def\<close>)
  ultimately show ?thesis using takesI [OF c1(2) t_stop] by blast
qed

lemma handle_MaxStreamData_view:
  assumes "conn_ok c" "recv_bounds c" "c_closeErr c = None" "accepts (view c) (MaxStreamData j m)"
  shows "\<exists>c'. handle_MaxStreamData j m c = (None, c') \<and> takes (MaxStreamData j m) (view c) (view c') \<and> conn_ok c'"
proof -
  let ?f = "MaxStreamData j m"
  obtain c1 res where c1: "streamLocked j False c = (Inr res, c1)" "(\<lambda>e e'. ep_pre e ?f e')\<^sup>*\<^sup>* (view c) (view c1)" "conn_ok c1"
    "recv_bounds c1" "c_closeErr c1 = None" "\<And>p. res = Some p \<Longrightarrow> sender p c1 \<and> s_id (obj c1 p) = j"
    by (rule sent_stream [OF assms(1-3), of ?f j]) (use assms(4) in \<open>simp_all del: view_roles\<close>)
  show ?thesis
  proof (cases "\<exists>p. res = Some p \<and> m > s_sendMax (obj c1 p)")
    case False
    then have "handle_MaxStreamData j m c = (None, c1)" using c1(1) by (auto simp: handle_MaxStreamData_def split: option.split)
    then show ?thesis using takesI [OF c1(2) t_maxStreamData_ended] c1(3) by blast
  next
    case True
    then obtain p where p: "res = Some p" "m > s_sendMax (obj c1 p)" by blast
    then have s: "sender p c1" "s_id (obj c1 p) = j" using c1(6) by blast+
    then have i: "p < length (c_objs c1)" "s_canSend (obj c1 p)" by (simp_all add: sender_def)
    have t: "table_ok c1" using c1(3) by (simp add: conn_ok_def)
    let ?t = "(obj c1 p)\<lparr>s_sendMax := m\<rparr>"
    define c' where "c' = send_update p ?t c1"
    have e: "write_broadcast p (upd_obj p (\<lambda>s. s\<lparr>s_sendMax := m\<rparr>) c1) = c'" unfolding c'_def by (rule max_stream_data_eq [OF i(1)])
    then have "handle_MaxStreamData j m c = (None, c')" using c1(1) p by (simp add: handle_MaxStreamData_def)
    moreover have "conn_ok c'" using conn_op_ok [OF op_max_stream_data [where grow = "\<lambda>k n. n", OF c1(5) s(1) p(2)] c1(3,4)] by (simp add: e)
    moreover have ps: "p_send (view c1) j = send_half (obj c1 p)" using view_obj(1) [OF t i] s(2) by simp
    have "send_half ?t = (send_half (obj c1 p))\<lparr>h_max := max (h_max (send_half (obj c1 p))) (unat m)\<rparr>"
      using p(2) by (simp add: send_half_def word_less_nat_alt max_def)
    moreover have "view c' = (view c1)\<lparr>p_send := (p_send (view c1))(s_id ?t := send_half ?t)\<rparr>"
      unfolding c'_def by (rule view_send_update [OF t i(1)]) (use i(2) in \<open>simp_all add: recv_half_def\<close>)
    ultimately have v: "view c' = (view c1)\<lparr>p_send := (p_send (view c1))(j := (p_send (view c1) j)\<lparr>h_max := max (h_max (p_send (view c1) j)) (unat m)\<rparr>)\<rparr>"
      unfolding ps using s(2) by simp
    have "ep_take (view c1) ?f (view c')" unfolding v
      by (rule t_maxStreamData) (use table_known [OF t i(1)] table_roles(1) [OF t i(1)] i(2) s(2) in simp_all)
    from takesI [OF c1(2) this rtranclp.rtrancl_refl]
    show ?thesis using \<open>handle_MaxStreamData j m c = (None, c')\<close> \<open>conn_ok c'\<close> by blast
  qed
qed

text \<open>Frames about the connection.\<close>

lemma view_MaxData: "view (handle_MaxData m c) = (view c)\<lparr>p_sendMax := max (p_sendMax (view c)) (unat m)\<rparr>"
  by (simp add: handle_MaxData_def view_def send_broadcast_def signal_broadcast_eq word_less_nat_alt max_def)

lemma view_MaxStreams:
  "view (handle_MaxStreams uni m c) = (view c)\<lparr>p_omax := (p_omax (view c))((if uni then dirUni else dirBidi) :=
     max (p_omax (view c) (if uni then dirUni else dirBidi)) (unat m))\<rparr>"
proof -
  let ?d = "if uni then dirUni else dirBidi"
  have "o_next (c_out (handle_MaxStreams uni m c) d) = o_next (c_out c d)" for d
    by (simp add: handle_MaxStreams_def Let_def out_broadcast_def signal_broadcast_eq upd_out_def)
  moreover have "unat (o_max (c_out (handle_MaxStreams uni m c) d)) = (if d = ?d then max (unat (o_max (c_out c d))) (unat m) else unat (o_max (c_out c d)))" for d
    by (simp add: handle_MaxStreams_def Let_def out_broadcast_def signal_broadcast_eq upd_out_def word_less_nat_alt max_def)
  then have "(\<lambda>d. unat (o_max (c_out (handle_MaxStreams uni m c) d))) = (p_omax (view c))(?d := max (p_omax (view c) ?d) (unat m))"
    by (simp add: fun_eq_iff)
  moreover have "view (handle_MaxStreams uni m c) = (view c)\<lparr>p_onext := \<lambda>d. unat (o_next (c_out (handle_MaxStreams uni m c) d)),
      p_omax := \<lambda>d. unat (o_max (c_out (handle_MaxStreams uni m c) d))\<rparr>"
    by (simp add: view_def handle_MaxStreams_def Let_def out_broadcast_def signal_broadcast_eq upd_out_def)
  moreover have "(view c)\<lparr>p_onext := \<lambda>d. unat (o_next (c_out c d))\<rparr> = view c" by (simp add: view_def)
  ultimately show ?thesis by simp
qed

lemma view_Parameters:
  "view (handleParametersLocked p c) = (view c)\<lparr>p_ready := True, p_peer := p, p_sendMax := unat (InitialMaxData p),
     p_omax := (\<lambda>d. unat (case d of dirBidi \<Rightarrow> InitialMaxStreamsBidi p | dirUni \<Rightarrow> InitialMaxStreamsUni p))\<rparr>"
  by (simp add: handleParametersLocked_eq view_def)

lemma handlePing_view:
  assumes "accepts (view c) (Ping response n)"
  shows "fst (handlePingLocked now response n c) = None" "ep_take (view c) (Ping response n) (view (snd (handlePingLocked now response n c)))"
proof -
  have e: "fst (handlePingLocked now response n c) = None \<and>
      view (snd (handlePingLocked now response n c)) = (if response then view c else (view c)\<lparr>p_pinged := Some (unat n), p_pong := Some (unat n)\<rparr>)"
  proof (cases response)
    case True
    then show ?thesis using assms by (simp add: handlePingLocked_def word_le_nat_alt not_le) (simp add: view_def)
  next
    case False
    then have "\<not> (c_peerPinged c \<and> n \<le> c_peerPingLast c)" using assms by (auto simp: word_le_nat_alt not_le)
    with False show ?thesis unfolding handlePingLocked_def by (simp add: wakeWriter_def) (simp add: view_def)
  qed
  then show "fst (handlePingLocked now response n c) = None" by simp
  show "ep_take (view c) (Ping response n) (view (snd (handlePingLocked now response n c)))"
    using e t_request [of "view c" n] t_response [of "view c" n] by (cases response) simp_all
qed

text \<open>The error that a frame stands for: the one that closes the connection.\<close>

fun close_error :: "frame \<Rightarrow> go_error option" where
  "close_error (ConnectionClose app code ft reason) =
     Some (if app then ApplicationError True code reason else TransportError True code ft reason)"
| "close_error _ = None"

lemma handle_view:
  assumes "conn_ok c" "recv_bounds c" "c_closeErr c = None" "accepts (view c) f" "frame_allowed (Frame f)"
  shows "\<exists>c'. handleFrameLocked grow now (Frame f) c = (close_error f, c') \<and> takes f (view c) (view c') \<and> conn_ok c'"
proof (cases "is_params f")
  case True
  then obtain p where f: "f = TransportParameters p" by (cases f) auto
  have r: "\<not> c_ready c" using assms(4) f by simp
  have "handleFrameLocked grow now (Frame f) c = (None, handleParametersLocked p c)" using r by (simp add: f handleFrameLocked_def)
  moreover have "conn_ok (handleParametersLocked p c)"
    using conn_op_ok [OF op_params [where grow = "\<lambda>k n. n", OF assms(3) r] assms(1,2)] assms(5) f by blast
  moreover have "ep_take (view c) f (view (handleParametersLocked p c))"
    unfolding f view_Parameters by (rule t_params) (use r in simp)
  ultimately show ?thesis using takes_now f by auto
next
  case False
  have r: "c_ready c" using assms(4) False by (cases f) simp_all
  have h: "handleFrameLocked grow now (Frame f) c = handle_switch grow now (Frame f) c"
    using r False by (cases f) (simp_all add: handleFrameLocked_def)
  have op: "conn_ok c'" if "conn_op (\<lambda>k n. n) c c'" for c' using conn_op_ok [OF that assms(1,2)] .
  show ?thesis
  proof (cases f)
    case (Stream j off d fin)
    then show ?thesis using handleStream_view [OF assms(1-3), of j off d fin grow] assms(4,5) unfolding h by simp
  next
    case (ResetStream j code n)
    then show ?thesis using handleResetStream_view [OF assms(1-3)] assms(4) unfolding h by simp
  next
    case (StopSending j code)
    then show ?thesis using handle_StopSending_view [OF assms(1-3)] assms(4) unfolding h by simp
  next
    case (MaxStreamData j m)
    then show ?thesis using handle_MaxStreamData_view [OF assms(1-3)] assms(4) unfolding h by simp
  next
    case (MaxData m)
    have "ep_take (view c) f (view (handle_MaxData m c))" unfolding MaxData view_MaxData by (rule t_maxData) (use r in simp)
    then show ?thesis using takes_now op [OF op_max_data [OF assms(3) r]] h unfolding MaxData by auto
  next
    case (MaxStreams uni m)
    have "ep_take (view c) f (view (handle_MaxStreams uni m c))" unfolding MaxStreams view_MaxStreams by (rule t_maxStreams) simp
    then show ?thesis using takes_now op [OF op_max_streams [OF assms(3) r]] assms(5) h unfolding MaxStreams by auto
  next
    case (Ping response n)
    note p = handlePing_view [OF assms(4) [unfolded Ping], of now]
    show ?thesis using takes_now [OF p(2)] p(1) op [OF op_ping [OF assms(3), of _ now response n]]
h
      unfolding Ping by (simp add: prod_eq_iff)
  next
    case (Datagram d)
    have "1 + length d \<le> unat (cf_MaxDatagramFrameSize (c_config c))" using assms(4) Datagram by simp
    moreover have "unat (cf_MaxDatagramFrameSize (c_config c)) < 2 ^ 64" using unat_lt_u64 by blast
    ultimately have "unat (of_nat (1 + length d) :: u64) \<le> unat (cf_MaxDatagramFrameSize (c_config c))"
      by (subst unat_of_nat_u64) (simp_all del: of_nat_add of_nat_Suc)
    then have "fst (handleDatagramLocked d c) = None"
      unfolding handleDatagramLocked_def by (simp add: word_less_nat_alt not_less del: of_nat_add of_nat_Suc)
    then show ?thesis using takes_now [OF t_datagram, of d "view c"] op [OF op_datagram [OF assms(3), of _ d]] others_view(11) [of d c]
h
      unfolding Datagram by (simp add: prod_eq_iff)
  next
    case (ConnectionClose app code ft reason)
    then show ?thesis using takes_now [OF t_close] assms(1) unfolding h by simp
  qed (use False in simp)
qed

end
