(* ===== verification/Peer_Pair.thy ===== *)
theory Peer_Pair
  imports Peer_Refine
begin

text \<open>
  Two connections with a transport between them that keeps frames in order, as both transports of the
  package do. What the application and the goroutines of one end do is \<open>act\<close>, with the frames that it
  puts on the transport; the other end handles them one by one. No frame is refused, and every byte
  arrives once and in order.
\<close>

section \<open>One end\<close>

text \<open>The critical sections of an end, with the frames that are written before the write lock is released:
  \<open>act_write\<close> is \<open>writeChunk\<close>, \<open>act_finish\<close> is \<open>closeSend\<close>, \<open>act_control\<close> is a round of the writer of control frames,
  \<open>act_close\<close> is \<open>closeGracefully\<close>. Frames are as the other end reads them.\<close>

inductive act :: "codec \<Rightarrow> Conn \<Rightarrow> frame list \<Rightarrow> Conn \<Rightarrow> bool" for q where
  act_peek: "receiver i c \<Longrightarrow> act q c [] (snd (tryPeek i k c))"
| act_cancelRead: "receiver i c \<Longrightarrow> act q c [] (cancelRead i code c)"
| act_readDeadline: "i < length (c_objs c) \<Longrightarrow> act q c [] (setReadDeadline i t c)"
| act_writeDeadline: "i < length (c_objs c) \<Longrightarrow> act q c [] (setWriteDeadline i t c)"
| act_priority: "i < length (c_objs c) \<Longrightarrow> act q c [] (setPriority i urg inc c)"
| act_trySend: "sender i c \<Longrightarrow> act q c [] (snd (trySend now i c))"
| act_write: "sender i c \<Longrightarrow> reserve i (length p) c = (Inr (off, n), c') \<Longrightarrow>
    act q c (if n = 0 then [] else [Stream (s_id (obj c i)) off (take n p) False]) c'"
| act_finish: "sender i c \<Longrightarrow> finish i c = (Inr (Some n), c') \<Longrightarrow> act q c [Stream (s_id (obj c i)) n [] True] c'"
| act_cancelWrite: "sender i c \<Longrightarrow> act q c [] (cancelWrite i code c)"
| act_open: "act q c [] (snd (tryOpen d c))"
| act_accept: "act q c [] (snd (tryAccept d c))"
| act_sendDatagram: "length p < 2 ^ 62 \<Longrightarrow> datagramLimit c \<noteq> 0 \<Longrightarrow> of_nat (Datagram_Len q p) \<le> datagramLimit c \<Longrightarrow>
    act q c [Datagram p] c"
| act_receiveDatagram: "c_datagrams c = d # ds \<Longrightarrow> act q c [] (c\<lparr>c_datagrams := ds\<rparr>)"
| act_requestPing: "act q c [] (snd (requestPing now c))"
| act_wake: "act q c [] (c\<lparr>c_controlWake := False\<rparr>)"
| act_control: "act q c (fst (takeControl now c)) (snd (takeControl now c))"
| act_end: "act q c [] (snd (terminate err c))"
| act_close: "terminate err c = (True, c') \<Longrightarrow> act q c [frame_received (ConnectionClose app code ft reason)] c'"
| act_writeRecord: "act q c [] (snd (writeRecordLocked tw now buf c))"
| act_transport: "act q c [] (c\<lparr>c_tr := tr\<rparr>)"
| act_received: "act q c [] (touch now (c\<lparr>c_bytesReceived := nb, c_recordsReceived := nr\<rparr>))"

lemma conn_ok_cong:
  assumes "conn_ok c" "table_of c' = table_of c" "c_objs c' = c_objs c" "c_config c' = c_config c" "c_sendMax c' = c_sendMax c"
    "c_sent c' = c_sent c" "c_recvMax c' = c_recvMax c" "c_received c' = c_received c" "c_consumed c' = c_consumed c"
  shows "conn_ok c'"
  using assms by (simp add: conn_ok_def table_ok_def recv_ok_def send_ok_def all_ended_ok_def)

lemma act_conn_ok: "act q c fs c' \<Longrightarrow> conn_ok c \<Longrightarrow> recv_bounds c \<Longrightarrow> conn_ok c'"
proof (induction rule: act.induct)
  case (act_write i c p off n c')
  then show ?case using conn_op_ok [OF op_reserve [where grow = "\<lambda>k n. n"], of i c "length p"] by simp
next
  case (act_finish i c n c')
  then show ?case using conn_op_ok [OF op_finish [where grow = "\<lambda>k n. n"], of i c] by simp
next
  case (act_cancelWrite i c code)
  then show ?case using conn_op_ok [OF op_stop [where grow = "\<lambda>k n. n"]] by (auto simp: cancelWrite_def split: option.split)
next
  case (act_wake c)
  show ?case by (rule conn_ok_cong [OF act_wake(1)]) (simp_all add: table_of_def)
next
  case (act_control c now)
  show ?case by (rule conn_ok_cong [OF act_control(1) others_refine(10)]) (simp_all add: takeControl_def upd_in_def Let_def)
next
  case (act_close err c c' app code ft reason)
  then show ?case using conn_op_ok [OF op_terminate [where grow = "\<lambda>k n. n"], of c err] by simp
qed (blast intro: conn_op_ok [where grow = "\<lambda>k n. n"] conn_op.intros)+

lemma act_view:
  assumes "quicvarint q" "act q c fs c'" "conn_ok c" "recv_bounds c" "\<forall>f \<in> set fs. frame_valid q f"
  shows "ep_run (view c) fs (view c')"
  using assms(2-5)
proof (induction rule: act.induct)
  case (act_cancelRead i c code)
  then show ?case by (intro ep_run_silent cancelRead_view) (simp_all add: conn_ok_def)
next
  case (act_write i c p off n c')
  then show ?case using reserve_view [of c i p off n c'] by (auto intro: run_nil ep_run_single)
next
  case (act_finish i c n c')
  then show ?case using finish_view by blast
next
  case (act_cancelWrite i c code)
  then show ?case using ep_run_silent [OF resetSend_view [of c i code False]] run_nil
    by (auto simp: cancelWrite_def conn_ok_def split: option.split)
next
  case (act_open c d)
  then show ?case by (intro ep_run_silent tryOpen_view) (simp add: conn_ok_def)
next
  case (act_accept c d)
  then show ?case by (intro ep_run_silent tryAccept_view) (simp add: conn_ok_def)
next
  case (act_sendDatagram p c)
  then show ?case using ep_run_single datagram_view [OF assms(1)] by blast
next
  case (act_wake c)
  have "view (c\<lparr>c_controlWake := False\<rparr>) = view c" by (simp add: view_def)
  then show ?case using run_nil by simp
next
  case (act_control c now)
  have "unat (c_nextPing c) < 2 ^ 62" if "c_pingPending c" "c_closeErr c = None"
  proof -
    have "Ping False (c_nextPing c) \<in> set (fst (takeControl now c))" using that by (simp add: takeControl_def take_flag_def Let_def)
    then have "c_nextPing c \<le> vmax q" using act_control(3) by fastforce
    then show ?thesis using quicvarint.vmax_nat [OF assms(1)] by (simp add: word_le_nat_alt)
  qed
  then show ?case using takeControl_view [of c now] run_nil by (cases "c_closeErr c = None") (auto simp: takeControl_def)
next
  case (act_close err c c' app code ft reason)
  then have "view c' = view c" using terminate_view [of err c] by simp
  then show ?case using ep_run_single [OF m_close] by simp
qed (use run_nil others_view terminate_view in simp_all)

section \<open>Two ends\<close>

text \<open>The server is the end \<open>True\<close>. \<open>pr_flight x\<close> are the frames that the end \<open>x\<close> has written and the other has not
  read. \<open>pr_written x i\<close> and \<open>pr_read x i\<close> are the bytes that the application has written to the stream \<open>i\<close> at
  the end \<open>x\<close>, and those that it has read there.\<close>

record pair =
  pr_conn :: "bool \<Rightarrow> Conn"
  pr_flight :: "bool \<Rightarrow> frame list"
  pr_written :: "bool \<Rightarrow> StreamID \<Rightarrow> bytes"
  pr_read :: "bool \<Rightarrow> StreamID \<Rightarrow> bytes"

fun frame_bytes :: "StreamID \<Rightarrow> frame \<Rightarrow> bytes" where
  "frame_bytes i (Stream j off d fin) = (if j = i then d else [])"
| "frame_bytes i _ = []"

definition bytes_of :: "StreamID \<Rightarrow> frame list \<Rightarrow> bytes" where
  "bytes_of i fs = concat (map (frame_bytes i) fs)"

fun copied :: "try_read \<Rightarrow> bytes" where
  "copied (Copied d) = d"
| "copied _ = []"

inductive pair_step :: "codec \<Rightarrow> (nat \<Rightarrow> nat \<Rightarrow> nat) \<Rightarrow> pair \<Rightarrow> pair \<Rightarrow> bool" for q grow where
  pair_act: "recv_bounds (pr_conn s x) \<Longrightarrow> act q (pr_conn s x) fs c' \<Longrightarrow> \<forall>f \<in> set fs. frame_valid q f \<Longrightarrow>
    pair_step q grow s (s\<lparr>pr_conn := (pr_conn s)(x := c'), pr_flight := (pr_flight s)(x := pr_flight s x @ fs),
      pr_written := (pr_written s)(x := \<lambda>i. pr_written s x i @ bytes_of i fs)\<rparr>)"
| pair_read: "recv_bounds (pr_conn s x) \<Longrightarrow> receiver i (pr_conn s x) \<Longrightarrow> tryRead i k (pr_conn s x) = (r, c') \<Longrightarrow>
    s_id (obj (pr_conn s x) i) = j \<Longrightarrow>
    pair_step q grow s (s\<lparr>pr_conn := (pr_conn s)(x := c'),
      pr_read := (pr_read s)(x := (pr_read s x)(j := pr_read s x j @ copied r))\<rparr>)"
| pair_take: "recv_bounds (pr_conn s x) \<Longrightarrow> c_closeErr (pr_conn s x) = None \<Longrightarrow> pr_flight s (\<not> x) = f # fs \<Longrightarrow>
    handleFrameLocked grow now (Frame f) (pr_conn s x) = (None, c') \<Longrightarrow>
    pair_step q grow s (s\<lparr>pr_conn := (pr_conn s)(x := c'), pr_flight := (pr_flight s)(\<not> x := fs)\<rparr>)"
| pair_fail: "recv_bounds (pr_conn s x) \<Longrightarrow> c_closeErr (pr_conn s x) = None \<Longrightarrow> pr_flight s (\<not> x) = f # fs \<Longrightarrow>
    handleFrameLocked grow now (Frame f) (pr_conn s x) = (Some e, c') \<Longrightarrow>
    pair_step q grow s (s\<lparr>pr_conn := (pr_conn s)(x := snd (terminate e c')), pr_flight := (pr_flight s)(\<not> x := fs)\<rparr>)"

text \<open>Each end starts with its parameters on the transport.\<close>

definition pair_start :: "codec \<Rightarrow> pair \<Rightarrow> bool" where
  "pair_start q s \<longleftrightarrow> (\<exists>config now. (\<forall>x cf. config x = Some cf \<longrightarrow> config_int64 cf) \<and>
     s = \<lparr>pr_conn = (\<lambda>x. newConn (normalized q (config x)) x (now x)),
       pr_flight = (\<lambda>x. [frame_received (TransportParameters (localParameters (normalized q (config x))))]),
       pr_written = (\<lambda>x i. []), pr_read = (\<lambda>x i. [])\<rparr>)"

section \<open>No frame is refused\<close>

definition pair_inv :: "pair \<Rightarrow> bool" where
  "pair_inv s \<longleftrightarrow> (\<forall>x. conn_ok (pr_conn s x) \<and> (\<forall>f \<in> set (pr_flight s x). frame_allowed (Frame f))) \<and>
     paired (view (pr_conn s True)) (view (pr_conn s False)) (pr_flight s True) (pr_flight s False)"

lemma pair_inv_end:
  assumes "pair_inv s"
  shows "paired (view (pr_conn s x)) (view (pr_conn s (\<not> x))) (pr_flight s x) (pr_flight s (\<not> x))"
  using assms by (cases x) (simp_all add: pair_inv_def paired_sym)

lemma pair_invI:
  assumes "\<And>y. conn_ok (pr_conn s y)" "\<And>y f. f \<in> set (pr_flight s y) \<Longrightarrow> frame_allowed (Frame f)"
    "paired (view (pr_conn s x)) (view (pr_conn s (\<not> x))) (pr_flight s x) (pr_flight s (\<not> x))"
  shows "pair_inv s"
  using assms paired_sym by (cases x) (auto simp: pair_inv_def)

lemma paired_run: "ep_run A fs A' \<Longrightarrow> paired A B AB BA \<Longrightarrow> paired A' B (AB @ fs) BA"
  by (induction arbitrary: AB rule: ep_run.induct) (auto dest: paired_step simp flip: append_assoc)

lemma paired_takes:
  assumes "takes f B B'" "paired A B (f # AB) BA"
  shows "paired A B' AB BA"
proof -
  obtain e1 e2 where e: "(\<lambda>e e'. ep_pre e f e')\<^sup>*\<^sup>* B e1" "ep_take e1 f e2" "ep_silent e2 B'"
    using assms(1) by (auto simp: takes_def)
  from e(1) have "paired A e1 (f # AB) BA" using assms(2) by (induction rule: rtranclp_induct) (auto intro: paired_pre)
  from paired_take [OF e(2) this] have "paired e2 A BA AB" by (rule paired_sym)
  from paired_run [OF ep_run_silent [OF e(3)] this] show ?thesis by (simp add: paired_sym)
qed

lemma valid_allowed: "frame_valid q f \<Longrightarrow> \<not> is_params f \<Longrightarrow> frame_allowed (Frame f)"
  by (cases f) (simp_all add: maxStreams_def word_le_nat_alt)

lemma act_no_params: "act q c fs c' \<Longrightarrow> \<forall>f \<in> set (c_control c). is_queued f \<Longrightarrow> f \<in> set fs \<Longrightarrow> \<not> is_params f"
proof (induction rule: act.induct)
  case (act_control c now)
  then show ?case by (cases f) (auto simp: takeControl_def take_flag_def Let_def split: if_splits)
qed (auto split: if_splits)

lemma takes_end:
  assumes "pair_inv s" "recv_bounds (pr_conn s x)" "c_closeErr (pr_conn s x) = None" "pr_flight s (\<not> x) = f # fs"
  shows "\<exists>c'. handleFrameLocked grow now (Frame f) (pr_conn s x) = (close_error f, c') \<and> takes f (view (pr_conn s x)) (view c') \<and> conn_ok c'"
proof (rule handle_view)
  show "conn_ok (pr_conn s x)" "recv_bounds (pr_conn s x)" "c_closeErr (pr_conn s x) = None" using assms(1-3) by (simp_all add: pair_inv_def)
  show "frame_allowed (Frame f)" using assms(1,4) unfolding pair_inv_def by (metis list.set_intros(1))
  show "accepts (view (pr_conn s x)) f"
    using pair_inv_end [OF assms(1), of "\<not> x"] assms(4) linked_accepts by (auto simp: paired_def)
qed

lemma pair_step_inv:
  assumes "quicvarint q" "pair_step q grow s t" "pair_inv s"
  shows "pair_inv t"
  using assms(2)
proof cases
  case (pair_act x fs c')
  note p = pair_inv_end [OF assms(3), of x]
  have c: "conn_ok (pr_conn s y)" "f \<in> set (pr_flight s y) \<Longrightarrow> frame_allowed (Frame f)" for y f
    using assms(3) by (simp_all add: pair_inv_def)
  have "\<forall>f \<in> set (c_control (pr_conn s x)). is_queued f" using p by (simp add: paired_def linked_def ep_ok_def)
  then have "frame_allowed (Frame f)" if "f \<in> set fs" for f
    using act_no_params [OF pair_act(3) _ that] valid_allowed pair_act(4) that by blast
  moreover have "conn_ok c'" using act_conn_ok pair_act(2,3) c(1) by blast
  moreover note paired_run [OF act_view [OF assms(1) pair_act(3) c(1) pair_act(2,4)] p]
  ultimately show ?thesis using c unfolding pair_act(1) by (intro pair_invI [of _ x]) (auto split: if_splits)
next
  case (pair_read x i k r c' j)
  note p = pair_inv_end [OF assms(3), of x]
  have c: "conn_ok (pr_conn s y)" "f \<in> set (pr_flight s y) \<Longrightarrow> frame_allowed (Frame f)" for y f
    using assms(3) by (simp_all add: pair_inv_def)
  have c': "c' = snd (tryRead i k (pr_conn s x))" using pair_read(4) by simp
  have "conn_ok c'" unfolding c' using conn_op_ok [OF op_read [where grow = "\<lambda>k n. n", OF pair_read(3)] c(1) pair_read(2)] .
  moreover have "ep_silent (view (pr_conn s x)) (view c')"
    unfolding c' using c(1) [of x] by (intro tryRead_view pair_read) (simp_all add: conn_ok_def)
  note paired_run [OF ep_run_silent [OF this] p]
  ultimately show ?thesis using c unfolding pair_read(1) by (intro pair_invI [of _ x]) (auto split: if_splits)
next
  case (pair_take x f fs now c')
  note p = pair_inv_end [OF assms(3), of "\<not> x"]
  have c: "conn_ok (pr_conn s y)" "f \<in> set (pr_flight s y) \<Longrightarrow> frame_allowed (Frame f)" for y f
    using assms(3) by (simp_all add: pair_inv_def)
  have "takes f (view (pr_conn s x)) (view c')" "conn_ok c'"
    using takes_end [OF assms(3) pair_take(2-4), of grow now] pair_take(5) by auto
  moreover from paired_takes [OF this(1)] p pair_take(4)
  have "paired (view (pr_conn s (\<not> x))) (view c') fs (pr_flight s x)" by simp
  from paired_sym [OF this] have "paired (view c') (view (pr_conn s (\<not> x))) (pr_flight s x) fs" .
  moreover have "frame_allowed (Frame g)" if "g \<in> set fs" for g using c(2) [of g "\<not> x"] pair_take(4) that by simp
  ultimately show ?thesis using c unfolding pair_take(1) by (intro pair_invI [of _ x]) (auto split: if_splits)
next
  case (pair_fail x f fs now e c')
  note p = pair_inv_end [OF assms(3), of "\<not> x"]
  have c: "conn_ok (pr_conn s y)" "f \<in> set (pr_flight s y) \<Longrightarrow> frame_allowed (Frame f)" for y f
    using assms(3) by (simp_all add: pair_inv_def)
  have t: "takes f (view (pr_conn s x)) (view c')" "conn_ok c'" "close_error f = Some e"
    using takes_end [OF assms(3) pair_fail(2-4), of grow now] pair_fail(5) by auto
  from t(3) obtain app code ft reason where "f = ConnectionClose app code ft reason" by (cases f) auto
  then have "c' = pr_conn s x" using pair_fail(5) by (auto simp: handleFrameLocked_def split: if_splits)
  then have "conn_ok (snd (terminate e c'))" using conn_op_ok [OF op_terminate [where grow = "\<lambda>k n. n"] t(2)] pair_fail(2) by simp
  moreover from paired_takes [OF t(1)] p pair_fail(4)
  have "paired (view (pr_conn s (\<not> x))) (view c') fs (pr_flight s x)" by simp
  from paired_sym [OF this] have "paired (view (snd (terminate e c'))) (view (pr_conn s (\<not> x))) (pr_flight s x) fs"
    by (simp add: terminate_view)
  moreover have "frame_allowed (Frame g)" if "g \<in> set fs" for g using c(2) [of g "\<not> x"] pair_fail(4) that by simp
  ultimately show ?thesis using c unfolding pair_fail(1) by (intro pair_invI [of _ x]) (auto split: if_splits)
qed

lemma params_received_fields:
  "InitialMaxStreamsBidi (params_received (localParameters cf)) = of_int (cf_MaxIncomingStreams cf)"
  "InitialMaxStreamsUni (params_received (localParameters cf)) = of_int (cf_MaxIncomingUniStreams cf)"
  "InitialMaxData (params_received (localParameters cf)) = cf_InitialConnectionReceiveWindow cf"
  "InitialMaxStreamDataUni (params_received (localParameters cf)) = cf_InitialStreamReceiveWindow cf"
  "InitialMaxStreamDataBidiLocal (params_received (localParameters cf)) = cf_InitialStreamReceiveWindow cf"
  "InitialMaxStreamDataBidiRemote (params_received (localParameters cf)) = cf_InitialStreamReceiveWindow cf"
  "MaxDatagramFrameSize (params_received (localParameters cf)) = cf_MaxDatagramFrameSize cf"
  by (simp_all add: params_received_def localParameters_def Let_def)

lemma view_newConn:
  "view (newConn cf x now) = \<lparr>p_server = x, p_params = params_received (localParameters cf),
     p_window = unat (cf_InitialStreamReceiveWindow cf), p_dgram = unat (cf_MaxDatagramFrameSize cf), p_ready = False,
     p_peer = zero_Parameters, p_onext = (\<lambda>d. 0), p_omax = (\<lambda>d. 0), p_inext = (\<lambda>d. 0),
     p_imax = (\<lambda>d. unat (case d of dirBidi \<Rightarrow> of_int (cf_MaxIncomingStreams cf) :: u64 | dirUni \<Rightarrow> of_int (cf_MaxIncomingUniStreams cf))),
     p_sendMax = 0, p_sent = 0, p_recvMax = unat (cf_InitialConnectionReceiveWindow cf), p_received = 0,
     p_send = (\<lambda>i. new_half 0), p_recv = (\<lambda>i. new_half (unat (cf_InitialStreamReceiveWindow cf))), p_control = [],
     p_nextPing = 0, p_pinged = None, p_pong = None\<rparr>"
  by (auto simp: view_def newConn_def new_outgoing_def new_incoming_def send_of_def recv_of_def half_of_def fun_eq_iff split: dir.split)

lemma linked_newConn:
  "linked (view (newConn cf x now)) (view (newConn cf' (\<not> x) now')) [TransportParameters (params_received (localParameters cf))]
     [TransportParameters (params_received (localParameters cf'))]"
  unfolding view_newConn linked_def ep_ok_def handshake_def limits_def names_def flow_def stream_flow_def pings_def datagrams_def
  by (simp add: params_received_fields new_half_def zero_Parameters_def known_def)

lemma pair_start_inv: "pair_start q s \<Longrightarrow> pair_inv s"
proof -
  assume "pair_start q s"
  then obtain config now where s: "s = \<lparr>pr_conn = (\<lambda>x. newConn (normalized q (config x)) x (now x)),
       pr_flight = (\<lambda>x. [frame_received (TransportParameters (localParameters (normalized q (config x))))]),
       pr_written = (\<lambda>x i. []), pr_read = (\<lambda>x i. [])\<rparr>"
    by (auto simp: pair_start_def)
  have u: "unat (of_int k :: u64) \<le> 2 ^ 60" if "0 \<le> k \<and> k \<le> 2 ^ 60" for k
  proof -
    have "unat (of_nat (nat k) :: u64) = nat k" using that by (subst unat_of_nat_u64) auto
    then show ?thesis using that by (simp add: nat_le_iff)
  qed
  have r: "0 \<le> cf_MaxIncomingStreams (normalized q cf) \<and> cf_MaxIncomingStreams (normalized q cf) \<le> 2 ^ 60"
    "0 \<le> cf_MaxIncomingUniStreams (normalized q cf) \<and> cf_MaxIncomingUniStreams (normalized q cf) \<le> 2 ^ 60" for cf
    unfolding normalized_fields(1,2) [OF refl] by (rule streamLimit_range; simp add: config_defaults)+
  show ?thesis unfolding s
    using linked_newConn [of "normalized q (config True)" True "now True" "normalized q (config False)" "now False"]
      linked_newConn [of "normalized q (config False)" False "now False" "normalized q (config True)" "now True"]
    by (auto simp: pair_inv_def paired_def newConn_ok params_received_fields u [OF r(1), simplified] u [OF r(2), simplified])
qed

lemma pair_reachable:
  assumes "quicvarint q" "pair_start q s" "(pair_step q grow)\<^sup>*\<^sup>* s t"
  shows "pair_inv t"
proof -
  have "invariant (pair_start q) (pair_step q grow) pair_inv"
    by unfold_locales (use pair_start_inv pair_step_inv [OF assms(1)] in blast)+
  from invariant.reachable [OF this assms(2,3)] show ?thesis .
qed

end
