(* ===== verification/Peer_Delivery.thy ===== *)
theory Peer_Delivery
  imports Peer_Pair "HOL-Library.Sublist"
begin

text \<open>
  Every byte arrives once and in order. For each stream and direction, the bytes that the application
  has written are those that the other application has read, then those that wait in the receiving
  connection, then those in flight, unless the receiver has discarded the stream.
\<close>

section \<open>What waits in a connection\<close>

text \<open>\<open>None\<close> for a stream that the application has cancelled or the peer has reset.\<close>

definition waiting :: "stream \<Rightarrow> bytes option" where
  "waiting s = (if s_readCancelled s \<or> s_recvReset s then None else Some (unread s))"

definition box :: "stream \<Rightarrow> StreamID \<times> bytes option" where
  "box s = (s_id s, waiting s)"

definition inbox :: "stream list \<Rightarrow> StreamID \<Rightarrow> bytes option" where
  "inbox ss i = (case map_of (map box ss) i of None \<Rightarrow> Some [] | Some b \<Rightarrow> b)"

lemma inbox_same: "map box ss = map box ts \<Longrightarrow> inbox ss = inbox ts"
  by (simp add: inbox_def fun_eq_iff)

lemma inbox_update:
  assumes "distinct (map s_id ss)" "k < length ss" "s_id t = s_id (ss ! k)"
  shows "inbox (ss[k := t]) = (inbox ss)(s_id t := waiting t)"
proof -
  have d: "distinct (map fst (map box ss))" using assms(1) by (simp add: o_def box_def)
  have "fst (map box ss ! k) = s_id t" using assms(2,3) by (simp add: box_def)
  from map_of_update [OF d _ this, of "waiting t"] assms(2) show ?thesis
    by (simp add: inbox_def fun_eq_iff map_update) (simp add: box_def)
qed

lemma inbox_snoc:
  assumes "s_id t \<notin> s_id ` set ss"
  shows "inbox (ss @ [t]) = (inbox ss)(s_id t := waiting t)" "inbox ss (s_id t) = Some []"
proof -
  have n: "s_id t \<notin> fst ` set (map box ss)" using assms by (auto simp: box_def)
  show "inbox (ss @ [t]) = (inbox ss)(s_id t := waiting t)"
    using map_of_snoc [OF n, of "waiting t"] by (simp add: inbox_def box_def [of t] fun_eq_iff)
  have "map_of (map box ss) (s_id t) = None" using n by (simp add: map_of_eq_None_iff)
  then show "inbox ss (s_id t) = Some []" by (simp add: inbox_def)
qed

lemma inbox_obj:
  assumes "distinct (map s_id ss)" "s \<in> set ss"
  shows "inbox ss (s_id s) = waiting s"
proof -
  have "map_of (map box ss) (s_id s) = Some (waiting s)"
    using assms by (intro map_of_is_SomeI) (auto simp: o_def box_def)
  then show ?thesis by (simp add: inbox_def)
qed

lemma box_simps [simp]:
  "box (s\<lparr>s_readSignal := g\<rparr>) = box s" "box (s\<lparr>s_writeSignal := g\<rparr>) = box s" "box (s\<lparr>s_readDeadline := t\<rparr>) = box s"
  "box (s\<lparr>s_writeDeadline := t\<rparr>) = box s" "box (s\<lparr>s_accepted := b\<rparr>) = box s" "box (s\<lparr>s_urgency := u, s_incremental := b\<rparr>) = box s"
  "box (s\<lparr>s_sendOffset := n\<rparr>) = box s" "box (s\<lparr>s_sendMax := n\<rparr>) = box s" "box (finish_obj s) = box s" "box (stop_obj code r s) = box s"
  "box (silent s) = box s"
  by (simp_all add: box_def waiting_def unread_def silent_def)

text \<open>The end of a stream discards nothing that could still be read.\<close>

lemma box_complete: "s_canRecv s \<or> unread s = [] \<Longrightarrow> box (complete_obj s) = box s"
  by (auto simp: box_def waiting_def unread_def) (auto simp: complete_obj_def completes_def recvDone_def split: if_splits)

lemma conn_ok_unread:
  assumes "conn_ok c" "i < length (c_objs c)"
  shows "s_canRecv (obj c i) \<or> unread (obj c i) = []" "s_roff (obj c i) \<le> length (s_rbuf (obj c i))"
proof -
  have "recv_stream_ok (stream_window c) (obj c i)" using assms by (simp add: conn_ok_def recv_ok_def recv_inv_def)
  then show "s_canRecv (obj c i) \<or> unread (obj c i) = []" "s_roff (obj c i) \<le> length (s_rbuf (obj c i))"
    by (auto simp: recv_stream_ok_def unread_def)
qed

lemma box_complete_update:
  assumes "conn_ok c" "box t = box (obj c i)" "s_canRecv t = s_canRecv (obj c i)" "unread t = unread (obj c i)"
  shows "map box ((c_objs c)[i := complete_obj t]) = map box (c_objs c)"
proof (cases "i < length (c_objs c)")
  case True
  then have "box (complete_obj t) = box t" using conn_ok_unread(1) [OF assms(1) True] assms(3,4) by (intro box_complete) simp
  then show ?thesis using assms(2) by (intro map_view_update) simp
qed (simp add: list_update_beyond)

section \<open>Operations of an end\<close>

lemma terminate_box: "map box (c_objs (snd (terminate err c))) = map box (c_objs c)"
proof (cases "terminate err c")
  case (Pair b c')
  then show ?thesis using map_silent [OF terminate_True(4), of err c c' box] terminate_False [of err c c'] by (cases b) simp_all
qed

lemma waits_box:
  "map box (c_objs (snd (read_wait i c))) = map box (c_objs c)" "map box (c_objs (snd (write_wait i c))) = map box (c_objs c)"
  "map box (c_objs (snd (send_wait c))) = map box (c_objs c)" "c_objs (snd (out_wait d c)) = c_objs c" "c_objs (snd (in_wait d c)) = c_objs c"
  "map box (c_objs (read_broadcast i c)) = map box (c_objs c)" "map box (c_objs (write_broadcast i c)) = map box (c_objs c)"
  by (simp_all add: wait_defs broadcast_defs upd_defs map_view_update)

lemma tryOpen_inbox:
  assumes "conn_ok c"
  shows "inbox (c_objs (snd (tryOpen d c))) = inbox (c_objs c)"
proof (cases "c_closeErr c = None \<and> o_next (c_out c d) < o_max (c_out c d)")
  case True
  let ?i = "streamID_of c (o_next (c_out c d)) d True"
  have t: "table_ok c" using assms by (simp add: conn_ok_def)
  then have "unat (o_max (c_out c d)) \<le> 2 ^ 60" by (simp add: table_ok_def table_inv_def) (simp add: table_of_def)
  then have n: "unat (o_next (c_out c d)) < 2 ^ 62" using True by (simp add: word_less_nat_alt)
  have f: "?i \<notin> s_id ` set (c_objs c)"
    by (rule table_fresh [OF t]) (use n in \<open>simp add: streamID_of_local streamID_of_dir streamID_of_index\<close>)
  let ?t = "(new_stream c ?i)\<lparr>s_accepted := True\<rparr>"
  have w: "s_id ?t = ?i" "waiting ?t = Some []" by (simp_all add: new_stream_def zero_stream_def waiting_def unread_def Let_def)
  show ?thesis using True inbox_snoc [of ?t "c_objs c"] f unfolding w by (auto simp: tryOpen_snd Let_def)
qed (auto simp: tryOpen_snd waits_box)

lemma act_inbox:
  assumes "act q c fs c'" "conn_ok c"
  shows "inbox (c_objs c') i = inbox (c_objs c) i \<or> inbox (c_objs c') i = None"
proof -
  have same: "map box (c_objs c') = map box (c_objs c) \<Longrightarrow> ?thesis" using inbox_same by metis
  show ?thesis using assms(1)
  proof cases
    case (act_peek j k)
    then show ?thesis using waits_box(1) [of j c] by (intro same) (auto simp: tryPeek_def Let_def split: option.splits prod.splits)
  next
    case (act_cancelRead j code)
    then have j: "j < length (c_objs c)" by (simp add: receiver_def)
    have d: "distinct (map s_id (c_objs c))" using assms(2) table_distinct by (simp add: conn_ok_def)
    show ?thesis
    proof (cases "cancel_accepted j c")
      case True
      let ?t = "complete_obj (cancel_obj code (obj c j))"
      have "c_objs c' = (c_objs c)[j := ?t]"
        using act_cancelRead True j by (simp add: cancelRead_eq completeLocked_eq recv_update_def consumeLocked_eq queueLocked_def wakeWriter_def)
      moreover have "s_id ?t = s_id (obj c j)" "waiting ?t = None" by (simp_all add: waiting_def) (simp_all add: cancel_obj_def)
      ultimately show ?thesis using inbox_update [OF d j, of ?t] by simp
    qed (use act_cancelRead j in \<open>simp add: cancelRead_eq\<close>)
  next
    case (act_trySend j now)
    then show ?thesis using waits_box(2) [of j c] waits_box(3)
      by (intro same) (auto simp: trySend_def Let_def split: option.splits prod.splits, (metis snd_conv)+)
  next
    case (act_write j p off n)
    then have "c' = snd (reserve j (length p) c)" by simp
    then show ?thesis by (intro same) (simp add: reserve_def upd_obj_def map_view_update Let_def split: option.split)
  next
    case (act_finish j n)
    then have c': "c' = snd (finish j c)" and j: "j < length (c_objs c)" by (simp_all add: sender_def)
    show ?thesis
      by (intro same) (use box_complete_update [OF assms(2), of "(finish_obj (obj c j))\<lparr>s_writeSignal := None\<rparr>" j] j in
        \<open>simp add: c' finish_snd completeLocked_eq send_update_def unread_def\<close>)
  next
    case (act_cancelWrite j code)
    then have j: "j < length (c_objs c)" by (simp add: sender_def)
    show ?thesis
      by (intro same) (use box_complete_update [OF assms(2), of "(stop_obj code False (obj c j))\<lparr>s_writeSignal := None\<rparr>" j] j act_cancelWrite in
        \<open>simp add: cancelWrite_def resetSendLocked_eq completeLocked_eq send_update_def unread_def queueLocked_def wakeWriter_def\<close>)
  next
    case (act_open d)
    then show ?thesis using tryOpen_inbox [OF assms(2)] by simp
  next
    case (act_accept d)
    have "map box ((c_objs c)[p := complete_obj ((c_objs c)[p := (obj c p)\<lparr>s_accepted := True\<rparr>] ! p)]) = map box (c_objs c)" for p
      using box_complete_update [OF assms(2), of "(obj c p)\<lparr>s_accepted := True\<rparr>" p]
      by (cases "p < length (c_objs c)") (simp_all add: unread_def list_update_beyond)
    then show ?thesis using act_accept by (intro same) (simp add: tryAccept_snd completeLocked_eq waits_box split: list.split)
  next
    case (act_end err)
    then show ?thesis using terminate_box by (intro same) simp
  next
    case (act_close err app code ft reason)
    then show ?thesis using terminate_box [of err c] by (intro same) simp
  qed (intro same, simp add: setReadDeadline_def setWriteDeadline_def setPriority_def requestPing_def wakeWriter_def takeControl_def
      upd_in_def Let_def writeRecordLocked_def touch_def waits_box upd_obj_def map_view_update split: sum.split)+
qed

text \<open>A read takes from the front of what waits.\<close>

lemma waiting_read: "waiting (read_obj w n (take_unread k s)) = map_option (drop k) (waiting s)"
  by (simp add: waiting_def unread_def read_obj_def take_unread_def Let_def add.commute)

lemma tryRead_inbox:
  assumes "conn_ok c" "receiver i c" "tryRead i k c = (r, c')"
  shows "inbox (c_objs c') j = inbox (c_objs c) j \<and> (j = s_id (obj c i) \<longrightarrow> copied r = []) \<or>
    j = s_id (obj c i) \<and> (\<exists>u. inbox (c_objs c) j = Some (copied r @ u) \<and> inbox (c_objs c') j = Some u)"
proof -
  have i: "i < length (c_objs c)" "s_canRecv (obj c i)" using assms(2) by (simp_all add: receiver_def)
  have d: "distinct (map s_id (c_objs c))" using assms(1) table_distinct by (simp add: conn_ok_def)
  let ?s = "obj c i"
  show ?thesis
  proof (cases "c_closeErr c = None \<and> s_recvErr ?s = None \<and> s_roff ?s < length (s_rbuf ?s)")
    case False
    then have "copied r = []" "c' \<in> {c, snd (read_wait i c)}"
      using assms(3) by (auto simp: tryRead_def Let_def split: option.splits prod.splits if_splits)
    then show ?thesis using inbox_same [OF waits_box(1), of i c] by auto
  next
    case True
    let ?d = "take k (drop (s_roff ?s) (s_rbuf ?s))"
    let ?t = "read_obj (stream_window c) (u64_len ?d) (take_unread (length ?d) ?s)"
    have r: "r = Copied ?d" using True assms(3) by (auto simp: tryRead_def Let_def)
    have "c' = completeLocked i (readLocked i (u64_len ?d) (upd_obj i (take_unread (length ?d)) c))"
      using True assms(3) by (auto simp: tryRead_def Let_def)
    then have c': "c_objs c' = (c_objs c)[i := complete_obj ?t]"
      using i(1) by (simp add: completeLocked_eq readLocked_eq upd_obj_def)
    have t: "s_id ?t = s_id ?s" "s_canRecv ?t" using i(2) by (simp_all add: read_obj_def take_unread_def Let_def)
    then have b: "s_id (complete_obj ?t) = s_id ?s" "waiting (complete_obj ?t) = waiting ?t"
      using box_complete [of ?t] by (simp_all add: box_def)
    have "\<not> (s_readCancelled ?s \<or> s_recvReset ?s)"
      using assms(1) i(1) True by (auto simp: conn_ok_def recv_ok_def recv_inv_def recv_stream_ok_def)
    then have w: "waiting ?s = Some (unread ?s)" by (simp add: waiting_def)
    have "xs = take k xs @ drop (length (take k xs)) xs" for xs :: bytes by (cases "k \<le> length xs") simp_all
    then have u: "unread ?s = ?d @ drop (length ?d) (unread ?s)" unfolding unread_def .
    have "inbox (c_objs c') = (inbox (c_objs c))(s_id ?s := Some (drop (length ?d) (unread ?s)))"
      unfolding c' using inbox_update [OF d i(1) b(1)] b waiting_read [of "stream_window c" "u64_len ?d" "length ?d" ?s] w by simp
    moreover have "inbox (c_objs c) (s_id ?s) = Some (?d @ drop (length ?d) (unread ?s))"
      using inbox_obj [OF d nth_mem [OF i(1)]] w u by simp
    ultimately show ?thesis using r by (cases "j = s_id ?s") auto
  qed
qed

section \<open>Frames that arrive\<close>

lemma open_next_inbox:
  assumes "table_ok c" "i_next (c_in c d) \<le> drop_bit 2 rawID"
  shows "inbox (c_objs (open_next d c)) = inbox (c_objs c)"
proof -
  let ?i = "streamID_of c (i_next (c_in c d)) d False"
  have n: "unat (i_next (c_in c d)) < 2 ^ 62" using assms(2) drop_bit_u64_lt [of rawID] by (simp add: word_le_nat_alt)
  have f: "?i \<notin> s_id ` set (c_objs c)"
    by (rule table_fresh [OF assms(1)]) (use n in \<open>simp add: streamID_of_local streamID_of_dir streamID_of_index\<close>)
  have w: "s_id (new_stream c ?i) = ?i" "waiting (new_stream c ?i) = Some []"
    by (simp_all add: new_stream_def zero_stream_def waiting_def unread_def Let_def)
  show ?thesis using inbox_snoc [of "new_stream c ?i" "c_objs c"] f unfolding w by (auto simp: open_next_eq Let_def)
qed

lemma open_incoming_inbox:
  "table_ok c \<Longrightarrow> c_ready c \<Longrightarrow> c_closeErr c = None \<Longrightarrow> drop_bit 2 rawID < i_max (c_in c d) \<Longrightarrow>
   inbox (c_objs (open_incoming d rawID c)) = inbox (c_objs c)"
proof (induction d rawID c rule: open_incoming.induct)
  case (1 d rawID c)
  then show ?case using conn_op_table_ok [OF op_open_next [of c d rawID]] open_next_inbox [of c d rawID]
    by (subst open_incoming.simps) (simp add: open_next_fields)
qed

lemma streamLocked_inbox:
  assumes "conn_ok c" "c_ready c" "c_closeErr c = None" "streamLocked j recv c = (res, c1)"
  shows "inbox (c_objs c1) = inbox (c_objs c)"
  using open_incoming_inbox [of c j "streamDir j"] assms by (auto simp: streamLocked_def Let_def conn_ok_def not_le split: if_splits)

lemma data_acceptedI:
  assumes "fst (receive_data grow i sid off d fin c) = None" "\<not> s_finRecv (obj c i)" "\<not> s_recvReset (obj c i)"
  shows "data_accepted i off d c"
  using assms by (auto simp: receive_data_def receivedLocked_def data_accepted_def Let_def not_less split: if_splits)

lemma handleStream_inbox:
  assumes "conn_ok c" "recv_bounds c" "c_closeErr c = None" "accepts (view c) (Stream j off d fin)" "length d < 2 ^ 62"
    "handleStreamLocked grow j off d fin c = (r, c')"
  shows "inbox (c_objs c') = (inbox (c_objs c))(j := map_option (\<lambda>u. u @ d) (inbox (c_objs c) j))"
proof -
  let ?f = "Stream j off d fin"
  have a: "p_ready (view c)" "can_recv (view c) j" "reaches (view c) j" "\<not> h_ended (p_recv (view c) j)"
    using assms(4) by (simp_all del: view_fields view_roles)
  obtain c1 p where c1: "streamLocked j True c = (Inr (Some p), c1)" "(\<lambda>e e'. ep_pre e ?f e')\<^sup>*\<^sup>* (view c) (view c1)" "conn_ok c1"
    "recv_bounds c1" "c_closeErr c1 = None" "receiver p c1" "s_id (obj c1 p) = j" "recv_half (obj c1 p) = p_recv (view c) j"
    by (rule received_stream [OF assms(1-3) _ _ a(2-4), of ?f]) (use a(1) in simp_all)
  have p: "p < length (c_objs c1)" "s_canRecv (obj c1 p)" using c1(6) by (simp_all add: receiver_def)
  have d: "distinct (map s_id (c_objs c1))" using c1(3) table_distinct by (simp add: conn_ok_def)
  have "\<not> h_ended (recv_half (obj c1 p))" unfolding c1(8) by (rule a(4))
  then have live: "\<not> s_finRecv (obj c1 p)" "\<not> s_recvReset (obj c1 p)" by (simp_all add: recv_half_def)
  have h: "receive_data grow p j off d fin c1 = (r, c')" using assms(6) c1(1) by (simp add: handleStreamLocked_def)
  have "fst (handleStreamLocked grow j off d fin c) = None" using handleStream_view [OF assms(1-5), of grow] by auto
  then have acc: "data_accepted p off d c1" using data_acceptedI [of grow p j off d fin c1] live h assms(6) by simp
  let ?s = "obj c1 p"
  let ?t = "data_obj grow d fin ?s"
  have "c_objs c' = (c_objs c1)[p := complete_obj ?t]"
    using receive_data_snd [OF p(1), of grow j off d fin] acc p(1) unfolding h
    by (simp add: completeLocked_eq consumeLocked_eq recv_update_def)
  moreover have b: "s_id (complete_obj ?t) = s_id ?s" "waiting (complete_obj ?t) = waiting ?t"
    using box_complete [of ?t] p(2) by (simp_all add: box_def data_obj_def Let_def)
  moreover have "waiting ?t = map_option (\<lambda>u. u @ d) (waiting ?s)"
  proof -
    let ?u = "?s\<lparr>s_recvOffset := s_recvOffset ?s + u64_len d, s_finRecv := fin\<rparr>"
    have "unread (bufferLocked grow d ?u) = unread ?u @ d"
      by (rule bufferLocked_unread) (use conn_ok_unread(2) [OF c1(3) p(1)] in simp)
    then have "unread (bufferLocked grow d ?u\<lparr>s_readSignal := None\<rparr>) = unread ?s @ d" by (simp add: unread_def)
    then show ?thesis using live(2) by (simp add: waiting_def data_obj_def Let_def)
  qed
  ultimately have "inbox (c_objs c') = (inbox (c_objs c1))(j := map_option (\<lambda>u. u @ d) (inbox (c_objs c1) j))"
    using inbox_update [OF d p(1) b(1)] inbox_obj [OF d nth_mem [OF p(1)]] c1(7) by simp
  then show ?thesis using streamLocked_inbox [OF assms(1) _ assms(3) c1(1)] a(1) by simp
qed

lemma handleResetStream_inbox:
  assumes "conn_ok c" "c_ready c" "c_closeErr c = None" "handleResetStreamLocked j code n c = (r, c')"
  shows "inbox (c_objs c') i = inbox (c_objs c) i \<or> inbox (c_objs c') i = None"
proof -
  obtain res c1 where s: "streamLocked j True c = (res, c1)" by fastforce
  have t: "table_ok c" using assms(1) by (simp add: conn_ok_def)
  note st = streamLocked_table [OF t assms(2,3) s]
  note same = streamLocked_inbox [OF assms(1-3) s]
  show ?thesis
  proof (cases "\<exists>p. res = Inr (Some p)")
    case False
    then have "c' = c1" using assms(4) s by (auto simp: handleResetStreamLocked_def split: sum.splits option.splits)
    then show ?thesis using same by simp
  next
    case True
    then obtain p where p: "res = Inr (Some p)" by blast
    have l: "p < length (c_objs c1)" using st(6) [OF p] by blast
    have c': "c' = snd (receive_reset p j code n c1)" using assms(4) s p by (simp add: handleResetStreamLocked_def)
    show ?thesis
    proof (cases "reset_accepted p n c1")
      case True
      let ?t = "complete_obj (reset_obj code n (obj c1 p))"
      have "c_objs c' = (c_objs c1)[p := ?t]"
        unfolding c' using True l by (simp add: receive_reset_snd completeLocked_eq consumeLocked_eq recv_update_def)
      moreover have "s_id ?t = s_id (obj c1 p)" "waiting ?t = None" by (simp_all add: waiting_def) (simp_all add: reset_obj_def)
      ultimately show ?thesis using inbox_update [OF table_distinct [OF st(1)] l, of ?t] same by simp
    next
      case False
      then show ?thesis using c' l same by (simp add: receive_reset_snd)
    qed
  qed
qed

lemma sent_frames_inbox:
  assumes "conn_ok c" "recv_bounds c" "c_closeErr c = None"
  shows "accepts (view c) (StopSending j code) \<Longrightarrow> inbox (c_objs (snd (handle_StopSending j code c))) = inbox (c_objs c)"
    "accepts (view c) (MaxStreamData j m) \<Longrightarrow> inbox (c_objs (snd (handle_MaxStreamData j m c))) = inbox (c_objs c)"
proof -
  show "inbox (c_objs (snd (handle_StopSending j code c))) = inbox (c_objs c)" if a: "accepts (view c) (StopSending j code)"
  proof -
    obtain c1 res where c1: "streamLocked j False c = (Inr res, c1)" "(\<lambda>e e'. ep_pre e (StopSending j code) e')\<^sup>*\<^sup>* (view c) (view c1)" "conn_ok c1"
      "recv_bounds c1" "c_closeErr c1 = None" "\<And>p. res = Some p \<Longrightarrow> sender p c1 \<and> s_id (obj c1 p) = j"
      by (rule sent_stream [OF assms, of "StopSending j code" j]) (use a in \<open>simp_all del: view_roles\<close>)
    have "map box (c_objs (resetSendLocked p code True c1)) = map box (c_objs c1)" if "sender p c1" for p
      using box_complete_update [OF c1(3), of "(stop_obj code True (obj c1 p))\<lparr>s_writeSignal := None\<rparr>" p] that
      by (simp add: resetSendLocked_eq completeLocked_eq send_update_def unread_def queueLocked_def wakeWriter_def sender_def)
    then have "inbox (c_objs (snd (handle_StopSending j code c))) = inbox (c_objs c1)"
      using c1(1,6) by (auto simp: handle_StopSending_def stopSendingLocked_def split: option.split intro!: inbox_same)
    then show ?thesis using streamLocked_inbox [OF assms(1) _ assms(3) c1(1)] a by simp
  qed
  show "inbox (c_objs (snd (handle_MaxStreamData j m c))) = inbox (c_objs c)" if a: "accepts (view c) (MaxStreamData j m)"
  proof -
    obtain c1 res where c1: "streamLocked j False c = (Inr res, c1)" "(\<lambda>e e'. ep_pre e (MaxStreamData j m) e')\<^sup>*\<^sup>* (view c) (view c1)" "conn_ok c1"
      "recv_bounds c1" "c_closeErr c1 = None" "\<And>p. res = Some p \<Longrightarrow> sender p c1 \<and> s_id (obj c1 p) = j"
      by (rule sent_stream [OF assms, of "MaxStreamData j m" j]) (use a in \<open>simp_all del: view_roles\<close>)
    have "map box (c_objs (write_broadcast p (upd_obj p (\<lambda>s. s\<lparr>s_sendMax := m\<rparr>) c1))) = map box (c_objs c1)" for p
      by (simp add: waits_box) (simp add: upd_obj_def map_view_update)
    then have "inbox (c_objs (snd (handle_MaxStreamData j m c))) = inbox (c_objs c1)"
      using c1(1) by (auto simp: handle_MaxStreamData_def split: option.split intro!: inbox_same)
    then show ?thesis using streamLocked_inbox [OF assms(1) _ assms(3) c1(1)] a by simp
  qed
qed

lemma handle_inbox:
  assumes "conn_ok c" "recv_bounds c" "c_closeErr c = None" "accepts (view c) f" "frame_allowed (Frame f)"
    "handleFrameLocked grow now (Frame f) c = (r, c')"
  shows "inbox (c_objs c') i = None \<or> (\<exists>u. inbox (c_objs c) i = Some u \<and> inbox (c_objs c') i = Some (u @ frame_bytes i f))"
proof (cases "is_params f")
  case True
  then obtain p where "f = TransportParameters p" by (cases f) auto
  then show ?thesis using assms(4,6) by (cases "inbox (c_objs c) i") (auto simp: handleFrameLocked_def handleParametersLocked_eq)
next
  case False
  have rdy: "c_ready c" using assms(4) False by (cases f) simp_all
  have h: "handle_switch grow now (Frame f) c = (r, c')"
    using rdy False assms(6) by (cases f) (simp_all add: handleFrameLocked_def)
  have same: "?thesis" if "inbox (c_objs c') i = inbox (c_objs c) i \<or> inbox (c_objs c') i = None" "frame_bytes i f = []"
    using that by (cases "inbox (c_objs c) i") auto
  show ?thesis
  proof (cases f)
    case (Stream j off d fin)
    then have "inbox (c_objs c') = (inbox (c_objs c))(j := map_option (\<lambda>u. u @ d) (inbox (c_objs c) j))"
      using handleStream_inbox [OF assms(1-3) assms(4) [unfolded Stream] _ h [unfolded Stream handle_switch.simps]] assms(5) by simp
    then show ?thesis using Stream by (cases "inbox (c_objs c) i") auto
  next
    case (ResetStream j code n)
    then show ?thesis using handleResetStream_inbox [OF assms(1) rdy assms(3)] h by (intro same) simp_all
  next
    case (StopSending j code)
    then show ?thesis using sent_frames_inbox(1) [OF assms(1-3)] assms(4) h by (intro same) (simp_all, metis snd_conv)
  next
    case (MaxStreamData j m)
    then show ?thesis using sent_frames_inbox(2) [OF assms(1-3)] assms(4) h by (intro same) (simp_all, metis snd_conv)
  next
    case (MaxStreams uni m)
    have "c_objs (handle_MaxStreams uni m c) = c_objs c"
      by (simp add: handle_MaxStreams_def out_broadcast_def signal_broadcast_eq upd_out_def Let_def)
    then show ?thesis using h MaxStreams by (intro same) auto
  next
    case (Ping response n)
    then show ?thesis using h by (intro same) (auto simp: handlePingLocked_def wakeWriter_def split: if_splits)
  next
    case (Datagram d)
    then show ?thesis using h by (intro same) (auto simp: handleDatagramLocked_def split: if_splits)
  next
    case (MaxData m)
    have "c_objs (handle_MaxData m c) = c_objs c" by (simp add: handle_MaxData_def send_broadcast_def signal_broadcast_eq)
    then show ?thesis using h MaxData by (intro same) auto
  qed (use h False in \<open>(intro same; auto)+\<close>)
qed

section \<open>Every byte arrives once and in order\<close>

definition delivery :: "pair \<Rightarrow> bool \<Rightarrow> StreamID \<Rightarrow> bool" where
  "delivery s x i \<longleftrightarrow> (case inbox (c_objs (pr_conn s (\<not> x))) i of
     None \<Rightarrow> prefix (pr_read s (\<not> x) i) (pr_written s x i)
   | Some u \<Rightarrow> pr_written s x i = pr_read s (\<not> x) i @ u @ bytes_of i (pr_flight s x))"

lemma deliveryI:
  assumes "delivery s x i" "pr_written t x i = pr_written s x i @ b" "pr_read t (\<not> x) i = pr_read s (\<not> x) i @ r"
    "inbox (c_objs (pr_conn t (\<not> x))) i = None \<and> r = [] \<or>
     (\<exists>u v. inbox (c_objs (pr_conn s (\<not> x))) i = Some u \<and> inbox (c_objs (pr_conn t (\<not> x))) i = Some v \<and>
        u @ bytes_of i (pr_flight s x) @ b = r @ v @ bytes_of i (pr_flight t x))"
  shows "delivery t x i"
  using assms by (auto simp: delivery_def prefix_def split: option.splits)

lemma bytes_of_simps [simp]: "bytes_of i [] = []" "bytes_of i (f # fs) = frame_bytes i f @ bytes_of i fs" "bytes_of i (fs @ gs) = bytes_of i fs @ bytes_of i gs"
  by (simp_all add: bytes_of_def)

lemma pair_step_delivery:
  assumes "pair_step q grow s t" "pair_inv s" "\<And>x i. delivery s x i"
  shows "delivery t y i"
proof -
  have c: "conn_ok (pr_conn s x)" "f \<in> set (pr_flight s x) \<Longrightarrow> frame_allowed (Frame f)" for x f
    using assms(2) by (simp_all add: pair_inv_def)
  have acc: "accepts (view (pr_conn s x)) f" if "pr_flight s (\<not> x) = f # fs" for x f fs
    using pair_inv_end [OF assms(2), of "\<not> x"] that linked_accepts by (auto simp: paired_def)
  have in_cases: "inbox (c_objs z) i = None \<or> (\<exists>u. inbox (c_objs z) i = Some u)" for z by (cases "inbox (c_objs z) i") auto
  note ok = assms(3) [of y i]
  show ?thesis using assms(1)
  proof cases
    case (pair_act x fs c')
    show ?thesis
    proof (cases "y = x")
      case True
      then show ?thesis using in_cases [of "pr_conn s (\<not> x)"] unfolding pair_act(1)
        by (intro deliveryI [OF ok, of _ "bytes_of i fs" "[]"]) auto
    next
      case False
      then have y: "y = (\<not> x)" by simp
      then show ?thesis using in_cases [of "pr_conn s x"] act_inbox [OF pair_act(3) c(1), of i] unfolding pair_act(1)
        by (intro deliveryI [OF ok, of _ "[]" "[]"]) auto
    qed
  next
    case (pair_read x p k r c' j)
    show ?thesis
    proof (cases "y = x")
      case True
      then show ?thesis using in_cases [of "pr_conn s (\<not> x)"] unfolding pair_read(1)
        by (intro deliveryI [OF ok, of _ "[]" "[]"]) auto
    next
      case False
      then have y: "y = (\<not> x)" by simp
      then show ?thesis
        using in_cases [of "pr_conn s x"] tryRead_inbox [OF c(1) pair_read(3,4), of i] pair_read(5) unfolding pair_read(1)
        by (intro deliveryI [OF ok, of _ "[]" "if i = j then copied r else []"]) auto
    qed
  next
    case (pair_take x f fs now c')
    have "f \<in> set (pr_flight s (\<not> x))" using pair_take(4) by simp
    note h = handle_inbox [OF c(1) pair_take(2,3) acc [OF pair_take(4)] c(2) [OF this] pair_take(5), of i]
    show ?thesis
    proof (cases "y = x")
      case True
      then show ?thesis using in_cases [of "pr_conn s (\<not> x)"] unfolding pair_take(1)
        by (intro deliveryI [OF ok, of _ "[]" "[]"]) auto
    next
      case False
      then have y: "y = (\<not> x)" by simp
      then show ?thesis using h pair_take(4) unfolding pair_take(1)
        by (intro deliveryI [OF ok, of _ "[]" "[]"]) auto
    qed
  next
    case (pair_fail x f fs now e c')
    have "f \<in> set (pr_flight s (\<not> x))" using pair_fail(4) by simp
    note h = handle_inbox [OF c(1) pair_fail(2,3) acc [OF pair_fail(4)] c(2) [OF this] pair_fail(5), of i]
    have b: "inbox (c_objs (snd (terminate e c'))) = inbox (c_objs c')" by (rule inbox_same [OF terminate_box])
    show ?thesis
    proof (cases "y = x")
      case True
      then show ?thesis using in_cases [of "pr_conn s (\<not> x)"] unfolding pair_fail(1)
        by (intro deliveryI [OF ok, of _ "[]" "[]"]) auto
    next
      case False
      then have y: "y = (\<not> x)" by simp
      then show ?thesis using h pair_fail(4) b unfolding pair_fail(1)
        by (intro deliveryI [OF ok, of _ "[]" "[]"]) auto
    qed
  qed
qed

lemma pair_delivery:
  assumes "quicvarint q" "pair_start q s" "(pair_step q grow)\<^sup>*\<^sup>* s t"
  shows "delivery t x i"
proof -
  have "delivery s x i" if "pair_start q s" for s x i
    using that by (auto simp: pair_start_def delivery_def inbox_def newConn_def)
  then have "invariant (pair_start q) (pair_step q grow) (\<lambda>s. pair_inv s \<and> (\<forall>x i. delivery s x i))"
    by unfold_locales (use pair_start_inv pair_step_inv [OF assms(1)] pair_step_delivery in blast)+
  from invariant.reachable [OF this assms(2,3)] show ?thesis by simp
qed

lemma replay_ended: "replay i fs (n, True) = Some y \<Longrightarrow> bytes_of i fs = []"
  by (induction i fs "(n, True)" rule: replay.induct) (auto split: if_splits)

end
