(* ===== verification/Peer_Example.thy ===== *)
theory Peer_Example
  imports Peer_Delivery
begin

text \<open>
  A conversation, step by step: two connections with the default configuration exchange their parameters,
  the client opens a stream, writes three bytes and ends the stream, the server accepts the stream, reads
  the bytes and finds the end.
\<close>

section \<open>The ends\<close>

definition hello :: Config where
  "hello = normalized rfc9000 None"

lemma hello_fields:
  "cf_MaxIncomingStreams hello = 100" "cf_MaxIncomingUniStreams hello = 100"
  "cf_InitialStreamReceiveWindow hello = 524288" "cf_InitialConnectionReceiveWindow hello = 1048576"
  by (simp_all add: hello_def normalized_fields(1-4) [OF refl] zero_Config_def config_defaults streamLimit_def rfc9000_def)

definition greeting :: frame where
  "greeting = TransportParameters (params_received (localParameters hello))"

definition met :: "bool \<Rightarrow> Conn" where
  "met x = handleParametersLocked (params_received (localParameters hello)) (newConn hello x 0)"

lemmas met_defs = met_def handleParametersLocked_eq newConn_def new_outgoing_def new_incoming_def params_received_fields hello_fields

lemma met_fields:
  "c_objs (met x) = []" "c_streams (met x) = Map.empty" "c_closeErr (met x) = None" "c_ready (met x)" "c_isServer (met x) = x"
  "c_config (met x) = hello" "o_next (c_out (met x) d) = 0" "o_max (c_out (met x) d) = 100" "i_next (c_in (met x) d) = 0"
  "i_max (c_in (met x) d) = 100" "i_queue (c_in (met x) d) = []" "c_sendMax (met x) = 1048576" "c_sent (met x) = 0" "c_recvMax (met x) = 1048576"
  "c_received (met x) = 0" "c_consumed (met x) = 0" "InitialMaxStreamDataBidiRemote (c_peer (met x)) = 524288"
  by (cases d; simp add: met_defs)+

definition met_stream :: stream where
  "met_stream = zero_stream\<lparr>s_canRecv := True, s_canSend := True, s_recvMax := 524288, s_sendMax := 524288,
     s_urgency := defaultUrgency, s_incremental := True\<rparr>"

lemma met_new_stream: "new_stream (met False) 0 = met_stream" 
  by (simp add: new_stream_def met_fields initiatedLocally_def streamDir_def met_stream_def hello_fields zero_stream_def Let_def)

text \<open>The client opens the stream, writes and ends it.\<close>

definition asked :: Conn where
  "asked = snd (tryOpen dirBidi (met False))"

lemma asked: "asked = (met False)\<lparr>c_objs := [met_stream\<lparr>s_accepted := True\<rparr>], c_streams := [0 \<mapsto> 0],
   c_out := (c_out (met False))(dirBidi := (c_out (met False) dirBidi)\<lparr>o_next := 1\<rparr>)\<rparr>"
  by (simp add: asked_def tryOpen_snd met_fields streamID_of_def met_new_stream Let_def)

definition wrote :: Conn where
  "wrote = snd (reserve 0 3 asked)"

lemmas reserve_defs = reserve_eq sendErrLocked_def granted_def sendCreditLocked_def met_stream_def zero_stream_def maxStreamData_def
  DefaultMaxRecordSize_def StreamOverhead_def Let_def min_def

lemma wrote_step: "reserve 0 3 asked = (Inr (0, 3), wrote)"
  unfolding wrote_def prod_eq_iff by (simp add: asked met_fields reserve_defs)

lemma wrote: "c_objs wrote = [met_stream\<lparr>s_accepted := True, s_sendOffset := 3\<rparr>]" "c_closeErr wrote = None" "c_config wrote = hello"
  "c_recvMax wrote = 1048576"
  by (simp_all add: wrote_def asked met_fields reserve_defs)

definition sent_end :: Conn where
  "sent_end = snd (finish 0 wrote)"

lemma sent_end_step: "finish 0 wrote = (Inr (Some 3), sent_end)"
proof -
  have "fst (finish 0 wrote) = Inr (Some 3)"
    by (simp add: finish_def wrote write_broadcast_def signal_broadcast_eq upd_obj_def stream_cancel_def completeLocked_eq
        complete_obj_def met_stream_def zero_stream_def Let_def)
  then show ?thesis by (simp add: sent_end_def prod_eq_iff)
qed

text \<open>The server handles the data, accepts the stream, handles the end, reads.\<close>

lemma met_new_stream': "new_stream (met True) 0 = met_stream" 
  by (simp add: new_stream_def met_def handleParametersLocked_eq newConn_def params_received_fields  initiatedLocally_def streamDir_def met_stream_def hello_fields zero_stream_def Let_def)

definition told :: Conn where "told = open_next dirBidi (met True)"

lemma told: "c_objs told = [met_stream]" "c_streams told = [0 \<mapsto> 0]" "c_received told = 0" "c_recvMax told = 1048576" "c_consumed told = 0"
   "c_config told = hello" "c_closeErr told = None" "c_ready told" "c_isServer told" "i_next (c_in told dirBidi) = 1" "i_max (c_in told d) = 100"
   "i_queue (c_in told dirBidi) = [0]"
  by (simp_all add: told_def open_next_eq Let_def met_fields streamID_of_def met_new_stream')

lemma streamLocked_met: "streamLocked 0 True (met True) = (Inr (Some 0), told)"
proof -
  have "open_incoming dirBidi 0 told = told" by (subst open_incoming.simps) (simp add: told)
  then have "open_incoming dirBidi 0 (met True) = told" by (subst open_incoming.simps) (simp add: met_fields flip: told_def)
  then show ?thesis by (simp add: streamLocked_def met_fields initiatedLocally_def streamDir_def told Let_def)
qed

definition heard_stream :: stream where
  "heard_stream = met_stream\<lparr>s_rbuf := [1, 2, 3], s_cap := 3, s_recvOffset := 3\<rparr>"

definition heard :: Conn where
  "heard = recv_update 0 heard_stream 3 told"

lemma heard_step: "handleFrameLocked example_grow 0 (Frame (Stream 0 0 [1, 2, 3] False)) (met True) = (None, heard)"
proof -
  have a: "data_accepted 0 0 [1, 2, 3] told" by (simp add: data_accepted_def told met_stream_def zero_stream_def u64_len_def Let_def)
  have d: "data_obj example_grow [1, 2, 3] False met_stream = heard_stream"
    by (simp add: data_obj_def heard_stream_def met_stream_def zero_stream_def bufferLocked_def example_grow_def u64_len_def Let_def)
  have "snd (receive_data example_grow 0 0 0 [1, 2, 3] False told) = heard"
    using a receive_data_snd [of 0 told example_grow 0 0 "[1, 2, 3]" False] completeLocked_not [of heard 0]
    by (simp add: told d) (simp add: heard_def recv_update_def told completes_def heard_stream_def met_stream_def zero_stream_def u64_len_def)
  then show ?thesis using receive_data_fst [OF a, of example_grow 0 False]
    by (simp add: handleFrameLocked_def handleStreamLocked_def streamLocked_met met_fields prod_eq_iff)
qed

lemma heard: "c_objs heard = [heard_stream]" "c_streams heard = [0 \<mapsto> 0]" "c_received heard = 3" "c_recvMax heard = 1048576" "c_consumed heard = 0"
   "c_config heard = hello" "c_closeErr heard = None" "c_ready heard" "c_isServer heard" "i_next (c_in heard dirBidi) = 1" "i_max (c_in heard d) = 100"
   "i_queue (c_in heard dirBidi) = [0]"
  by (simp_all add: heard_def recv_update_def told)

definition agreed :: Conn where
  "agreed = snd (tryAccept dirBidi heard)"

definition agreed_stream :: stream where
  "agreed_stream = heard_stream\<lparr>s_accepted := True\<rparr>"

lemma agreed_eq: "agreed = heard\<lparr>c_in := (c_in heard)(dirBidi := (c_in heard dirBidi)\<lparr>i_queue := []\<rparr>), c_objs := [agreed_stream]\<rparr>"
proof -
  let ?c = "heard\<lparr>c_in := (c_in heard)(dirBidi := (c_in heard dirBidi)\<lparr>i_queue := []\<rparr>), c_objs := [agreed_stream]\<rparr>"
  have "completeLocked 0 ?c = ?c"
    by (rule completeLocked_not) (simp add: completes_def recvDone_def agreed_stream_def heard_stream_def met_stream_def zero_stream_def)
  then show ?thesis by (simp add: agreed_def tryAccept_snd heard agreed_stream_def)
qed

lemma agreed: "c_objs agreed = [agreed_stream]" "c_streams agreed = [0 \<mapsto> 0]" "c_received agreed = 3" "c_recvMax agreed = 1048576" "c_consumed agreed = 0"
   "c_config agreed = hello" "c_closeErr agreed = None" "c_ready agreed" "c_isServer agreed" "i_next (c_in agreed dirBidi) = 1" "i_max (c_in agreed d) = 100"
  by (simp_all add: agreed_eq heard)

definition told_end_stream :: stream where
  "told_end_stream = agreed_stream\<lparr>s_finRecv := True\<rparr>"

definition told_end :: Conn where
  "told_end = recv_update 0 told_end_stream 0 agreed"

lemma told_end_step: "handleFrameLocked example_grow 0 (Frame (Stream 0 3 [] True)) agreed = (None, told_end)"
proof -
  have "open_incoming dirBidi 0 agreed = agreed" by (subst open_incoming.simps) (simp add: agreed)
  then have s: "streamLocked 0 True agreed = (Inr (Some 0), agreed)" by (simp add: streamLocked_def agreed initiatedLocally_def streamDir_def Let_def)
  have a: "data_accepted 0 3 [] agreed"
    by (simp add: data_accepted_def agreed agreed_stream_def heard_stream_def met_stream_def zero_stream_def u64_len_def Let_def)
  have d: "data_obj example_grow [] True agreed_stream = told_end_stream"
    by (simp add: data_obj_def told_end_stream_def agreed_stream_def heard_stream_def met_stream_def zero_stream_def bufferLocked_def
        u64_len_def Let_def)
  have "snd (receive_data example_grow 0 0 3 [] True agreed) = told_end"
    using a receive_data_snd [of 0 agreed example_grow 0 3 "[]" True] completeLocked_not [of told_end 0]
    by (simp add: agreed d) (simp add: told_end_def recv_update_def agreed completes_def recvDone_def told_end_stream_def agreed_stream_def
        heard_stream_def met_stream_def zero_stream_def u64_len_def)
  then have "receive_data example_grow 0 0 3 [] True agreed = (None, told_end)"
    using receive_data_fst [OF a, of example_grow 0 True] by (simp add: prod_eq_iff)
  then show ?thesis using s by (simp add: handleFrameLocked_def handleStreamLocked_def agreed)
qed

lemma told_end: "c_objs told_end = [told_end_stream]" "c_recvMax told_end = 1048576" "c_consumed told_end = 0" "c_config told_end = hello"
  "c_closeErr told_end = None" "c_isServer told_end"
  by (simp_all add: told_end_def recv_update_def agreed)

definition informed :: Conn where
  "informed = snd (tryRead 0 8 told_end)"

lemmas informed_defs = told_end told_end_stream_def agreed_stream_def heard_stream_def met_stream_def zero_stream_def

lemma informed_step: "tryRead 0 8 told_end = (Copied [1, 2, 3], informed)"
proof -
  have "fst (tryRead 0 8 told_end) = Copied [1, 2, 3]" by (simp add: tryRead_def informed_defs Let_def)
  then show ?thesis by (simp add: informed_def prod_eq_iff)
qed

lemma informed: "c_objs informed = [told_end_stream\<lparr>s_rbuf := [], s_roff := 0, s_readOffset := 3\<rparr>]" "c_closeErr informed = None"
proof -
  define c where "c = readLocked 0 3 (upd_obj 0 (take_unread 3) told_end)"
  let ?s = "told_end_stream\<lparr>s_rbuf := [], s_roff := 0, s_readOffset := 3\<rparr>"
  have u: "upd_obj 0 (take_unread 3) told_end = told_end\<lparr>c_objs := [told_end_stream\<lparr>s_rbuf := [], s_roff := 0\<rparr>]\<rparr>"
    by (simp add: upd_obj_def take_unread_def informed_defs Let_def)
  have "c_objs c = [?s]"
    by (simp add: c_def readLocked_eq u) (simp add: read_obj_def told_end_stream_def agreed_stream_def heard_stream_def met_stream_def zero_stream_def Let_def)
  moreover have "c_closeErr c = None" by (simp add: c_def u readLocked_def upd_obj_def consumeLocked_eq queueLocked_def wakeWriter_def told_end Let_def)
  moreover have "informed = completeLocked 0 c"
    by (simp add: informed_def tryRead_def c_def informed_defs u64_len_def numeral_3_eq_3 Let_def)
  moreover have "\<not> completes ?s" by (simp add: completes_def sendDone_def told_end_stream_def agreed_stream_def heard_stream_def met_stream_def zero_stream_def)
  ultimately show "c_objs informed = [?s]" "c_closeErr informed = None" by (simp_all add: completeLocked_not)
qed

section \<open>The conversation\<close>

definition chat :: "Conn \<Rightarrow> Conn \<Rightarrow> frame list \<Rightarrow> bytes \<Rightarrow> bytes \<Rightarrow> pair" where
  "chat server client fs written got = \<lparr>pr_conn = (\<lambda>x. if x then server else client), pr_flight = (\<lambda>x. if x then [] else fs),
     pr_written = (\<lambda>x i. if \<not> x \<and> i = 0 then written else []), pr_read = (\<lambda>x i. if x \<and> i = 0 then got else [])\<rparr>"

definition before :: pair where
  "before = \<lparr>pr_conn = (\<lambda>x. newConn hello x 0), pr_flight = (\<lambda>x. [greeting]), pr_written = (\<lambda>x i. []), pr_read = (\<lambda>x i. [])\<rparr>"

lemma before_start: "pair_start rfc9000 before"
  unfolding pair_start_def before_def hello_def greeting_def
  by (intro exI [of _ "\<lambda>x. None"] exI [of _ "\<lambda>x. 0"]) simp

lemma hello_bounds:
  assumes "c_config c = hello" "unat (c_recvMax c) < 2 ^ 62" "\<And>s. s \<in> set (c_objs c) \<Longrightarrow> unat (s_recvMax s) < 2 ^ 62"
  shows "recv_bounds c"
  using assms by (simp add: recv_bounds_def hello_fields)

lemma chat_bounds:
  "recv_bounds (newConn hello x 0)" "recv_bounds (met x)" "recv_bounds asked" "recv_bounds wrote" "recv_bounds heard"
  "recv_bounds agreed" "recv_bounds told_end"
proof -
  show "recv_bounds (newConn hello x 0)" by (rule hello_bounds) (simp_all add: newConn_def hello_fields)
  show "recv_bounds (met x)" by (rule hello_bounds) (simp_all add: met_fields)
  show "recv_bounds asked" by (rule hello_bounds) (simp_all add: asked met_fields met_stream_def)
  show "recv_bounds wrote" by (rule hello_bounds) (simp_all add: wrote met_stream_def)
  show "recv_bounds heard" by (rule hello_bounds) (simp_all add: heard heard_stream_def met_stream_def)
  show "recv_bounds agreed" by (rule hello_bounds) (simp_all add: agreed agreed_stream_def heard_stream_def met_stream_def)
  show "recv_bounds told_end"
    by (rule hello_bounds) (simp_all add: told_end told_end_stream_def agreed_stream_def heard_stream_def met_stream_def)
qed

lemma newConn_live: "c_closeErr (newConn cf x now) = None"
  by (simp add: newConn_def)

lemma hello_step: "handleFrameLocked example_grow 0 (Frame greeting) (newConn hello x 0) = (None, met x)"
  by (simp add: greeting_def met_def handleFrameLocked_def newConn_def)

abbreviation chat_run :: "pair \<Rightarrow> pair \<Rightarrow> bool" where
  "chat_run \<equiv> (pair_step rfc9000 example_grow)\<^sup>*\<^sup>*"

lemma chat_opens: "chat_run before (chat (met True) (met False) [] [] [])"
proof -
  let ?s = "before\<lparr>pr_conn := (pr_conn before)(True := met True), pr_flight := (pr_flight before)(False := [])\<rparr>"
  have "pair_step rfc9000 example_grow before ?s"
    using pair_take [of before True greeting "[]" example_grow 0 "met True" rfc9000] hello_step
    by (simp add: before_def chat_bounds newConn_live)
  moreover have "pair_step rfc9000 example_grow ?s (?s\<lparr>pr_conn := (pr_conn ?s)(False := met False), pr_flight := (pr_flight ?s)(True := [])\<rparr>)"
    using pair_take [of ?s False greeting "[]" example_grow 0 "met False" rfc9000] hello_step
    by (simp add: before_def chat_bounds newConn_live)
  moreover have "?s\<lparr>pr_conn := (pr_conn ?s)(False := met False), pr_flight := (pr_flight ?s)(True := [])\<rparr> = chat (met True) (met False) [] [] []"
    by (simp add: before_def chat_def fun_eq_iff)
  ultimately show ?thesis by (metis converse_rtranclp_into_rtranclp r_into_rtranclp)
qed

lemma chat_client:
  assumes "recv_bounds c" "act rfc9000 c fs c'" "\<forall>f \<in> set fs. frame_valid rfc9000 f" "\<And>i. i \<noteq> 0 \<Longrightarrow> bytes_of i fs = []"
  shows "chat_run (chat s c gs w r) (chat s c' (gs @ fs) (w @ bytes_of 0 fs) r)"
proof -
  have "pr_conn (chat s c gs w r) False = c" by (simp add: chat_def)
  then have "pair_step rfc9000 example_grow (chat s c gs w r) ((chat s c gs w r)\<lparr>pr_conn := (pr_conn (chat s c gs w r))(False := c'),
      pr_flight := (pr_flight (chat s c gs w r))(False := pr_flight (chat s c gs w r) False @ fs),
      pr_written := (pr_written (chat s c gs w r))(False := \<lambda>i. pr_written (chat s c gs w r) False i @ bytes_of i fs)\<rparr>)"
    using assms by (intro pair_act) simp_all
  moreover have "(chat s c gs w r)\<lparr>pr_conn := (pr_conn (chat s c gs w r))(False := c'),
      pr_flight := (pr_flight (chat s c gs w r))(False := pr_flight (chat s c gs w r) False @ fs),
      pr_written := (pr_written (chat s c gs w r))(False := \<lambda>i. pr_written (chat s c gs w r) False i @ bytes_of i fs)\<rparr> =
      chat s c' (gs @ fs) (w @ bytes_of 0 fs) r"
    using assms(4) by (auto simp: chat_def fun_eq_iff)
  ultimately show ?thesis by (metis r_into_rtranclp)
qed

lemma chat_server:
  assumes "recv_bounds s" "act rfc9000 s [] s'"
  shows "chat_run (chat s c gs w r) (chat s' c gs w r)"
proof -
  have "pr_conn (chat s c gs w r) True = s" by (simp add: chat_def)
  then have "pair_step rfc9000 example_grow (chat s c gs w r) ((chat s c gs w r)\<lparr>pr_conn := (pr_conn (chat s c gs w r))(True := s'),
      pr_flight := (pr_flight (chat s c gs w r))(True := pr_flight (chat s c gs w r) True @ []),
      pr_written := (pr_written (chat s c gs w r))(True := \<lambda>i. pr_written (chat s c gs w r) True i @ bytes_of i [])\<rparr>)"
    using assms by (intro pair_act) simp_all
  moreover have "(chat s c gs w r)\<lparr>pr_conn := (pr_conn (chat s c gs w r))(True := s'),
      pr_flight := (pr_flight (chat s c gs w r))(True := pr_flight (chat s c gs w r) True @ []),
      pr_written := (pr_written (chat s c gs w r))(True := \<lambda>i. pr_written (chat s c gs w r) True i @ bytes_of i [])\<rparr> = chat s' c gs w r"
    by (auto simp: chat_def fun_eq_iff)
  ultimately show ?thesis by (metis r_into_rtranclp)
qed

lemma chat_take:
  assumes "recv_bounds s" "c_closeErr s = None" "handleFrameLocked example_grow 0 (Frame f) s = (None, s')"
  shows "chat_run (chat s c (f # gs) w r) (chat s' c gs w r)"
proof -
  let ?p = "chat s c (f # gs) w r"
  have p: "pr_conn ?p True = s" "pr_flight ?p (\<not> True) = f # gs" by (simp_all add: chat_def)
  have "pair_step rfc9000 example_grow ?p (?p\<lparr>pr_conn := (pr_conn ?p)(True := s'), pr_flight := (pr_flight ?p)(\<not> True := gs)\<rparr>)"
    by (rule pair_take [OF _ _ p(2)]) (use assms p(1) in simp_all)
  moreover have "?p\<lparr>pr_conn := (pr_conn ?p)(True := s'), pr_flight := (pr_flight ?p)(\<not> True := gs)\<rparr> = chat s' c gs w r"
    by (auto simp: chat_def fun_eq_iff)
  ultimately show ?thesis by (metis r_into_rtranclp)
qed

lemma chat_read:
  assumes "recv_bounds s" "receiver p s" "s_id (obj s p) = 0" "tryRead p k s = (Copied d, s')"
  shows "chat_run (chat s c gs w r) (chat s' c gs w (r @ d))"
proof -
  let ?p = "chat s c gs w r"
  have p: "pr_conn ?p True = s" by (simp add: chat_def)
  have "pair_step rfc9000 example_grow ?p (?p\<lparr>pr_conn := (pr_conn ?p)(True := s'),
      pr_read := (pr_read ?p)(True := (pr_read ?p True)(0 := pr_read ?p True 0 @ copied (Copied d)))\<rparr>)"
    by (rule pair_read [of _ _ p k]) (use assms p in simp_all)
  moreover have "?p\<lparr>pr_conn := (pr_conn ?p)(True := s'),
      pr_read := (pr_read ?p)(True := (pr_read ?p True)(0 := pr_read ?p True 0 @ copied (Copied d)))\<rparr> = chat s' c gs w (r @ d)"
    by (auto simp: chat_def fun_eq_iff)
  ultimately show ?thesis by (metis r_into_rtranclp)
qed

definition chat_sent :: pair where
  "chat_sent = chat (met True) wrote [Stream 0 0 [1, 2, 3] False] [1, 2, 3] []"

definition chat_over :: pair where
  "chat_over = chat informed sent_end [] [1, 2, 3] [1, 2, 3]"

lemma asked_stream: "sender 0 asked" "s_id (obj asked 0) = 0" "sender 0 wrote" "s_id (obj wrote 0) = 0"
  by (simp_all add: sender_def asked wrote met_stream_def zero_stream_def)

lemma chat_sent_run: "chat_run before chat_sent"
proof -
  have "act rfc9000 (met False) [] asked" unfolding asked_def by (rule act_open)
  from chat_client [OF chat_bounds(2) this, of "met True" "[]" "[]" "[]"]
  have "chat_run (chat (met True) (met False) [] [] []) (chat (met True) asked [] [] [])" by simp
  moreover have "act rfc9000 asked [Stream 0 0 [1, 2, 3] False] wrote"
    using act_write [of 0 asked "[1, 2, 3]" 0 3 wrote rfc9000] wrote_step asked_stream by (simp add: numeral_3_eq_3)
  from chat_client [OF chat_bounds(3) this, of "met True" "[]" "[]" "[]"]
  have "chat_run (chat (met True) asked [] [] []) chat_sent" by (simp add: chat_sent_def rfc.fits_iff)
  ultimately show ?thesis using chat_opens by (meson rtranclp_trans)
qed

lemma chat_over_run: "chat_run before chat_over"
proof -
  have "act rfc9000 wrote [Stream 0 3 [] True] sent_end"
    using act_finish [OF asked_stream(3) sent_end_step, of rfc9000] asked_stream(4) by simp
  from chat_client [OF chat_bounds(4) this, of "met True" "[Stream 0 0 [1, 2, 3] False]" "[1, 2, 3]" "[]"]
  have "chat_run chat_sent (chat (met True) sent_end [Stream 0 0 [1, 2, 3] False, Stream 0 3 [] True] [1, 2, 3] [])"
    by (simp add: chat_sent_def rfc.fits_iff)
  also have "chat_run \<dots> (chat heard sent_end [Stream 0 3 [] True] [1, 2, 3] [])"
    by (rule chat_take [OF chat_bounds(2) met_fields(3) heard_step])
  also have "chat_run \<dots> (chat agreed sent_end [Stream 0 3 [] True] [1, 2, 3] [])"
    by (rule chat_server [OF chat_bounds(5)]) (unfold agreed_def, rule act_accept)
  also have "chat_run \<dots> (chat told_end sent_end [] [1, 2, 3] [])"
    by (rule chat_take [OF chat_bounds(6) agreed(7) told_end_step])
  also have "chat_run \<dots> (chat informed sent_end [] [1, 2, 3] ([] @ [1, 2, 3]))"
    by (rule chat_read [OF chat_bounds(7) _ _ informed_step])
      (simp_all add: receiver_def told_end told_end_stream_def agreed_stream_def heard_stream_def met_stream_def zero_stream_def)
  finally show ?thesis using chat_sent_run by (simp add: chat_over_def)
qed

end
