(* ===== verification/Peers.thy ===== *)
theory Peers
  imports Peer_Example
begin

text \<open>
  Two connections that talk to each other: what the calls of one end put on the transport, what the other
  end makes of it, and what arrives at its application.
\<close>

section \<open>From calls to records\<close>

text \<open>The records that hold the frames, in order.\<close>

definition records_of :: "codec \<Rightarrow> frame list \<Rightarrow> bytes list \<Rightarrow> bool" where
  "records_of q fs recs \<longleftrightarrow> (\<exists>fss. concat fss = fs \<and> list_all2 (\<lambda>fs rec. frames_Append q fs [] = Some rec) fss recs)"

text \<open>A call that emits the frames under the mutex and then writes them to the transport.\<close>

definition puts :: "codec \<Rightarrow> Conn \<Rightarrow> frame list \<Rightarrow> Conn \<Rightarrow> bool" where
  "puts q c fs c' \<longleftrightarrow> (\<exists>c1 recs. act q c fs c1 \<and> (\<lambda>a b. act q a [] b)\<^sup>*\<^sup>* c1 c' \<and>
     records_of q fs recs \<and> tr_written (c_tr c') = tr_written (c_tr c) @ recs)"

lemma records_of_nil: "records_of q [] []"
  unfolding records_of_def by (rule exI [of _ "[]"]) simp

lemma records_of_one: "frames_Append q fs [] = Some rec \<Longrightarrow> records_of q fs [rec]"
  unfolding records_of_def by (rule exI [of _ "[fs]"]) simp

lemma records_of_append: "records_of q fs rs \<Longrightarrow> records_of q gs ss \<Longrightarrow> records_of q (fs @ gs) (rs @ ss)"
  unfolding records_of_def
proof (elim exE conjE)
  fix fss gss
  assume "concat fss = fs" "concat gss = gs" "list_all2 (\<lambda>fs rec. frames_Append q fs [] = Some rec) fss rs"
    "list_all2 (\<lambda>fs rec. frames_Append q fs [] = Some rec) gss ss"
  then show "\<exists>hss. concat hss = fs @ gs \<and> list_all2 (\<lambda>fs rec. frames_Append q fs [] = Some rec) hss (rs @ ss)"
    by (intro exI [of _ "fss @ gss"]) (simp add: list_all2_appendI)
qed

text \<open>A transport that takes every record.\<close>

definition takes_all :: "write_outcome \<Rightarrow> bool" where
  "takes_all tw \<longleftrightarrow> (\<forall>ws b. \<exists>n. tw ws b = Inr n)"

lemma writeRecord_ok:
  assumes "takes_all tw"
  shows "\<exists>c'. writeRecordLocked tw now (new_record @ rec) c = (None, c') \<and> tr_written (c_tr c') = tr_written (c_tr c) @ [rec]"
proof -
  obtain n where "tw (tr_written (c_tr c)) (new_record @ rec) = Inr n" using assms by (auto simp: takes_all_def)
  then show ?thesis by (simp add: writeRecordLocked_def Let_def touch_def new_record_def)
qed

lemma writeFrames_record:
  assumes "takes_all tw" "writeFramesLocked q tw now fs c = Some (e, c')"
  shows "e = None" "\<exists>rec. frames_Append q fs [] = Some rec \<and> tr_written (c_tr c') = tr_written (c_tr c) @ [rec] \<and> act q c [] c'"
proof -
  obtain rec where r: "frames_Append q fs [] = Some rec" "writeRecordLocked tw now (new_record @ rec) c = (e, c')"
    using assms(2) frames_Append_prefix [of q fs new_record] by (auto simp: writeFramesLocked_def Option.bind_eq_Some_conv)
  have "act q c [] c'" using act_writeRecord [of q c tw now "new_record @ rec"] r(2) by simp
  then show "e = None" "\<exists>rec. frames_Append q fs [] = Some rec \<and> tr_written (c_tr c') = tr_written (c_tr c) @ [rec] \<and> act q c [] c'"
    using r writeRecord_ok [OF assms(1), of now rec c] by auto
qed

lemma puts_frames:
  assumes "takes_all tw" "act q c fs c1" "c_tr c1 = c_tr c" "writeFramesLocked q tw now fs c1 = Some (e, c')"
  shows "puts q c fs c'"
proof -
  obtain rec where "frames_Append q fs [] = Some rec" "tr_written (c_tr c') = tr_written (c_tr c1) @ [rec]" "act q c1 [] c'"
    using writeFrames_record(2) [OF assms(1,4)] by blast
  then show ?thesis unfolding puts_def using assms(2,3)
    by (intro exI [of _ c1] exI [of _ "[rec]"]) (auto intro: records_of_one)
qed

lemma writeChunk_puts:
  assumes "takes_all tw" "sender i c" "writeChunk q tw now i p c = Some ((n, None), c')"
  shows "\<exists>off. puts q c (if n = 0 then [] else [Stream (s_id (obj c i)) off (take n p) False]) c'"
proof -
  obtain res c1 where r: "reserve i (length p) c = (res, c1)" by fastforce
  obtain off m where res: "res = Inr (off, m)" using assms(3) r by (auto simp: writeChunk_def split: sum.splits)
  have c1: "c_tr c1 = c_tr c" "s_id (obj c1 i) = s_id (obj c i)"
    using r res assms(2) by (auto simp: reserve_eq sender_def split: option.splits)
  note a = act_write [OF assms(2) r [unfolded res], of q]
  show ?thesis
  proof (cases "m = 0")
    case True
    then have "n = 0" "c' = c1" using assms(3) r res by (auto simp: writeChunk_def)
    then show ?thesis using a True c1(1) records_of_nil by (auto simp: puts_def)
  next
    case False
    let ?f = "Stream (s_id (obj c i)) off (take m p) False"
    obtain e c2 where w: "writeFramesLocked q tw now [?f] c1 = Some (e, c2)"
      using assms(3) r res False c1(2) by (auto simp: writeChunk_def Option.bind_eq_Some_conv)
    have "e = None" using writeFrames_record(1) [OF assms(1) w] .
    then have "n = m" "c2 = c'" using assms(3) r res False c1(2) w by (auto simp: writeChunk_def)
    then show ?thesis using puts_frames [OF assms(1) a c1(1)] w False by auto
  qed
qed

lemma closeSend_puts:
  assumes "takes_all tw" "sender i c" "closeSend q tw now i c = Some (None, c')"
  shows "\<exists>fs. puts q c fs c' \<and> fs = (if s_finSent (obj c i) \<or> s_sendErr (obj c i) \<noteq> None then []
     else [Stream (s_id (obj c i)) (s_sendOffset (obj c i)) [] True])"
proof (cases "s_finSent (obj c i) \<or> s_sendErr (obj c i) \<noteq> None")
  case True
  then have "c' = c" using assms(3) by (auto simp: closeSend_def finish_def Let_def split: option.splits)
  moreover have "act q c [] (c\<lparr>c_tr := c_tr c\<rparr>)" by (rule act_transport)
  ultimately show ?thesis using True records_of_nil by (auto simp: puts_def)
next
  case False
  have i: "i < length (c_objs c)" using assms(2) by (simp add: sender_def)
  have none: "c_closeErr c = None" using assms(3) by (cases "c_closeErr c") (auto simp: closeSend_def finish_def)
  obtain n c1 where r: "finish i c = (Inr (Some n), c1)" using False none by (auto simp: finish_def Let_def)
  have c1: "c1 = completeLocked i (send_update i (finish_obj (obj c i)) c)" using finish_snd [OF i] r False none by simp
  have "n = s_sendOffset (obj c1 i)" using r False none by (auto simp: finish_def Let_def)
  then have n: "n = s_sendOffset (obj c i)" "s_id (obj c1 i) = s_id (obj c i)" "c_tr c1 = c_tr c"
    using i by (simp_all add: c1 send_update_def completeLocked_eq)
  obtain e c2 where w: "writeFramesLocked q tw now [Stream (s_id (obj c i)) n [] True] c1 = Some (e, c2)"
    using assms(3) r n(2) by (auto simp: closeSend_def Option.bind_eq_Some_conv)
  have "e = None" using writeFrames_record(1) [OF assms(1) w] .
  then have "c2 = c'" using assms(3) r n(2) w by (auto simp: closeSend_def)
  then show ?thesis using puts_frames [OF assms(1) act_finish [OF assms(2) r] n(3)] w n(1) False by auto
qed

lemma SendDatagram_puts:
  assumes "takes_all tw" "length p < 2 ^ 62" "SendDatagram q tw now p c = Some (None, c')"
  shows "puts q c [Datagram p] c'"
proof -
  have g: "datagramLimit c \<noteq> 0" "\<not> of_nat (Datagram_Len q p) > datagramLimit c" "c_cause c = None"
    using assms(3) by (auto simp: SendDatagram_def Let_def split: if_splits option.splits)
  obtain e c2 where w: "writeFramesLocked q tw now [Datagram p] c = Some (e, c2)"
    using assms(3) g by (auto simp: SendDatagram_def Let_def Option.bind_eq_Some_conv)
  have "e = None" using writeFrames_record(1) [OF assms(1) w] .
  then have "c2 = c'" using assms(3) g w by (auto simp: SendDatagram_def Let_def)
  then show ?thesis using puts_frames [OF assms(1) act_sendDatagram [OF assms(2) g(1)]] g(2) w by (simp add: not_less)
qed

text \<open>\<open>flushControl\<close> spreads the frames over records.\<close>

lemma frame_Append_grows:
  assumes "quicvarint q" "frame_Append q f b = Some b'"
  shows "length b < length b'"
proof -
  have put: "length b < length b'" if p: "put_varint q t b = Some b'" for t b b'
  proof -
    obtain e where e: "vappend q t = Some e" "b' = b @ e" using p by (auto simp: put_varint_def Option.bind_eq_Some_conv)
    have "t \<le> vmax q \<and> length e = vlen q t" using quicvarint.append_SomeD [OF assms(1) e(1)] .
    then show ?thesis using quicvarint.vlen_bounds [OF assms(1), of t] e(2) by simp
  qed
  show ?thesis using assms(2)
    by (cases f) (auto simp: Append_defs Option.bind_eq_Some_conv Let_def split: if_splits dest!: put)
qed

lemma flush_loop_puts:
  assumes "quicvarint q" "takes_all tw" "flush_loop q tw now fs (new_record @ b) c = Some (e, c')"
    "frames_Append q gs [] = Some b" "b = [] \<longrightarrow> gs = []"
  shows "e = None \<and> (\<exists>recs. records_of q (gs @ fs) recs \<and> tr_written (c_tr c') = tr_written (c_tr c) @ recs \<and> (\<lambda>a b. act q a [] b)\<^sup>*\<^sup>* c c')"
  using assms(3-5)
proof (induction fs arbitrary: b c gs)
  case Nil
  have len: "length (new_record @ b) = recordHeadroom \<longleftrightarrow> b = []" by (simp add: new_record_def)
  show ?case
  proof (cases "b = []")
    case True
    then show ?thesis using Nil records_of_nil len by auto
  next
    case False
    obtain c1 where c1: "writeRecordLocked tw now (new_record @ b) c = (None, c1)" "tr_written (c_tr c1) = tr_written (c_tr c) @ [b]"
      using writeRecord_ok [OF assms(2)] by blast
    then have "e = None" "c' = c1" using Nil.prems(1) False len by auto
    moreover have "act q c [] c1" using act_writeRecord [of q c tw now "new_record @ b"] c1(1) by simp
    ultimately show ?thesis using c1(2) records_of_one [OF Nil.prems(2)] by auto
  qed
next
  case (Cons f fs)
  obtain ef where ef: "frame_Append q f [] = Some ef" "ef \<noteq> []"
    using Cons.prems(1) frame_Append_prefix [of q f "new_record @ b"] frame_Append_grows [OF assms(1), of f "[]"] by fastforce
  have ap: "frame_Append q f x = Some (x @ ef)" for x using frame_Append_prefix [of q f x] ef(1) by simp
  have enc: "frames_Append q (gs @ [f]) [] = Some (b @ ef)"
  proof -
    have "frames_Append q (gs @ hs) x = Option.bind (frames_Append q gs x) (frames_Append q hs)" for hs x
      by (induction gs arbitrary: x) (auto split: Option.bind_split)
    then show ?thesis using Cons.prems(2) ap by simp
  qed
  show ?case
  proof (cases "length (new_record @ b @ ef) > full")
    case False
    then have "flush_loop q tw now fs (new_record @ (b @ ef)) c = Some (e, c')" using Cons.prems(1) ap by simp
    from Cons.IH [OF this enc] ef(2) show ?thesis by simp
  next
    case True
    obtain c1 where c1: "writeRecordLocked tw now (new_record @ (b @ ef)) c = (None, c1)" "tr_written (c_tr c1) = tr_written (c_tr c) @ [b @ ef]"
      using writeRecord_ok [OF assms(2)] by blast
    then have "flush_loop q tw now fs (new_record @ []) c1 = Some (e, c')" using Cons.prems(1) ap True by simp
    from Cons.IH [OF this, of "[]"] obtain recs where r: "e = None" "records_of q fs recs"
      "tr_written (c_tr c') = tr_written (c_tr c1) @ recs" "(\<lambda>a b. act q a [] b)\<^sup>*\<^sup>* c1 c'"
      by auto
    have "act q c [] c1" using act_writeRecord [of q c tw now "new_record @ (b @ ef)"] c1(1) by simp
    then have "(\<lambda>a b. act q a [] b)\<^sup>*\<^sup>* c c'" using r(4) by (rule converse_rtranclp_into_rtranclp)
    moreover have "records_of q (gs @ f # fs) ((b @ ef) # recs)"
      using records_of_append [OF records_of_one [OF enc] r(2)] by simp
    ultimately show ?thesis using r(1,3) c1(2) by auto
  qed
qed

lemma flushControl_puts:
  assumes "quicvarint q" "takes_all tw" "flushControl q tw now c = Some (e, c')"
  shows "puts q c (fst (takeControl now c)) c'"
proof -
  let ?fs = "fst (takeControl now c)" and ?c = "snd (takeControl now c)"
  have "flush_loop q tw now ?fs (new_record @ []) ?c = Some (e, c')" using assms(3) by (simp add: flushControl_def case_prod_beta)
  from flush_loop_puts [OF assms(1,2) this, of "[]"] obtain recs where
    "records_of q ?fs recs" "tr_written (c_tr c') = tr_written (c_tr ?c) @ recs" "(\<lambda>a b. act q a [] b)\<^sup>*\<^sup>* ?c c'" by auto
  moreover have "c_tr ?c = c_tr c" by (simp add: takeControl_def upd_in_def Let_def)
  ultimately show ?thesis unfolding puts_def using act_control by metis
qed

subsection \<open>Calls\<close>

text \<open>C4. What the calls of an end put on a transport that takes every record: a chunk of \<open>write\<close> that returns
  \<open>n\<close> bytes puts one STREAM frame with the first \<open>n\<close> bytes of the data on the transport (none for
  \<open>n = 0\<close>), \<open>closeSend\<close> the frame that ends the stream (none if it has ended), \<open>SendDatagram\<close> the datagram, and
  a round of \<open>flushControl\<close> the frames that \<open>takeControl\<close> returns. Each is one step of the end under the mutex,
  which emits the frames, and the records it writes are the encodings of these frames, in order.\<close>

theorem calls_put_frames:
  assumes "quicvarint q" "takes_all tw"
  shows "(sender i c \<and> writeChunk q tw now i p c = Some ((n, None), c') \<longrightarrow>
      (\<exists>off. puts q c (if n = 0 then [] else [Stream (s_id (obj c i)) off (take n p) False]) c')) \<and>
    (sender i c \<and> closeSend q tw now i c = Some (None, c') \<longrightarrow>
      puts q c (if s_finSent (obj c i) \<or> s_sendErr (obj c i) \<noteq> None then []
        else [Stream (s_id (obj c i)) (s_sendOffset (obj c i)) [] True]) c') \<and>
    (length p < 2 ^ 62 \<and> SendDatagram q tw now p c = Some (None, c') \<longrightarrow> puts q c [Datagram p] c') \<and>
    (flushControl q tw now c = Some (e, c') \<longrightarrow> puts q c (fst (takeControl now c)) c')"
  using writeChunk_puts [OF assms(2), of i c q now p n c'] closeSend_puts [OF assms(2), of i c q now c']
    SendDatagram_puts [OF assms(2), of p q now c c'] flushControl_puts [OF assms, of now c e c'] by blast

theorem calls_put_frames_witness:
  "\<exists>c' off. writeChunk rfc9000 (\<lambda>ws b. Inr (length b)) 0 0 [1, 2, 3] asked = Some ((3, None), c') \<and>
     puts rfc9000 asked [Stream 0 off [1, 2, 3] False] c'"
proof -
  have t: "takes_all (\<lambda>ws b. Inr (length b))" by (simp add: takes_all_def)
  have "frame_Append rfc9000 (Stream 0 0 [1, 2, 3] False) b = Some (b @ [0x0a, 0, 3, 1, 2, 3])" for b
    by (simp add: Append_defs put_varint_def rfc.append_small Stream_type_def frame_type_defs u64_len_def)
  then obtain c' where "writeChunk rfc9000 (\<lambda>ws b. Inr (length b)) 0 0 [1, 2, 3] asked = Some ((3, None), c')"
    using wrote_step asked_stream(4) by (simp add: writeChunk_def writeFramesLocked_def writeRecordLocked_def numeral_3_eq_3 Let_def)
  then show ?thesis using calls_put_frames [OF rfc.quicvarint_axioms t, of 0 asked 0 "[1, 2, 3]" 3 c'] asked_stream(1,2) by auto
qed

section \<open>From records to the application\<close>

lemma handle_frames_run:
  assumes "quicvarint q" "pair_inv t" "c_closeErr (pr_conn t x) = None" "pr_flight t (\<not> x) = gs @ fs" "\<forall>f \<in> set gs. close_error f = None"
    "\<And>n. n \<le> length gs \<Longrightarrow> recv_bounds (snd (handle_frames grow now (take n gs) (pr_conn t x)))"
  shows "\<exists>c'. handle_frames grow now gs (pr_conn t x) = (None, c') \<and>
    (pair_step q grow)\<^sup>*\<^sup>* t (t\<lparr>pr_conn := (pr_conn t)(x := c'), pr_flight := (pr_flight t)(\<not> x := fs)\<rparr>)"
  using assms(2-)
proof (induction gs arbitrary: t)
  case Nil
  then have "t\<lparr>pr_conn := (pr_conn t)(x := pr_conn t x), pr_flight := (pr_flight t)(\<not> x := fs)\<rparr> = t"
    by (intro pair.equality) (auto simp: fun_eq_iff)
  then show ?case by (intro exI [of _ "pr_conn t x"]) (simp only: handle_frames.simps rtranclp.rtrancl_refl simp_thms)
next
  case (Cons f gs)
  have b: "recv_bounds (pr_conn t x)" using Cons.prems(5) [of 0] by simp
  obtain c1 where c1: "handleFrameLocked grow now (Frame f) (pr_conn t x) = (None, c1)"
    using takes_end [OF Cons.prems(1) b Cons.prems(2), of f "gs @ fs" grow now] Cons.prems(3,4) by auto
  define t1 where "t1 = t\<lparr>pr_conn := (pr_conn t)(x := c1), pr_flight := (pr_flight t)(\<not> x := gs @ fs)\<rparr>"
  have s: "pair_step q grow t t1" unfolding t1_def by (rule pair_take [OF b Cons.prems(2) _ c1]) (use Cons.prems(3) in simp)
  have "c_closeErr c1 = None" using handleFrameLocked_closeErr [of grow now "Frame f" "pr_conn t x"] c1 Cons.prems(2) by simp
  then have live: "c_closeErr (pr_conn t1 x) = None" by (simp add: t1_def)
  have fl: "pr_flight t1 (\<not> x) = gs @ fs" by (simp add: t1_def)
  have bd: "recv_bounds (snd (handle_frames grow now (take n gs) (pr_conn t1 x)))" if "n \<le> length gs" for n
    using Cons.prems(5) [of "Suc n"] that c1 by (simp add: t1_def)
  have ce: "\<forall>f \<in> set gs. close_error f = None" using Cons.prems(4) by simp
  obtain c' where c': "handle_frames grow now gs (pr_conn t1 x) = (None, c')"
    "(pair_step q grow)\<^sup>*\<^sup>* t1 (t1\<lparr>pr_conn := (pr_conn t1)(x := c'), pr_flight := (pr_flight t1)(\<not> x := fs)\<rparr>)"
    using Cons.IH [OF pair_step_inv [OF assms(1) s Cons.prems(1)] live fl ce bd] by blast
  have "t1\<lparr>pr_conn := (pr_conn t1)(x := c'), pr_flight := (pr_flight t1)(\<not> x := fs)\<rparr> =
      t\<lparr>pr_conn := (pr_conn t)(x := c'), pr_flight := (pr_flight t)(\<not> x := fs)\<rparr>"
    by (simp add: t1_def)
  then have "(pair_step q grow)\<^sup>*\<^sup>* t (t\<lparr>pr_conn := (pr_conn t)(x := c'), pr_flight := (pr_flight t)(\<not> x := fs)\<rparr>)"
    using c'(2) s converse_rtranclp_into_rtranclp [of "pair_step q grow"] by metis
  moreover have "handle_frames grow now (f # gs) (pr_conn t x) = (None, c')" using c1 c'(1) by (simp add: t1_def)
  ultimately show ?case by blast
qed







text \<open>C3. The end of a stream is the end of the data: a read that returns \<open>io.EOF\<close>, on an open connection and a stream
  with no error of its own, is made when the application has read all that the other one has written, and
  nothing more of the stream is in flight.\<close>

theorem eof_is_complete:
  assumes "quicvarint q" "pair_start q s" "(pair_step q grow)\<^sup>*\<^sup>* s t" "receiver p (pr_conn t (\<not> x))" "s_id (obj (pr_conn t (\<not> x)) p) = i"
    "c_closeErr (pr_conn t (\<not> x)) = None" "s_recvErr (obj (pr_conn t (\<not> x)) p) = None" "fst (tryRead p k (pr_conn t (\<not> x))) = Fails (IO EOF)"
  shows "pr_read t (\<not> x) i = pr_written t x i \<and> bytes_of i (pr_flight t x) = []"
proof -
  let ?c = "pr_conn t (\<not> x)"
  have inv: "pair_inv t" by (rule pair_reachable [OF assms(1-3)])
  have ok: "conn_ok ?c" using inv by (simp add: pair_inv_def)
  have p: "p < length (c_objs ?c)" "s_canRecv (obj ?c p)" using assms(4) by (simp_all add: receiver_def)
  have e: "s_finRecv (obj ?c p)" "unread (obj ?c p) = []"
    using assms(6-8) by (auto simp: tryRead_def unread_def Let_def split: if_splits prod.splits)
  have "recv_stream_ok (stream_window ?c) (obj ?c p)" using ok p(1) by (simp add: conn_ok_def recv_ok_def recv_inv_def)
  then have live: "\<not> s_readCancelled (obj ?c p)" "\<not> s_recvReset (obj ?c p)" using assms(7) by (auto simp: recv_stream_ok_def split: if_splits)
  have t: "table_ok ?c" using ok by (simp add: conn_ok_def)
  have "h_ended (p_recv (view ?c) i)" using view_obj(2) [OF t p] assms(5) e(1) by (simp add: recv_half_def)
  moreover have "stream_flow (view (pr_conn t x)) (view ?c) (pr_flight t x) (pr_flight t (\<not> x)) i"
    using pair_inv_end [OF inv, of x] by (simp add: paired_def linked_def)
  ultimately have "bytes_of i (pr_flight t x @ c_control (pr_conn t x)) = []"
    by (intro replay_ended) (auto simp: stream_flow_def)
  then have "bytes_of i (pr_flight t x) = []" by simp
  moreover have "inbox (c_objs ?c) i = Some []"
    using inbox_obj [OF table_distinct [OF t] nth_mem [OF p(1)]] assms(5) live e(2) by (simp add: waiting_def)
  ultimately show ?thesis using pair_delivery [OF assms(1-3), of x i] by (simp add: delivery_def)
qed

theorem eof_is_complete_witness:
  "pr_read chat_over True 0 = pr_written chat_over False 0 \<and> bytes_of 0 (pr_flight chat_over False) = []"
proof -
  have "pr_conn chat_over True = informed" by (simp add: chat_over_def chat_def)
  moreover have "receiver 0 informed" "s_id (obj informed 0) = 0" "c_closeErr informed = None" "s_recvErr (obj informed 0) = None"
    "fst (tryRead 0 8 informed) = Fails (IO EOF)"
    by (simp_all add: receiver_def tryRead_def informed told_end_stream_def agreed_stream_def heard_stream_def met_stream_def zero_stream_def Let_def)
  ultimately show ?thesis
    using eof_is_complete [OF rfc.quicvarint_axioms before_start chat_over_run, of 0 False 0 8] by simp
qed

end
