(* ===== verification/Spec2Isabelle.thy ===== *)
theory Spec2Isabelle
  imports Write_Lock Recv_Flow Send_Flow Conn_Runs Transports Edge_Cases Stream_Handles Peers
begin

text \<open>
  A verification of qmux-go, a Go implementation of QMux: QUIC's streams and datagrams over a
  reliable, ordered transport. The program is the package \<^verbatim>\<open>src/qmux\<close> with its internal package
  \<^verbatim>\<open>wire\<close>. The theories translate its code into functions and prove what makes it correct; this
  theory imports them all.

  \<^bold>\<open>The program.\<close> A connection (\<^verbatim>\<open>conn.go\<close>) exchanges records with its peer over a record transport
  (\<^verbatim>\<open>transport.go\<close>): a byte stream, where a Size field delimits the records, or a message connection,
  possibly used as a byte stream through an adapter (\<^verbatim>\<open>adapter.go\<close>). A record holds frames
  (\<^verbatim>\<open>internal/wire/frame.go\<close>); the first frame carries the transport parameters
  (\<^verbatim>\<open>internal/wire/params.go\<close>), made from the configuration (\<^verbatim>\<open>qmux.go\<close>). A goroutine reads records and
  handles their frames, another one writes the control frames that the connection has queued, two more
  keep time. The application opens and accepts streams and reads and writes them (\<^verbatim>\<open>stream.go\<close>); writers
  are ordered by a lock with priorities (\<^verbatim>\<open>write_lock.go\<close>). The state is guarded by one mutex, so the
  model is sequential: every critical section of this mutex is a function of the state.

  \<^bold>\<open>The model.\<close>
  \<^item> \<open>Qmux_Prelude\<close>: the types of Go, words, strings, the formatting verbs.
  \<^item> \<open>Varint_Codec\<close>: the third-party package \<^verbatim>\<open>quicvarint\<close> as a record of its functions, a parameter of
    everything that uses it, with its documented behaviour as the laws of the locale \<open>quicvarint\<close>. The
    encoding of RFC 9000 is shown to satisfy them.
  \<^item> \<open>Wire_Reader\<close>, \<open>Wire_Params\<close>, \<open>Wire_Frames\<close>: the reader of \<^verbatim>\<open>frame.go\<close>, the transport parameters of
    \<^verbatim>\<open>params.go\<close> and the frames of \<^verbatim>\<open>frame.go\<close>, each with its encoder and its parser. A panic of an
    encoder is \<open>None\<close>.
  \<^item> \<open>Qmux_Config\<close>: the configuration of \<^verbatim>\<open>qmux.go\<close>, its defaults and \<open>normalized\<close>, and the parameters
    a connection declares (\<open>localParameters\<close> of \<^verbatim>\<open>conn.go\<close>).
  \<^item> \<open>Go_Heap\<close>, \<open>Write_Lock\<close>: Go's \<open>container/heap\<close> and the priority lock of \<^verbatim>\<open>write_lock.go\<close>. The lock with
    the goroutines that use it is a transition system.
  \<^item> \<open>Conn_State\<close>: the struct \<open>Conn\<close>, the struct \<open>stream\<close> and the operations both files share: signals,
    stream identifiers, creation and completion of streams, flow control accounting, the control queue,
    the writing of records, the ends of a connection. A pointer to a stream is an index into the list
    \<open>c_objs\<close> of all streams ever made, so a handle of the application outlives the entry in the table.
  \<^item> \<open>Stream_Ops\<close>: \<^verbatim>\<open>stream.go\<close>. A call that waits is a loop of attempts; what the rest of the program
    does between two of them, and how the wait ends, is given as a list, so every such loop is
    structural, and a call whose list runs out is still waiting.
  \<^item> \<open>Conn_Handlers\<close>: the handlers of the frames, up to \<open>handleRecord\<close>. \<open>Conn_API\<close>: the application's
    calls on a connection, the rounds of the goroutines, the start of a connection, its statistics.
    \<open>Conn_Loops\<close>: the four goroutines as loops over these rounds.
  \<^item> \<open>Stream_Handles\<close>: the types \<open>ReceiveStream\<close>, \<open>SendStream\<close> and \<open>Stream\<close> of \<^verbatim>\<open>stream.go\<close>, their methods, and the
    calls of \<^verbatim>\<open>conn.go\<close> that return them.
  \<^item> \<open>Byte_Readers\<close>, \<open>Transports\<close>: what \<^verbatim>\<open>transport.go\<close> uses of \<open>io\<close> and \<open>bufio\<close>, the two transports, the
    adapter, and the four functions that start a connection. A \<open>net.Conn\<close> and a \<open>MessageConn\<close> are
    records of their methods, given by the application, with what is documented of them as locales.
  \<^item> \<open>Conn_Steps\<close>: the transition system of a connection. \<open>conn_op\<close> has a rule for every critical section
    that the goroutines and the application perform, \<open>conn_step\<close> adds the writer, which sleeps until it
    has a token and takes what is queued, and \<open>conn_run\<close> is any sequence of them.
  \<^item> \<open>Peer_Pair\<close>: two connections and the frames in flight between them. \<open>pair_step\<close> lets either end do what an
    application or a goroutine does, or handle the next frame that the other end has written.

  \<^bold>\<open>What is shown.\<close>
  \<^item> \<open>Wire_Correct\<close>: parsing inverts encoding, for frames and for parameters; both parsers return on every
    input, with a valid value or one of the protocol's errors; an encoder panics exactly on values that
    are no varints; a normalized configuration is within the protocol's limits.
  \<^item> \<open>Write_Lock\<close>: mutual exclusion, no lost hand-over, and the order in which waiters are served.
  \<^item> \<open>Stream_Table\<close>: the connection refines an abstract table of streams; the peer never has more streams
    than it may; \<open>streamLocked\<close> rejects exactly what the protocol forbids; identifiers are read back.
  \<^item> \<open>Recv_Flow\<close>, \<open>Send_Flow\<close>: the invariants of flow control on both sides, that reads return the bytes in
    the order of their frames, and that credit is given back.
  \<^item> \<open>Stream_Laws\<close>: a property of single streams that what the operations do to one stream keeps is kept by every
    step of a connection; the locale \<open>stream_law\<close> states what is to be shown of the property.
  \<^item> \<open>Conn_Life\<close>: the end of a connection is final, the handshake happens once, datagrams are queued in
    order and dropped exactly when the queue is full.
  \<^item> \<open>Wake_Ups\<close>: no call waits for a change that has already happened: every step that could let a blocked
    read, write, open or accept proceed closes the channel it waits on, and a queued control frame always
    leaves the writer awake or with a token.
  \<^item> \<open>Conn_Runs\<close>: the rounds of the goroutines and the calls of the application are runs of the transition
    system, so the invariants apply to them; a round of the reader always returns; a record is handled as
    its frames are; a close reaches the peer. \<open>Conn_Loops\<close>: a goroutine that returns leaves a connection that has
    ended, and none outlives its reason to run.
  \<^item> \<open>Stream_Handles\<close>: the types of the API are sound: the stream behind a handle has the directions that the type of
    the handle promises, whatever the application does with its handles; and a context tells what became of the
    sending side.
  \<^item> \<open>Peer_Spec\<close>, \<open>Peer_View\<close>, \<open>Peer_Refine\<close>, \<open>Peer_Pair\<close>, \<open>Peer_Delivery\<close>, \<open>Peers\<close>: two ends that run this code understand each
    other. \<open>Peer_Spec\<close> says what an endpoint may send and what it accepts, and shows that two such endpoints stay
    in agreement; \<open>Peer_View\<close> and \<open>Peer_Refine\<close> show that a connection is such an endpoint; \<open>Peer_Pair\<close> and
    \<open>Peer_Delivery\<close> carry this over to two connections and to the bytes of their streams. \<open>Peers\<close> concludes that no
    frame is ever refused, that every byte arrives once and in order, and that the end of a stream is the end of
    the data. \<open>Peer_Example\<close> is a conversation to which the theorems apply.
  \<^item> \<open>Edge_Cases\<close>: what the code makes of configurations at the edge of what \<open>normalized\<close> lets through: receive windows of
    one byte and of \<open>2 ^ 62 - 1\<close> bytes, a stream limit of \<open>2 ^ 60\<close>; and the size that \<open>SendDatagram\<close> reports.
  \<^item> \<open>Transports\<close>: records survive a byte stream in pieces of any size; the transports agree; a truncated
    record is never taken for an orderly end.

  \<^bold>\<open>Bounds.\<close> Counters of the wire are 64-bit words, and the wire carries integers below \<open>2 ^ 62\<close>. The theorems
  on received data are about runs whose limits stay below this (\<open>recv_bounds\<close>), which is where the code
  itself can still announce them. Loops that are not structural are \<open>function\<close>s with a termination proof,
  or \<open>partial_function\<close>s in the option monad whose theorems show that they return.

  \<^bold>\<open>Not modelled.\<close> Goroutine scheduling within a critical section (the mutex excludes it), the Go runtime's
  timers (a time is an argument, the expiry of a wait an input), the TLS state and the addresses that a
  connection passes on from its transport, and the memory that slices share: the code hands out a record
  buffer that is valid until the next read, and the model copies it. The write lock is modelled on its own; what a
  connection does while it holds the lock is a function, so that the records of two writers do not mix. In the
  model of a pair the transport is the sequence of the frames in flight; that records carry frames, and that
  transports carry records, is shown separately. \<^verbatim>\<open>magefiles\<close> holds build commands; \<^verbatim>\<open>cmd\<close> and \<^verbatim>\<open>examples\<close>
  hold no code.
\<close>

end
